(* ===== verification/Util_base.thy ===== *)
theory Util_base
  imports Main "HOL-Library.Code_Target_Nat"
begin

text \<open>
  Shared vocabulary of the C++ part: exceptions, error codes, log lines and the decimal numbers
  that \<^verbatim>\<open>fmt\<close> and \<^verbatim>\<open>sprintf\<close> print.

  The effects of the code are a list of \<^emph>\<open>calls\<close>, in the order the code makes them; what a call to
  the operating system or to a library answers is an argument of the definitions that make it.
\<close>

section \<open>Exceptions and error codes\<close>

text \<open>What a \<^verbatim>\<open>catch\<close> clause can tell apart: a \<^verbatim>\<open>std::exception\<close> with the text of \<^verbatim>\<open>what()\<close> and the
  stack trace that \<^verbatim>\<open>throw_with_trace\<close> may have attached to it, and anything else.\<close>

datatype exn = Std_exception string "string option" | Other_exception

datatype error_category = Generic_category | System_category | Util_category | Asio_misc_category

record error_code =
  ec_value :: int
  ec_category :: error_category

text \<open>\<^verbatim>\<open>if (ec)\<close>.\<close>

definition ec_failed :: "error_code \<Rightarrow> bool" where
  "ec_failed ec \<longleftrightarrow> ec_value ec \<noteq> 0"

section \<open>Log lines\<close>

datatype log_level = Level_trace | Level_debug | Level_info | Level_warn | Level_err | Level_critical | Level_off

type_synonym log_line = "log_level \<times> string"

abbreviation SPDLOG_INFO :: "string \<Rightarrow> log_line" where "SPDLOG_INFO s \<equiv> (Level_info, s)"
abbreviation SPDLOG_ERROR :: "string \<Rightarrow> log_line" where "SPDLOG_ERROR s \<equiv> (Level_err, s)"

abbreviation newline :: string where "newline \<equiv> [CHR 0x0A]"

section \<open>Decimal numbers\<close>

definition digit :: "nat \<Rightarrow> char" where
  "digit d = char_of (48 + d)"

fun dec :: "nat \<Rightarrow> string" where
  "dec n = (if n < 10 then [digit n] else dec (n div 10) @ [digit (n mod 10)])"

declare dec.simps [simp del]

definition show_int :: "int \<Rightarrow> string" where
  "show_int i = (if i < 0 then ''-'' @ dec (nat (- i)) else dec (nat i))"

text \<open>\<^verbatim>\<open>%02d\<close> of a non-negative number.\<close>

definition pad2 :: "nat \<Rightarrow> string" where
  "pad2 n = (if n < 10 then ''0'' @ dec n else dec n)"

lemma digit_inj: "a < 10 \<Longrightarrow> b < 10 \<Longrightarrow> digit a = digit b \<longleftrightarrow> a = b"
  by (simp add: digit_def char_of_eq_iff take_bit_eq_mod)

lemma of_char_digit: "d < 10 \<Longrightarrow> of_char (digit d) = (48 + d :: nat)"
  by (simp add: digit_def take_bit_nat_eq_self_iff)

lemma dec_not_Nil [simp]: "dec n \<noteq> []"
  by (subst dec.simps) simp

text \<open>Reading the digits back.\<close>

definition undec :: "string \<Rightarrow> nat" where
  "undec s = foldl (\<lambda>a c. a * 10 + (of_char c - 48)) 0 s"

lemma undec_snoc: "d < 10 \<Longrightarrow> undec (s @ [digit d]) = undec s * 10 + d"
  by (simp add: undec_def of_char_digit)

lemma undec_dec: "undec (dec n) = n"
proof (induction n rule: dec.induct)
  case (1 n)
  show ?case
  proof (cases "n < 10")
    case True
    then show ?thesis using undec_snoc [of n "[]"] by (simp add: dec.simps [of n] undec_def)
  next
    case False
    then show ?thesis using 1 undec_snoc [of "n mod 10" "dec (n div 10)"] by (simp add: dec.simps [of n])
  qed
qed

lemma dec_inj: "dec a = dec b \<longleftrightarrow> a = b"
  using undec_dec by metis

lemma length_dec: "n < 10 ^ k \<Longrightarrow> 0 < k \<Longrightarrow> length (dec n) \<le> k"
proof (induction n arbitrary: k rule: dec.induct)
  case (1 n)
  show ?case
  proof (cases "n < 10")
    case False
    with 1(2,3) obtain j where k: "k = Suc j" "0 < j" by (cases k; cases "k - 1") auto
    then have "n div 10 < 10 ^ j" using 1(2) by (simp add: less_mult_imp_div_less)
    with 1(1) [OF False] k show ?thesis using False by (simp add: dec.simps [of n])
  qed (use 1 in \<open>simp add: dec.simps [of n]\<close>)
qed

lemma length_dec_pos: "0 < length (dec n)"
  by simp

lemma length_pad2: "n < 100 \<Longrightarrow> length (pad2 n) = 2"
  using length_dec [of n 2] by (auto simp: pad2_def dec.simps [of n] dec.simps [of "n div 10"])

lemma undec_zero_digit: "undec (''0'' @ s) = undec s"
proof -
  have "of_char (CHR ''0'') = (48 :: nat)" by code_simp
  then show ?thesis by (simp add: undec_def)
qed

lemma undec_pad2: "undec (pad2 n) = n"
  using undec_zero_digit [of "dec n"] by (simp add: pad2_def undec_dec)

lemma pad2_inj: "pad2 a = pad2 b \<longleftrightarrow> a = b"
  using undec_pad2 by metis

text \<open>Decimal numbers contain digits only.\<close>

lemma dec_set: "c \<in> set (dec n) \<Longrightarrow> \<exists>d < 10. c = digit d"
proof (induction n rule: dec.induct)
  case (1 n)
  show ?case
  proof (cases "n < 10")
    case False
    with 1(2) have "c \<in> set (dec (n div 10)) \<or> c = digit (n mod 10)" by (auto simp: dec.simps [of n])
    moreover have "n mod 10 < 10" by simp
    ultimately show ?thesis using 1(1) [OF False] by blast
  qed (use 1 in \<open>auto simp: dec.simps [of n]\<close>)
qed

lemma digit_code: "d < 10 \<Longrightarrow> of_char (digit d) \<in> {48 ..< 58 :: nat}"
  by (simp add: of_char_digit)

lemma dec_codes: "c \<in> set (dec n) \<Longrightarrow> of_char c \<in> {48 ..< 58 :: nat}"
  using dec_set digit_code by blast

lemma pad2_codes: "c \<in> set (pad2 n) \<Longrightarrow> of_char c \<in> {48 ..< 58 :: nat}"
proof -
  have "of_char (CHR ''0'') = (48 :: nat)" by code_simp
  then show "c \<in> set (pad2 n) \<Longrightarrow> ?thesis" using dec_codes by (fastforce simp: pad2_def split: if_splits)
qed

section \<open>Endpoints and exit codes\<close>

record endpoint =
  ep_address :: string
  ep_port :: nat

definition EXIT_SUCCESS :: int where "EXIT_SUCCESS = 0"
definition EXIT_FAILURE :: int where "EXIT_FAILURE = 1"

text \<open>\<^verbatim>\<open>duration_cast<milliseconds>\<close> of nanoseconds: it truncates towards zero.\<close>

definition milliseconds :: "int \<Rightarrow> int" where
  "milliseconds ns = sgn ns * (\<bar>ns\<bar> div 1000000)"

lemma milliseconds_bounds:
  "1000000 * \<bar>milliseconds ns\<bar> \<le> \<bar>ns\<bar>" "\<bar>ns\<bar> < 1000000 * (\<bar>milliseconds ns\<bar> + 1)"
  unfolding milliseconds_def by (auto simp: abs_mult sgn_if)

lemma length_remove1_mem: "x \<in> set xs \<Longrightarrow> Suc (length (remove1 x xs)) = length xs"
  using length_pos_if_in_set [of x xs] by (simp add: length_remove1)

end
