(* ===== verification/Util_error.thy ===== *)
theory Util_error
  imports Util_base
begin

text \<open>
  \<^verbatim>\<open>util/error.hpp\<close>, \<^verbatim>\<open>util/src/error.cpp\<close>, \<^verbatim>\<open>util/type_def.hpp\<close> and \<^verbatim>\<open>util/exception.hpp\<close>: the
  library's error codes, the text of an \<open>outcome\<close> and exceptions that carry a stack trace.
\<close>

section \<open>The error category\<close>

datatype Error = SUCCESSED | NO_IMPLEMENTED | STD_EXCEPTION | UNKNOWN_EXCEPTION

text \<open>\<^verbatim>\<open>static_cast<int>(e)\<close>.\<close>

fun Error_value :: "Error \<Rightarrow> int" where
  "Error_value SUCCESSED = 0" | "Error_value NO_IMPLEMENTED = 1"
| "Error_value STD_EXCEPTION = 2" | "Error_value UNKNOWN_EXCEPTION = 3"

definition ErrorCategory_name :: string where
  "ErrorCategory_name = ''UtilError''"

definition ErrorCategory_message :: "int \<Rightarrow> string" where
  "ErrorCategory_message c =
     (if c = Error_value SUCCESSED then ''no error''
      else if c = Error_value NO_IMPLEMENTED then ''no implemented''
      else if c = Error_value STD_EXCEPTION then ''std exception''
      else if c = Error_value UNKNOWN_EXCEPTION then ''catching unknown exception''
      else ''unknown'')"

text \<open>The error conditions of \<^verbatim>\<open>std::errc\<close> that the code names.\<close>

datatype errc = Errc_success | Errc_not_supported

record error_condition =
  cond_errc :: errc
  cond_category :: error_category

definition make_error_condition :: "errc \<Rightarrow> error_condition" where
  "make_error_condition e = \<lparr>cond_errc = e, cond_category = Generic_category\<rparr>"

definition ErrorCategory_default_error_condition :: "int \<Rightarrow> error_condition" where
  "ErrorCategory_default_error_condition c =
     (if c = Error_value NO_IMPLEMENTED then make_error_condition Errc_not_supported
      else make_error_condition Errc_not_supported)"

text \<open>The one object of the class.\<close>

definition ErrorCategory_get :: error_category where
  "ErrorCategory_get = Util_category"

definition make_error_code :: "Error \<Rightarrow> error_code" where
  "make_error_code e = \<lparr>ec_value = Error_value e, ec_category = ErrorCategory_get\<rparr>"

text \<open>\<^verbatim>\<open>code == condition\<close> for a code of this category: \<^verbatim>\<open>std::error_category::equivalent\<close>, which
  asks the category of the code for its default condition (the category of the condition
  compares codes of its own category only).\<close>

definition util_code_equals :: "error_code \<Rightarrow> error_condition \<Rightarrow> bool" where
  "util_code_equals ec cond \<longleftrightarrow> ErrorCategory_default_error_condition (ec_value ec) = cond"

section \<open>Outcomes and their text\<close>

text \<open>\<^verbatim>\<open>outcome<T>\<close>: a value, an error code, an exception, or an error code with an exception.
  \<^verbatim>\<open>result<T>\<close> is the part of it without exceptions, here a sum.\<close>

datatype 'a outcome =
    Outcome_value 'a
  | Outcome_error error_code
  | Outcome_exception exn
  | Outcome_error_exception error_code exn

fun outcome_has_value :: "'a outcome \<Rightarrow> bool" where
  "outcome_has_value (Outcome_value v) = True" | "outcome_has_value _ = False"

fun outcome_error :: "'a outcome \<Rightarrow> error_code option" where
  "outcome_error (Outcome_error ec) = Some ec"
| "outcome_error (Outcome_error_exception ec x) = Some ec"
| "outcome_error _ = None"

fun outcome_exception :: "'a outcome \<Rightarrow> exn option" where
  "outcome_exception (Outcome_exception x) = Some x"
| "outcome_exception (Outcome_error_exception ec x) = Some x"
| "outcome_exception _ = None"

text \<open>\<^verbatim>\<open>ec.message()\<close>; the texts of the other categories, \<open>other\<close>, belong to the system.\<close>

definition error_message :: "(error_code \<Rightarrow> string) \<Rightarrow> error_code \<Rightarrow> string" where
  "error_message other ec =
     (if ec_category ec = Util_category then ErrorCategory_message (ec_value ec) else other ec)"

text \<open>The handlers at the end of \<^verbatim>\<open>retrive_error_msg\<close>.\<close>

fun caught_message :: "exn \<Rightarrow> string" where
  "caught_message (Std_exception what trace) = what"
| "caught_message Other_exception = ''unknown exception''"

definition retrive_error_msg :: "(error_code \<Rightarrow> string) \<Rightarrow> 'a outcome \<Rightarrow> string" where
  "retrive_error_msg other oc =
     (if outcome_has_value oc then ''no error''
      else (case outcome_error oc of
              Some ec \<Rightarrow> error_message other ec
            | None \<Rightarrow>
                (case outcome_exception oc of
                   Some x \<Rightarrow> caught_message x
                 | None \<Rightarrow> ''unknown exception'')))"

text \<open>\<^verbatim>\<open>fmt::formatter<util::outcome<T>>\<close>: the specifier between the braces must be empty; \<open>Inl\<close> is
  the \<^verbatim>\<open>fmt::format_error\<close> that is thrown, \<open>Inr\<close> what is left of the format string.\<close>

definition formatter_parse :: "string \<Rightarrow> exn + string" where
  "formatter_parse context =
     (case context of
        [] \<Rightarrow> Inr []
      | c # cs \<Rightarrow>
          if c \<noteq> CHR ''}'' then Inl (Std_exception ''Invalid gl::Error format specifier.'' None)
          else Inr (c # cs))"

definition formatter_format :: "(error_code \<Rightarrow> string) \<Rightarrow> 'a outcome \<Rightarrow> string \<Rightarrow> string" where
  "formatter_format other oc out = out @ retrive_error_msg other oc"

definition outcome_to_stream :: "(error_code \<Rightarrow> string) \<Rightarrow> string \<Rightarrow> 'a outcome \<Rightarrow> string" where
  "outcome_to_stream other ostream oc = ostream @ retrive_error_msg other oc"

section \<open>Exceptions with a stack trace\<close>

text \<open>\<^verbatim>\<open>throw_with_trace(e)\<close> throws \<open>e\<close> with the current stack trace attached, in place of one it may
  carry; what is not a \<^verbatim>\<open>std::exception\<close> is caught by \<^verbatim>\<open>catch (...)\<close> all the same.\<close>

fun throw_with_trace :: "string \<Rightarrow> exn \<Rightarrow> exn" where
  "throw_with_trace stacktrace (Std_exception what trace) = Std_exception what (Some stacktrace)"
| "throw_with_trace stacktrace Other_exception = Other_exception"

text \<open>\<^verbatim>\<open>boost::get_error_info<traced>(e)\<close>.\<close>

fun get_traced :: "exn \<Rightarrow> string option" where
  "get_traced (Std_exception what trace) = trace"
| "get_traced Other_exception = None"

text \<open>The two \<^verbatim>\<open>catch\<close> clauses that end every \<^verbatim>\<open>main\<close>: the line they log for the exception, when
  \<open>from_current\<close> is the trace of the current exception.\<close>

fun main_catch :: "string \<Rightarrow> exn \<Rightarrow> log_line" where
  "main_catch from_current (Std_exception what trace) =
     SPDLOG_ERROR (''Catch exception: '' @ what @ '', trace: '' @ newline @ '' '' @
       (case get_traced (Std_exception what trace) of Some st \<Rightarrow> st | None \<Rightarrow> from_current))"
| "main_catch from_current Other_exception =
     SPDLOG_ERROR (''Catch unknown exception ... trace: '' @ from_current)"

text \<open>The \<^verbatim>\<open>catch\<close> clauses of the handlers and coroutines: they log at \<open>lv\<close> and go on.\<close>

fun handler_catch :: "log_level \<Rightarrow> string \<Rightarrow> exn \<Rightarrow> log_line" where
  "handler_catch lv unknown (Std_exception what trace) = (lv, ''catch exception: '' @ what)"
| "handler_catch lv unknown Other_exception = (lv, unknown)"

section \<open>Properties\<close>

text \<open>two codes of the library have the same text exactly when they are the same error, whichever way the
  text is asked for; but all of them, the code of success included, compare equal to the condition
  \<^verbatim>\<open>std::errc::not_supported\<close> and to no other, although only \<open>NO_IMPLEMENTED\<close> means that.\<close>

theorem codes_by_message_not_condition:
  "(retrive_error_msg other (Outcome_error (make_error_code a) :: 'a outcome)
      = retrive_error_msg other (Outcome_error_exception (make_error_code b) x :: 'a outcome) \<longleftrightarrow> a = b) \<and>
   formatter_format other (Outcome_error (make_error_code a) :: 'a outcome) out
      = outcome_to_stream other out (Outcome_error (make_error_code a) :: 'a outcome) \<and>
   (util_code_equals (make_error_code a) cond \<longleftrightarrow> cond = make_error_condition Errc_not_supported)"
  by (cases a; cases b)
    (auto simp: retrive_error_msg_def error_message_def make_error_code_def ErrorCategory_get_def ErrorCategory_message_def
      util_code_equals_def ErrorCategory_default_error_condition_def formatter_format_def outcome_to_stream_def)

text \<open>Formatting an outcome with the empty specifier, streaming it and asking for its text give
  the same characters, and an error code wins over an exception that comes with it.\<close>

lemma outcome_text_agrees:
  "formatter_format other oc out = outcome_to_stream other out oc \<and>
   outcome_to_stream other out (Outcome_error_exception ec x :: 'a outcome)
     = outcome_to_stream other out (Outcome_error ec :: 'a outcome) \<and>
   formatter_parse (CHR ''}'' # rest) = Inr (CHR ''}'' # rest)"
  by (simp add: formatter_format_def outcome_to_stream_def retrive_error_msg_def formatter_parse_def)

text \<open>An exception thrown with a trace is reported by \<^verbatim>\<open>main\<close> with that trace and its own text,
  whatever the trace at the place where it is caught.\<close>

lemma traced_exception_reported:
  "main_catch from_current (throw_with_trace st (Std_exception what trace)) =
     (Level_err, ''Catch exception: '' @ what @ '', trace: '' @ newline @ '' '' @ st)"
  by simp

end
