(* ===== verification/Util_platform.thy ===== *)
theory Util_platform
  imports Util_error
begin

text \<open>
  \<^verbatim>\<open>util/src/util.cpp\<close>, \<^verbatim>\<open>util/src/dump_helper.cpp\<close> and \<^verbatim>\<open>util/src/stacktrace_dumper.cpp\<close>: the
  logger, the location of the program, and what is left behind when the program crashes.

  The parts of the operating system that the code changes are explicit state: the file system (the
  directories and the files with their contents), the resource limit of core files and the signal
  dispositions.  What the system answers (the target of \<^verbatim>\<open>/proc/self/exe\<close>, the local time, whether
  a call succeeds) is an argument.
\<close>

section \<open>The logger\<close>

datatype sink_kind = Stdout_color_sink | Basic_file_sink string

record sink =
  sink_kind :: sink_kind
  sink_pattern :: string
  sink_level :: log_level

record logger =
  logger_name :: string
  logger_sinks :: "sink list"
  logger_level :: log_level

record logging =
  default_logger :: "logger option"
  flush_interval :: "nat option"

definition log_pattern :: string where
  "log_pattern = ''[%Y-%m-%d %H:%M:%S.%e][%!:%#][tid %t][%l] %v''"

text \<open>\<open>open_file p\<close> is the exception that opening the log file \<open>p\<close> raises, if it does; the default
  logger is replaced only after the sinks exist.\<close>

definition init_log ::
    "(string \<Rightarrow> exn option) \<Rightarrow> log_level \<Rightarrow> bool \<Rightarrow> bool \<Rightarrow> string \<Rightarrow> logging \<Rightarrow> exn option \<times> logging" where
  "init_log open_file level enable_console enable_file file_path lg =
     (let console = (if enable_console
                     then [\<lparr>sink_kind = Stdout_color_sink, sink_pattern = log_pattern, sink_level = level\<rparr>]
                     else []) in
      case (if enable_file then open_file file_path else None) of
        Some x \<Rightarrow> (Some x, lg)
      | None \<Rightarrow>
          (let sinks = console @ (if enable_file
                 then [\<lparr>sink_kind = Basic_file_sink file_path, sink_pattern = log_pattern, sink_level = level\<rparr>]
                 else []) in
           (None, lg\<lparr>default_logger := Some \<lparr>logger_name = ''default'', logger_sinks = sinks, logger_level = level\<rparr>,
                     flush_interval := Some 3\<rparr>)))"

text \<open>The default of the parameter \<open>file_path\<close>.\<close>

definition default_log_path :: string where "default_log_path = ''logs/default.log''"

section \<open>The location of the program\<close>

datatype platform = WIN32 | Linux_platform | Other_platform

definition MAXBUFSIZE :: nat where "MAXBUFSIZE = 1024"
definition MAX_PATH :: nat where "MAX_PATH = 260"

text \<open>\<open>get_module_file_name n\<close> and \<open>readlink n\<close> are the calls of the system with a buffer of \<open>n\<close>
  characters: \<open>Inl\<close> the error number or \<open>Inr\<close> the characters stored.  \<open>alloc\<close> is an exception that
  making the buffer or the path raises.\<close>

definition program_location ::
    "platform \<Rightarrow> (nat \<Rightarrow> int + string) \<Rightarrow> (nat \<Rightarrow> int + string) \<Rightarrow> exn option \<Rightarrow> string outcome" where
  "program_location pf get_module_file_name readlink alloc =
     (case alloc of
        Some x \<Rightarrow> Outcome_exception x
      | None \<Rightarrow>
          (case pf of
             WIN32 \<Rightarrow>
               (case get_module_file_name MAX_PATH of
                  Inl err \<Rightarrow> Outcome_error \<lparr>ec_value = err, ec_category = System_category\<rparr>
                | Inr ret \<Rightarrow> Outcome_value ret)
           | Linux_platform \<Rightarrow>
               (case readlink MAXBUFSIZE of
                  Inl err \<Rightarrow> Outcome_error \<lparr>ec_value = err, ec_category = Generic_category\<rparr>
                | Inr ret \<Rightarrow> Outcome_value ret)
           | Other_platform \<Rightarrow> Outcome_error (make_error_code NO_IMPLEMENTED)))"

section \<open>The file system\<close>

record files =
  fs_dirs :: "string list"
  fs_files :: "string \<rightharpoonup> string"

definition make_dir :: "string \<Rightarrow> files \<Rightarrow> files" where
  "make_dir d fs = (if d \<in> set (fs_dirs fs) then fs else fs\<lparr>fs_dirs := d # fs_dirs fs\<rparr>)"

definition write_file :: "string \<Rightarrow> string \<Rightarrow> files \<Rightarrow> files" where
  "write_file p content fs = fs\<lparr>fs_files := (fs_files fs)(p \<mapsto> content)\<rparr>"

definition remove_file :: "string \<Rightarrow> files \<Rightarrow> files" where
  "remove_file p fs = fs\<lparr>fs_files := (fs_files fs)(p := None)\<rparr>"

section \<open>Core files and minidumps\<close>

text \<open>\<open>None\<close> is \<^verbatim>\<open>RLIM_INFINITY\<close>.\<close>

record core_state =
  dumpable :: bool
  rlim_cur :: "nat option"
  rlim_max :: "nat option"

fun limit_le :: "nat option \<Rightarrow> nat option \<Rightarrow> bool" where
  "limit_le a None = True" | "limit_le None (Some b) = False" | "limit_le (Some a) (Some b) = (a \<le> b)"

text \<open>\<open>prctl\<close> is the result of \<^verbatim>\<open>prctl(PR_SET_DUMPABLE, 1)\<close>.  \<open>setrlimit cur hard\<close> is the call of the
  system with the new soft and hard limit; whether it succeeds is not looked at.\<close>

definition PrepareCore ::
    "(nat option \<Rightarrow> nat option \<Rightarrow> core_state \<Rightarrow> bool \<times> core_state) \<Rightarrow> int \<Rightarrow> core_state \<Rightarrow> core_state" where
  "PrepareCore setrlimit prctl cs =
     (if prctl < 0 then cs else snd (setrlimit None None (cs\<lparr>dumpable := True\<rparr>)))"

text \<open>\<^verbatim>\<open>struct tm\<close> as \<^verbatim>\<open>localtime_s\<close> fills it, from the year 1900 on.\<close>

record tm =
  tm_year :: nat
  tm_mon :: nat
  tm_mday :: nat
  tm_hour :: nat
  tm_min :: nat
  tm_sec :: nat

definition backslash :: string where "backslash = [CHR 0x5C]"

definition dmp_dir :: string where "dmp_dir = ''.'' @ backslash @ ''dmp''"
definition dump_dir :: string where "dump_dir = ''.'' @ backslash @ ''dump''"

definition dump_file_name :: "tm \<Rightarrow> string" where
  "dump_file_name t =
     ''.'' @ backslash @ ''dump'' @ backslash @ dec (1900 + tm_year t) @ pad2 (tm_mon t + 1) @ pad2 (tm_mday t) @
     pad2 (tm_hour t) @ pad2 (tm_min t) @ pad2 (tm_sec t) @ ''.dmp''"

text \<open>The result is the return value, the contents of \<open>buf\<close> and the file system; \<open>None\<close> when the text
  does not fit, since \<^verbatim>\<open>sprintf_s\<close> then ends the program (its invalid parameter handler).
  \<open>can_mkdir\<close> is whether \<^verbatim>\<open>_mkdir\<close> succeeds.\<close>

definition GenFilePath :: "bool \<Rightarrow> tm \<Rightarrow> nat \<Rightarrow> files \<Rightarrow> (bool \<times> string \<times> files) option" where
  "GenFilePath can_mkdir local path_len fs =
     (let fs = (if dmp_dir \<notin> set (fs_dirs fs) \<and> can_mkdir then make_dir dmp_dir fs else fs);
          buf = dump_file_name local
      in if path_len \<le> length buf then None
         else if path_len < length buf then Some (False, buf, fs)
         else Some (True, buf, fs))"

definition EXCEPTION_EXECUTE_HANDLER :: int where "EXCEPTION_EXECUTE_HANDLER = 1"

text \<open>\<open>create_file p fs\<close> is whether \<^verbatim>\<open>CreateFileA(p, GENERIC_WRITE, .., CREATE_ALWAYS, ..)\<close> gives a
  handle.\<close>

definition GenDump :: "(string \<Rightarrow> files \<Rightarrow> bool) \<Rightarrow> string \<Rightarrow> string \<Rightarrow> files \<Rightarrow> int \<times> files" where
  "GenDump create_file minidump file_path fs =
     (if create_file file_path fs then (EXCEPTION_EXECUTE_HANDLER, write_file file_path minidump fs)
      else (EXCEPTION_EXECUTE_HANDLER, fs))"

definition SnapshotMem ::
    "(string \<Rightarrow> files \<Rightarrow> bool) \<Rightarrow> string \<Rightarrow> bool \<Rightarrow> tm \<Rightarrow> files \<Rightarrow> files option" where
  "SnapshotMem create_file minidump can_mkdir local fs =
     (case GenFilePath can_mkdir local MAX_PATH fs of
        None \<Rightarrow> None
      | Some (False, file_path, fs) \<Rightarrow> Some fs
      | Some (True, file_path, fs) \<Rightarrow> Some (snd (GenDump create_file minidump file_path fs)))"

definition ExceptionFilter ::
    "(string \<Rightarrow> files \<Rightarrow> bool) \<Rightarrow> string \<Rightarrow> bool \<Rightarrow> tm \<Rightarrow> files \<Rightarrow> (int \<times> files) option" where
  "ExceptionFilter create_file minidump can_mkdir local fs =
     (case GenFilePath can_mkdir local MAX_PATH fs of
        None \<Rightarrow> None
      | Some (False, file_path, fs) \<Rightarrow> Some (EXCEPTION_EXECUTE_HANDLER, fs)
      | Some (True, file_path, fs) \<Rightarrow> Some (GenDump create_file minidump file_path fs))"

section \<open>Where the stack trace goes\<close>

text \<open>\<^verbatim>\<open>std::filesystem::path\<close> in the generic format: the file name is what follows the last slash, the
  parent path what precedes it without trailing slashes, but the root is its own directory.\<close>

definition path_filename :: "string \<Rightarrow> string" where
  "path_filename p = rev (takeWhile (\<lambda>c. c \<noteq> CHR ''/'') (rev p))"

definition path_parent :: "string \<Rightarrow> string" where
  "path_parent p =
     (let d = dropWhile (\<lambda>c. c \<noteq> CHR ''/'') (rev p);
          e = dropWhile (\<lambda>c. c = CHR ''/'') d
      in if d \<noteq> [] \<and> e = [] then ''/'' else rev e)"

definition get_dump_path :: "string outcome \<Rightarrow> string" where
  "get_dump_path current_program_path =
     (case current_program_path of
        Outcome_value p \<Rightarrow> path_parent p @ ''/dump/'' @ path_filename p @ ''.dump''
      | _ \<Rightarrow> ''./dump/default.dump'')"

section \<open>Crashing\<close>

datatype signal = SIGSEGV | SIGABRT
datatype disposition = Sig_dfl | Sig_handler

text \<open>How a process ends: killed by a signal, or by the run-time library, when an exception leaves the
  signal handler or \<^verbatim>\<open>sprintf_s\<close> overflows.\<close>

datatype ending = Killed_by signal | Terminated

text \<open>\<open>pr_active\<close> are the signals whose handlers are running, innermost first; they are blocked.
  \<open>pr_dumps\<close> are the dumps written so far, the last one first.\<close>

record proc =
  pr_disp :: "signal \<Rightarrow> disposition"
  pr_active :: "signal list"
  pr_ended :: "ending option"
  pr_fs :: files
  pr_dumps :: "string list"

text \<open>\<open>ce_frames\<close> is the raw stack trace taken while the given handlers run; \<open>ce_can_mkdir\<close> and
  \<open>ce_can_open\<close> say whether the directory and the dump file can be created.\<close>

record crash_env =
  ce_platform :: platform
  ce_location :: "string outcome"
  ce_can_mkdir :: bool
  ce_can_open :: bool
  ce_create_file :: "string \<Rightarrow> files \<Rightarrow> bool"
  ce_frames :: "signal list \<Rightarrow> string"
  ce_minidump :: string
  ce_local :: tm

text \<open>The body of \<^verbatim>\<open>_signal_handler\<close> between \<^verbatim>\<open>signal\<close> and \<^verbatim>\<open>raise\<close>.\<close>

definition write_dump :: "crash_env \<Rightarrow> proc \<Rightarrow> proc" where
  "write_dump ce p =
     (case ce_platform ce of
        WIN32 \<Rightarrow>
          (case SnapshotMem (ce_create_file ce) (ce_minidump ce) (ce_can_mkdir ce) (ce_local ce) (pr_fs p) of
             None \<Rightarrow> p\<lparr>pr_ended := Some Terminated\<rparr>
           | Some fs \<Rightarrow> p\<lparr>pr_fs := fs\<rparr>)
      | Linux_platform \<Rightarrow>
          (let file_path = get_dump_path (ce_location ce);
               dir = path_parent file_path;
               content = ce_frames ce (pr_active p) in
           if dir \<notin> set (fs_dirs (pr_fs p)) \<and> \<not> ce_can_mkdir ce then p\<lparr>pr_ended := Some Terminated\<rparr>
           else if \<not> ce_can_open ce then p\<lparr>pr_fs := make_dir dir (pr_fs p)\<rparr>
           else p\<lparr>pr_fs := write_file file_path content (make_dir dir (pr_fs p)),
                  pr_dumps := content # pr_dumps p\<rparr>)
      | Other_platform \<Rightarrow> p)"

definition handlers_left :: "proc \<Rightarrow> nat" where
  "handlers_left p = (if pr_disp p SIGSEGV = Sig_handler then 1 else 0) + (if pr_disp p SIGABRT = Sig_handler then 1 else 0)"

lemma write_dump_frame:
  "pr_disp (write_dump ce p) = pr_disp p" "pr_active (write_dump ce p) = pr_active p"
  by (simp_all add: write_dump_def Let_def split: platform.split option.split)

lemma handlers_left_reset:
  "pr_disp p sig = Sig_handler \<Longrightarrow> pr_disp q = (pr_disp p)(sig := Sig_dfl) \<Longrightarrow> handlers_left q < handlers_left p"
  by (cases sig) (auto simp: handlers_left_def)

text \<open>A signal is delivered: the default action kills the process; \<^verbatim>\<open>_signal_handler\<close> restores the
  default action, writes the dump and raises \<^verbatim>\<open>SIGABRT\<close>, which waits for the handler to return
  when it is blocked.\<close>

function deliver :: "crash_env \<Rightarrow> signal \<Rightarrow> proc \<Rightarrow> proc" where
  "deliver ce sig p =
     (if pr_ended p \<noteq> None then p
      else (case pr_disp p sig of
              Sig_dfl \<Rightarrow> p\<lparr>pr_ended := Some (Killed_by sig)\<rparr>
            | Sig_handler \<Rightarrow>
                (let q = write_dump ce (p\<lparr>pr_disp := (pr_disp p)(sig := Sig_dfl), pr_active := sig # pr_active p\<rparr>) in
                 if pr_ended q \<noteq> None then q
                 else if SIGABRT \<in> set (pr_active q) then deliver ce SIGABRT (q\<lparr>pr_active := pr_active p\<rparr>)
                 else deliver ce SIGABRT q)))"
  by pat_completeness auto
termination
  by (relation "measure (\<lambda>(ce, sig, p). handlers_left p)")
    (auto intro!: handlers_left_reset simp: write_dump_frame)

declare deliver.simps [simp del]

text \<open>The constructor of \<^verbatim>\<open>StacktraceDumper\<close>.\<close>

definition install_handlers :: "proc \<Rightarrow> proc" where
  "install_handlers p = p\<lparr>pr_disp := (pr_disp p)(SIGSEGV := Sig_handler, SIGABRT := Sig_handler)\<rparr>"

text \<open>\<open>show_trace\<close> prints a raw stack trace (\<^verbatim>\<open>stacktrace::from_dump\<close>); \<open>exists_fails\<close> and \<open>remove_fails\<close> are the
  exceptions that \<^verbatim>\<open>exists\<close> and \<^verbatim>\<open>remove\<close> raise, if they do.  The result is the exception that leaves the
  function, what it has logged, and the file system.\<close>

definition show_last_dump ::
    "(string \<Rightarrow> string) \<Rightarrow> string outcome \<Rightarrow> exn option \<Rightarrow> exn option \<Rightarrow> files \<Rightarrow> exn option \<times> log_line list \<times> files" where
  "show_last_dump show_trace location exists_fails remove_fails fs =
     (let filename = get_dump_path location in
      case exists_fails of
        Some x \<Rightarrow> (Some x, [], fs)
      | None \<Rightarrow>
          (case fs_files fs filename of
             None \<Rightarrow> (None, [], fs)
           | Some content \<Rightarrow>
               (let ls = [SPDLOG_ERROR (''last dump detect:'' @ newline @ show_trace content)] in
                case remove_fails of
                  Some x \<Rightarrow> (Some x, ls, fs)
                | None \<Rightarrow> (None, ls, remove_file filename fs))))"

section \<open>Lemmas\<close>

lemma last_segment:
  assumes "CHR ''/'' \<notin> set name"
  shows "takeWhile (\<lambda>c. c \<noteq> CHR ''/'') (rev (dir @ ''/'' @ name)) = rev name"
    and "dropWhile (\<lambda>c. c \<noteq> CHR ''/'') (rev (dir @ ''/'' @ name)) = CHR ''/'' # rev dir"
proof -
  have "\<forall>c \<in> set (rev name). c \<noteq> CHR ''/''" using assms by auto
  then show "takeWhile (\<lambda>c. c \<noteq> CHR ''/'') (rev (dir @ ''/'' @ name)) = rev name"
    "dropWhile (\<lambda>c. c \<noteq> CHR ''/'') (rev (dir @ ''/'' @ name)) = CHR ''/'' # rev dir"
    by (simp_all add: takeWhile_append dropWhile_append)
qed

lemma path_split:
  assumes "CHR ''/'' \<notin> set name" and "dir \<noteq> []" and "last dir \<noteq> CHR ''/''"
  shows "path_filename (dir @ ''/'' @ name) = name" and "path_parent (dir @ ''/'' @ name) = dir"
proof -
  obtain ds d where d: "dir = ds @ [d]" "d \<noteq> CHR ''/''" using assms(2,3) by (cases dir rule: rev_cases) auto
  show "path_filename (dir @ ''/'' @ name) = name"
    unfolding path_filename_def last_segment(1) [OF assms(1)] by simp
  show "path_parent (dir @ ''/'' @ name) = dir"
    unfolding path_parent_def last_segment(2) [OF assms(1)] using d by (simp add: Let_def)
qed

text \<open>The state after a handler has written its dump.\<close>

lemma deliver_handler:
  assumes "pr_ended p = None" and "pr_disp p sig = Sig_handler" and "ce_platform ce = Linux_platform" and "ce_can_open ce"
    and "path_parent (get_dump_path (ce_location ce)) \<in> set (fs_dirs (pr_fs p)) \<or> ce_can_mkdir ce"
  shows "deliver ce sig p = (let content = ce_frames ce (sig # pr_active p);
      q = p\<lparr>pr_disp := (pr_disp p)(sig := Sig_dfl), pr_active := sig # pr_active p,
            pr_fs := write_file (get_dump_path (ce_location ce)) content
              (make_dir (path_parent (get_dump_path (ce_location ce))) (pr_fs p)),
            pr_dumps := content # pr_dumps p\<rparr>
    in if SIGABRT \<in> set (sig # pr_active p) then deliver ce SIGABRT (q\<lparr>pr_active := pr_active p\<rparr>)
       else deliver ce SIGABRT q)"
  using assms by (auto simp: deliver.simps [of ce sig p] write_dump_def Let_def)

lemma deliver_default: "pr_ended p = None \<Longrightarrow> pr_disp p sig = Sig_dfl \<Longrightarrow>
    deliver ce sig p = p\<lparr>pr_ended := Some (Killed_by sig)\<rparr>"
  by (simp add: deliver.simps [of ce sig p])

lemma make_dir_mem [simp]: "d \<in> set (fs_dirs (write_file p c (make_dir d fs)))"
  by (simp add: write_file_def make_dir_def)

lemma deliver_abort:
  assumes "pr_ended p = None" and "pr_disp p SIGABRT = Sig_handler" and "ce_platform ce = Linux_platform" and "ce_can_open ce"
    and "path_parent (get_dump_path (ce_location ce)) \<in> set (fs_dirs (pr_fs p)) \<or> ce_can_mkdir ce"
  shows "pr_ended (deliver ce SIGABRT p) = Some (Killed_by SIGABRT) \<and>
    pr_dumps (deliver ce SIGABRT p) = ce_frames ce (SIGABRT # pr_active p) # pr_dumps p \<and>
    fs_files (pr_fs (deliver ce SIGABRT p)) (get_dump_path (ce_location ce)) = Some (ce_frames ce (SIGABRT # pr_active p))"
  using assms by (simp add: deliver_handler Let_def deliver_default write_file_def)

lemma deliver_segv:
  assumes "pr_ended p = None" and "pr_disp p SIGSEGV = Sig_handler" and "pr_disp p SIGABRT = Sig_handler"
    and "pr_active p = []" and "ce_platform ce = Linux_platform" and "ce_can_open ce"
    and "path_parent (get_dump_path (ce_location ce)) \<in> set (fs_dirs (pr_fs p)) \<or> ce_can_mkdir ce"
  shows "pr_ended (deliver ce SIGSEGV p) = Some (Killed_by SIGABRT) \<and>
    pr_dumps (deliver ce SIGSEGV p) = [ce_frames ce [SIGABRT, SIGSEGV], ce_frames ce [SIGSEGV]] @ pr_dumps p \<and>
    fs_files (pr_fs (deliver ce SIGSEGV p)) (get_dump_path (ce_location ce)) = Some (ce_frames ce [SIGABRT, SIGSEGV])"
proof -
  let ?q = "p\<lparr>pr_disp := (pr_disp p)(SIGSEGV := Sig_dfl), pr_active := [SIGSEGV],
    pr_fs := write_file (get_dump_path (ce_location ce)) (ce_frames ce [SIGSEGV])
      (make_dir (path_parent (get_dump_path (ce_location ce))) (pr_fs p)),
    pr_dumps := ce_frames ce [SIGSEGV] # pr_dumps p\<rparr>"
  have "deliver ce SIGSEGV p = deliver ce SIGABRT ?q"
    using deliver_handler [OF assms(1,2,5,6,7)] assms(4) by (simp add: Let_def)
  moreover have "path_parent (get_dump_path (ce_location ce)) \<in> set (fs_dirs (pr_fs ?q)) \<or> ce_can_mkdir ce" by simp
  ultimately show ?thesis using deliver_abort [of ?q ce] assms by simp
qed


lemma deliver_ends: "pr_ended (deliver ce sig p) \<noteq> None"
proof (induction ce sig p rule: deliver.induct)
  case (1 ce sig p)
  then show ?case
    by (subst deliver.simps) (auto simp: Let_def split: disposition.split)
qed

text \<open>Only the dump file changes.\<close>

lemma write_dump_files:
  "ce_platform ce = Linux_platform \<Longrightarrow> f \<noteq> get_dump_path (ce_location ce) \<Longrightarrow>
   fs_files (pr_fs (write_dump ce p)) f = fs_files (pr_fs p) f"
  by (simp add: write_dump_def Let_def write_file_def make_dir_def)

lemma deliver_files:
  assumes "ce_platform ce = Linux_platform" and "f \<noteq> get_dump_path (ce_location ce)"
  shows "fs_files (pr_fs (deliver ce sig p)) f = fs_files (pr_fs p) f"
  using assms
proof (induction ce sig p rule: deliver.induct)
  case (1 ce sig p)
  then show ?case
    by (subst deliver.simps) (auto simp: Let_def write_dump_files split: disposition.split)
qed

text \<open>The time stamp of a dump has a fixed width after the year.\<close>

definition valid_tm :: "tm \<Rightarrow> bool" where
  "valid_tm t \<longleftrightarrow> tm_mon t < 12 \<and> tm_mday t \<le> 31 \<and> tm_hour t < 24 \<and> tm_min t < 60 \<and> tm_sec t \<le> 60 \<and>
     1900 + tm_year t < 2 ^ 31"

lemma valid_tm_width:
  assumes "valid_tm t"
  shows "length (pad2 (Suc (tm_mon t))) = 2" "length (pad2 (tm_mday t)) = 2" "length (pad2 (tm_hour t)) = 2"
    "length (pad2 (tm_min t)) = 2" "length (pad2 (tm_sec t)) = 2" "length (dec (1900 + tm_year t)) \<le> 10"
  using assms length_dec [of "1900 + tm_year t" 10] by (auto simp: valid_tm_def intro!: length_pad2)

lemma append_fixed_right: "length b = length d \<Longrightarrow> a @ b = c @ d \<longleftrightarrow> a = c \<and> b = d"
  by simp

lemma append_fixed_left: "length a = length c \<Longrightarrow> a @ b = c @ d \<longleftrightarrow> a = c \<and> b = d"
  by simp

lemma dump_file_name_inj:
  assumes "valid_tm t" and "valid_tm u"
  shows "dump_file_name t = dump_file_name u \<longleftrightarrow> t = u"
proof -
  note w = valid_tm_width [OF assms(1)] valid_tm_width [OF assms(2)]
  have "dump_file_name t = dump_file_name u \<longleftrightarrow> tm_year t = tm_year u \<and> tm_mon t = tm_mon u \<and>
      tm_mday t = tm_mday u \<and> tm_hour t = tm_hour u \<and> tm_min t = tm_min u \<and> tm_sec t = tm_sec u"
    by (simp add: dump_file_name_def append_fixed_right append_fixed_left w dec_inj pad2_inj)
  then show ?thesis by (cases t; cases u) auto
qed

lemma dump_file_name_length:
  assumes "valid_tm t" shows "length (dump_file_name t) \<le> 31"
  using valid_tm_width [OF assms] by (simp add: dump_file_name_def backslash_def)

text \<open>The directory of a path of Windows: what precedes the last backslash.\<close>

definition dir_of :: "string \<Rightarrow> string" where
  "dir_of p = rev (drop 1 (dropWhile (\<lambda>c. c \<noteq> CHR 0x5C) (rev p)))"

lemma dir_of_path:
  assumes "CHR 0x5C \<notin> set name"
  shows "dir_of (dir @ backslash @ name) = dir"
proof -
  have "\<forall>c \<in> set (rev name). c \<noteq> CHR 0x5C" using assms by auto
  then show ?thesis by (simp add: dir_of_def backslash_def dropWhile_append)
qed

definition stamp :: "tm \<Rightarrow> string" where
  "stamp t = dec (1900 + tm_year t) @ pad2 (tm_mon t + 1) @ pad2 (tm_mday t) @
     pad2 (tm_hour t) @ pad2 (tm_min t) @ pad2 (tm_sec t) @ ''.dmp''"

lemma stamp_no_backslash: "CHR 0x5C \<notin> set (stamp t)"
proof -
  have "of_char (CHR 0x5C) = (92 :: nat)" by code_simp
  then have "CHR 0x5C \<notin> set (dec n)" "CHR 0x5C \<notin> set (pad2 n)" for n
    using dec_codes [of "CHR 0x5C"] pad2_codes [of "CHR 0x5C"] by fastforce+
  then show ?thesis by (simp add: stamp_def)
qed

lemma dump_file_name_stamp: "dump_file_name t = dump_dir @ backslash @ stamp t"
  by (simp add: dump_file_name_def dump_dir_def stamp_def)

lemma dir_of_dump: "dir_of (dump_file_name t) = dump_dir"
  unfolding dump_file_name_stamp by (rule dir_of_path) (rule stamp_no_backslash)

lemma make_dmp_dir: "dump_dir \<notin> set (fs_dirs fs) \<Longrightarrow> dump_dir \<notin> set (fs_dirs (make_dir dmp_dir fs))"
  by (auto simp: make_dir_def dump_dir_def dmp_dir_def)


text \<open>The end of a crashing process.\<close>

lemma crash_result:
  assumes "pr_ended p = None" and "pr_active p = []" and "ce_platform ce = Linux_platform" and "ce_can_open ce"
    and "path_parent (get_dump_path (ce_location ce)) \<in> set (fs_dirs (pr_fs p)) \<or> ce_can_mkdir ce"
  shows "let q = deliver ce sig (install_handlers p);
             nested = (if sig = SIGSEGV then [SIGABRT, SIGSEGV] else [SIGABRT]) in
    pr_ended q = Some (Killed_by SIGABRT) \<and>
    pr_dumps q = (if sig = SIGSEGV then [ce_frames ce [SIGABRT, SIGSEGV], ce_frames ce [SIGSEGV]]
                  else [ce_frames ce [SIGABRT]]) @ pr_dumps p \<and>
    fs_files (pr_fs q) = (fs_files (pr_fs p))(get_dump_path (ce_location ce) \<mapsto> ce_frames ce nested)"
proof -
  let ?f = "get_dump_path (ce_location ce)" and ?q = "deliver ce sig (install_handlers p)"
  have other: "fs_files (pr_fs ?q) f = fs_files (pr_fs p) f" if "f \<noteq> ?f" for f
    using deliver_files [OF assms(3) that] by (simp add: install_handlers_def)
  have "pr_ended ?q = Some (Killed_by SIGABRT) \<and>
    pr_dumps ?q = (if sig = SIGSEGV then [ce_frames ce [SIGABRT, SIGSEGV], ce_frames ce [SIGSEGV]]
                  else [ce_frames ce [SIGABRT]]) @ pr_dumps p \<and>
    fs_files (pr_fs ?q) ?f = Some (ce_frames ce (if sig = SIGSEGV then [SIGABRT, SIGSEGV] else [SIGABRT]))"
    using deliver_segv [of "install_handlers p" ce] deliver_abort [of "install_handlers p" ce] assms
    by (cases sig) (simp_all add: install_handlers_def)
  with other show ?thesis by (auto simp: Let_def fun_eq_iff)
qed

section \<open>Properties\<close>

text \<open>C14: whatever the signal dispositions and whatever fails on the way, a delivered signal ends the
  process: the handler restores the default action before it raises \<^verbatim>\<open>SIGABRT\<close>, so the handlers
  cannot call each other for ever.\<close>

theorem signal_ends_process:
  "\<exists>how. pr_ended (deliver ce sig (install_handlers p)) = Some how"
  using deliver_ends by simp

text \<open>C8: on Linux, when the dump directory and the dump file can be created, a program with
  the handlers installed that receives \<^verbatim>\<open>SIGSEGV\<close> or \<^verbatim>\<open>SIGABRT\<close> is killed by \<^verbatim>\<open>SIGABRT\<close> and leaves in the
  dump file the stack trace of the last handler that ran; a \<^verbatim>\<open>SIGSEGV\<close> dumps twice, and the second dump,
  taken inside the nested handler, replaces the first; no other file changes.\<close>

theorem crash_leaves_dump:
  assumes "pr_ended p = None" and "pr_active p = []" and "ce_platform ce = Linux_platform" and "ce_can_open ce"
    and "path_parent (get_dump_path (ce_location ce)) \<in> set (fs_dirs (pr_fs p)) \<or> ce_can_mkdir ce"
  shows "let q = deliver ce sig (install_handlers p);
             nested = (if sig = SIGSEGV then [SIGABRT, SIGSEGV] else [SIGABRT]) in
    pr_ended q = Some (Killed_by SIGABRT) \<and>
    pr_dumps q = (if sig = SIGSEGV then [ce_frames ce [SIGABRT, SIGSEGV], ce_frames ce [SIGSEGV]]
                  else [ce_frames ce [SIGABRT]]) @ pr_dumps p \<and>
    fs_files (pr_fs q) = (fs_files (pr_fs p))(get_dump_path (ce_location ce) \<mapsto> ce_frames ce nested)"
  using assms by (rule crash_result)

definition sample_env :: crash_env where
  "sample_env = \<lparr>ce_platform = Linux_platform, ce_location = Outcome_value ''/opt/bin/prj'', ce_can_mkdir = True,
     ce_can_open = True, ce_create_file = (\<lambda>p fs. dir_of p \<in> set (fs_dirs fs)),
     ce_frames = (\<lambda>act. ''frames'' @ concat (map (\<lambda>s. case s of SIGSEGV \<Rightarrow> ''S'' | SIGABRT \<Rightarrow> ''A'') act)),
     ce_minidump = ''mdmp'',
     ce_local = \<lparr>tm_year = 124, tm_mon = 0, tm_mday = 31, tm_hour = 23, tm_min = 5, tm_sec = 9\<rparr>\<rparr>"

definition sample_proc :: proc where
  "sample_proc = \<lparr>pr_disp = (\<lambda>s. Sig_dfl), pr_active = [], pr_ended = None,
     pr_fs = \<lparr>fs_dirs = [], fs_files = (\<lambda>f. None)\<rparr>, pr_dumps = []\<rparr>"

lemma crash_leaves_dump_witness:
  "pr_dumps (deliver sample_env SIGSEGV (install_handlers sample_proc)) = [''framesAS'', ''framesS'']"
  using crash_leaves_dump [of sample_proc sample_env SIGSEGV]
  by (simp add: Let_def sample_proc_def sample_env_def)

text \<open>The next run of the crashed program logs the trace that the crash left, once, and removes the
  file: a further look finds nothing, and every other file is as before the crash.\<close>

theorem crash_reported_by_next_run:
  assumes "pr_ended p = None" and "pr_active p = []" and "ce_platform ce = Linux_platform" and "ce_can_open ce"
    and "path_parent (get_dump_path (ce_location ce)) \<in> set (fs_dirs (pr_fs p)) \<or> ce_can_mkdir ce"
  shows "let nested = (if sig = SIGSEGV then [SIGABRT, SIGSEGV] else [SIGABRT]);
             (r, lines, fs) = show_last_dump show_trace (ce_location ce) None None (pr_fs (deliver ce sig (install_handlers p))) in
    r = None \<and> lines = [SPDLOG_ERROR (''last dump detect:'' @ newline @ show_trace (ce_frames ce nested))] \<and>
    fs_files fs = (fs_files (pr_fs p))(get_dump_path (ce_location ce) := None) \<and>
    show_last_dump show_trace (ce_location ce) None None fs = (None, [], fs)"
  using crash_result [OF assms, of sig] by (auto simp: show_last_dump_def Let_def remove_file_def fun_eq_iff)

lemma crash_reported_by_next_run_witness:
  "fst (snd (show_last_dump (\<lambda>s. s) (ce_location sample_env) None None (pr_fs (deliver sample_env SIGABRT (install_handlers sample_proc)))))
     = [(Level_err, ''last dump detect:'' @ newline @ ''framesA'')]"
  using crash_reported_by_next_run [of sample_proc sample_env SIGABRT "\<lambda>s. s"]
  by (simp add: Let_def sample_proc_def sample_env_def split: prod.splits)

text \<open>The dump of the program at \<open>dir/name\<close> is \<open>dir/dump/name.dump\<close>, in the directory that the
  handler creates, and different programs have different dumps.\<close>

theorem dump_path_of_program:
  assumes "CHR ''/'' \<notin> set name" and "dir \<noteq> []" and "last dir \<noteq> CHR ''/''"
    and "CHR ''/'' \<notin> set name2" and "dir2 \<noteq> []" and "last dir2 \<noteq> CHR ''/''"
  shows "get_dump_path (Outcome_value (dir @ ''/'' @ name)) = dir @ ''/dump/'' @ name @ ''.dump'' \<and>
    path_parent (get_dump_path (Outcome_value (dir @ ''/'' @ name))) = dir @ ''/dump'' \<and>
    (get_dump_path (Outcome_value (dir @ ''/'' @ name)) = get_dump_path (Outcome_value (dir2 @ ''/'' @ name2))
       \<longleftrightarrow> dir = dir2 \<and> name = name2)"
proof -
  have path: "get_dump_path (Outcome_value (d @ ''/'' @ n)) = (d @ ''/dump'') @ ''/'' @ (n @ ''.dump'')"
    if "CHR ''/'' \<notin> set n" "d \<noteq> []" "last d \<noteq> CHR ''/''" for d n
    using path_split [OF that] by (simp add: get_dump_path_def)
  have split: "path_filename ((d @ ''/dump'') @ ''/'' @ (n @ ''.dump'')) = n @ ''.dump''"
      "path_parent ((d @ ''/dump'') @ ''/'' @ (n @ ''.dump'')) = d @ ''/dump''"
    if "CHR ''/'' \<notin> set n" for d n
    using path_split [of "n @ ''.dump''" "d @ ''/dump''"] that by simp_all
  have "dir = dir2 \<and> name = name2"
    if "(dir @ ''/dump'') @ ''/'' @ (name @ ''.dump'') = (dir2 @ ''/dump'') @ ''/'' @ (name2 @ ''.dump'')"
    using split [OF assms(1), of dir] split [OF assms(4), of dir2] unfolding that by simp
  then show ?thesis
    unfolding path [OF assms(1-3)] path [OF assms(4-6)] using split(2) [OF assms(1), of dir] by auto
qed

lemma dump_path_of_program_witness:
  "get_dump_path (Outcome_value ''/opt/bin/prj'') = ''/opt/bin/dump/prj.dump''"
  using dump_path_of_program [of "''prj''" "''/opt/bin''" "''prj''" "''/opt/bin''"]
  by simp

text \<open>On Linux the location of the program is exact up to 1024 characters; a longer one is silently
  cut off, and the outcome is a value all the same.\<close>

theorem program_location_truncates:
  assumes "\<And>n. readlink n = Inr (take n target)"
  shows "program_location Linux_platform get_module_file_name readlink None = Outcome_value (take 1024 target) \<and>
    (program_location Linux_platform get_module_file_name readlink None = Outcome_value target \<longleftrightarrow> length target \<le> 1024)"
  using assms by (auto simp: program_location_def MAXBUFSIZE_def dest: arg_cong [of _ _ length])

lemma program_location_truncates_witness:
  "program_location Linux_platform (\<lambda>n. Inl 0) (\<lambda>n. Inr (take n (replicate 1025 CHR ''a''))) None
     \<noteq> Outcome_value (replicate 1025 CHR ''a'')"
  using program_location_truncates [of "\<lambda>n. Inr (take n (replicate 1025 CHR ''a''))" "replicate 1025 CHR ''a''" "\<lambda>n. Inl 0"]
  by simp

text \<open>C26: programs whose paths agree in their first 1024 characters take each other for themselves: what one of
  them leaves when it crashes is logged, and removed, by the next run of the other.\<close>

theorem long_paths_share_dump:
  assumes "\<And>n. readlink1 n = Inr (take n path1)" and "\<And>n. readlink2 n = Inr (take n path2)"
    and "take 1024 path1 = take 1024 path2"
    and "pr_ended p = None" and "pr_active p = []" and "ce_platform ce = Linux_platform" and "ce_can_open ce"
    and "ce_location ce = program_location Linux_platform gm readlink1 None"
    and "path_parent (get_dump_path (ce_location ce)) \<in> set (fs_dirs (pr_fs p)) \<or> ce_can_mkdir ce"
  shows "let nested = (if sig = SIGSEGV then [SIGABRT, SIGSEGV] else [SIGABRT]);
             (r, lines, fs) = show_last_dump show_trace (program_location Linux_platform gm readlink2 None) None None
               (pr_fs (deliver ce sig (install_handlers p))) in
    r = None \<and> lines = [SPDLOG_ERROR (''last dump detect:'' @ newline @ show_trace (ce_frames ce nested))] \<and>
    fs_files fs (get_dump_path (ce_location ce)) = None"
proof -
  have same: "program_location Linux_platform gm readlink2 None = ce_location ce"
    using assms(1-3,8) by (simp add: program_location_def MAXBUFSIZE_def)
  show ?thesis unfolding same
    using crash_result [OF assms(4-7,9), of sig] by (auto simp: show_last_dump_def Let_def remove_file_def)
qed

lemma long_paths_share_dump_witness:
  "let dir = ''/'' @ replicate 1023 CHR ''d'';
       here = (\<lambda>n. Inr (take n (dir @ ''/one''))); there = (\<lambda>n. Inr (take n (dir @ ''/two'')));
       ce = sample_env\<lparr>ce_location := program_location Linux_platform (\<lambda>n. Inl 0) here None\<rparr> in
   fst (snd (show_last_dump (\<lambda>s. s) (program_location Linux_platform (\<lambda>n. Inl 0) there None) None None
     (pr_fs (deliver ce SIGABRT (install_handlers sample_proc)))))
     = [(Level_err, ''last dump detect:'' @ newline @ ''framesA'')]"
proof -
  let ?dir = "''/'' @ replicate 1023 CHR ''d''"
  let ?here = "\<lambda>n. Inr (take n (?dir @ ''/one''))" and ?there = "\<lambda>n. Inr (take n (?dir @ ''/two''))"
  let ?ce = "sample_env\<lparr>ce_location := program_location Linux_platform (\<lambda>n. Inl 0) ?here None\<rparr>"
  have len: "length ?dir = 1024" by simp
  have "take 1024 (?dir @ ''/one'') = take 1024 (?dir @ ''/two'')" unfolding take_append len by simp
  then show ?thesis
    using long_paths_share_dump [of ?here "?dir @ ''/one''" ?there "?dir @ ''/two''" sample_proc ?ce "\<lambda>n. Inl 0" SIGABRT "\<lambda>s. s"]
    unfolding Let_def
    by (simp add: sample_proc_def sample_env_def del: take_append split: prod.splits)
qed

text \<open>\<open>GenFilePath\<close> never reports that the buffer is too short: either the name fits with its
  terminator, or \<^verbatim>\<open>sprintf_s\<close> ends the program before the length is looked at; with the buffer that the
  callers pass a name always fits.\<close>

theorem gen_file_path_fits:
  assumes "valid_tm local"
  shows "(case GenFilePath can_mkdir local path_len fs of
            None \<Rightarrow> path_len \<le> length (dump_file_name local)
          | Some (ok, buf, fs') \<Rightarrow> ok \<and> buf = dump_file_name local \<and> length buf < path_len \<and> fs_files fs' = fs_files fs) \<and>
    GenFilePath can_mkdir local MAX_PATH fs \<noteq> None"
  using dump_file_name_length [OF assms]
  by (auto simp: GenFilePath_def Let_def make_dir_def MAX_PATH_def split: option.split)

lemma gen_file_path_fits_witness:
  "GenFilePath True (ce_local sample_env) MAX_PATH (pr_fs sample_proc) \<noteq> None"
  using gen_file_path_fits [where local = "ce_local sample_env" and can_mkdir = True and path_len = MAX_PATH
      and fs = "pr_fs sample_proc"]
  by (simp add: sample_env_def valid_tm_def)

text \<open>Dumps taken at different seconds have different names.\<close>

theorem dump_names_distinct:
  assumes "valid_tm t" and "valid_tm u"
  shows "dump_file_name t = dump_file_name u \<longleftrightarrow> t = u"
  using assms by (rule dump_file_name_inj)

lemma dump_names_distinct_witness:
  "dump_file_name (ce_local sample_env) \<noteq> dump_file_name ((ce_local sample_env)\<lparr>tm_sec := 60\<rparr>)"
  using dump_names_distinct [of "ce_local sample_env" "(ce_local sample_env)\<lparr>tm_sec := 60\<rparr>"]
  by (simp add: sample_env_def valid_tm_def)

text \<open>C25: the directory that \<open>GenFilePath\<close> creates is not the one it names: on Windows a program that
  crashes where there is no directory \<^verbatim>\<open>dump\<close> leaves no minidump, and neither do later crashes.\<close>

theorem windows_dump_lost:
  assumes "\<And>p fs. create_file p fs \<Longrightarrow> dir_of p \<in> set (fs_dirs fs)"
    and "valid_tm local" and "dump_dir \<notin> set (fs_dirs fs)"
  shows "\<exists>fs'. SnapshotMem create_file minidump can_mkdir local fs = Some fs' \<and> fs_files fs' = fs_files fs \<and>
    dump_dir \<notin> set (fs_dirs fs') \<and>
    ExceptionFilter create_file minidump can_mkdir local fs = Some (EXCEPTION_EXECUTE_HANDLER, fs')"
proof -
  have "\<not> create_file (dump_file_name local) fs0" if "dump_dir \<notin> set (fs_dirs fs0)" for fs0
    using assms(1) dir_of_dump that by metis
  moreover have "length (dump_file_name local) < MAX_PATH"
    using dump_file_name_length [OF assms(2)] by (simp add: MAX_PATH_def)
  ultimately show ?thesis
    using assms(3) make_dmp_dir [OF assms(3)]
    by (auto simp: SnapshotMem_def ExceptionFilter_def GenFilePath_def GenDump_def Let_def make_dir_def)
qed

lemma windows_dump_lost_witness:
  "map_option fs_files (SnapshotMem (ce_create_file sample_env) ''mdmp'' True (ce_local sample_env) (pr_fs sample_proc))
     = Some (\<lambda>f. None)"
  using windows_dump_lost [of "ce_create_file sample_env" "ce_local sample_env" "pr_fs sample_proc" "''mdmp''" True]
  by (auto simp: sample_env_def sample_proc_def valid_tm_def)

text \<open>C27: core files are enabled only where the hard limit is already unlimited or the process may raise
  it: otherwise \<^verbatim>\<open>setrlimit\<close> refuses, its answer is ignored, and the limits stay as they were, although
  the soft limit could have been raised to the hard one.\<close>

theorem prepare_core_unprivileged:
  assumes "\<And>cur hard cs. setrlimit cur hard cs =
      (if limit_le cur hard \<and> limit_le hard (rlim_max cs) then (True, cs\<lparr>rlim_cur := cur, rlim_max := hard\<rparr>) else (False, cs))"
    and "0 \<le> prctl"
  shows "rlim_cur (PrepareCore setrlimit prctl cs) = (if rlim_max cs = None then None else rlim_cur cs) \<and>
    rlim_max (PrepareCore setrlimit prctl cs) = rlim_max cs \<and>
    (rlim_max cs = Some m \<longrightarrow> setrlimit (Some m) (Some m) cs = (True, cs\<lparr>rlim_cur := Some m\<rparr>))"
  using assms(2) unfolding PrepareCore_def assms(1) by (cases "rlim_max cs") auto

lemma prepare_core_unprivileged_witness:
  "rlim_cur (PrepareCore (\<lambda>cur hard cs. if limit_le cur hard \<and> limit_le hard (rlim_max cs)
       then (True, cs\<lparr>rlim_cur := cur, rlim_max := hard\<rparr>) else (False, cs)) 0
     \<lparr>dumpable = False, rlim_cur = Some 0, rlim_max = Some 4096\<rparr>) = Some 0"
  using prepare_core_unprivileged [of "\<lambda>cur hard cs. if limit_le cur hard \<and> limit_le hard (rlim_max cs)
       then (True, cs\<lparr>rlim_cur := cur, rlim_max := hard\<rparr>) else (False, cs)" 0
     "\<lparr>dumpable = False, rlim_cur = Some 0, rlim_max = Some 4096\<rparr>"]
  by simp

end
