(* ===== verification/Prj_main.thy ===== *)
theory Prj_main
  imports Util_platform
begin

text \<open>
  \<^verbatim>\<open>prj_exec1/src/main.cpp\<close> and \<^verbatim>\<open>prj_exec1/src/app.cpp\<close>: the program that puts the parts of \<^verbatim>\<open>util\<close>
  together.
\<close>

section \<open>The application\<close>

text \<open>\<open>App::run\<close>: what it logs.\<close>

definition App_run :: "log_line list" where
  "App_run = [SPDLOG_INFO ''Hello, sdplog.INFO'']"

section \<open>The last resort\<close>

text \<open>\<open>current\<close> is \<^verbatim>\<open>std::current_exception()\<close>, \<open>trace\<close> the current stack trace; the result is what is logged and
  the exit code of the process.\<close>

definition terminate_handle :: "exn option \<Rightarrow> string \<Rightarrow> log_line list \<times> int" where
  "terminate_handle current trace =
     (let ls = [SPDLOG_ERROR (''Catch unhandle exception, trace: '' @ newline @ '' '' @ trace)] in
      (case current of
         Some (Std_exception what tr) \<Rightarrow> ls @ [SPDLOG_ERROR (''Exception: '' @ what)]
       | Some Other_exception \<Rightarrow> ls @ [SPDLOG_ERROR ''Unkonown exception, exiting ...'']
       | None \<Rightarrow> ls @ [SPDLOG_ERROR ''Exiting without exception ...''], EXIT_FAILURE))"

section \<open>The program\<close>

text \<open>The process that \<open>main\<close> prepares, with what is left for it to report.\<close>

record program =
  pg_terminate_set :: bool
  pg_filter_set :: bool
  pg_sigpipe_ignored :: bool
  pg_core :: core_state
  pg_log :: logging
  pg_proc :: proc
  pg_lines :: "log_line list"

text \<open>What the system and the libraries answer: \<open>me_unix\<close> is whether \<^verbatim>\<open>unix\<close> is defined.\<close>

record main_env =
  me_platform :: platform
  me_unix :: bool
  me_setrlimit :: "nat option \<Rightarrow> nat option \<Rightarrow> core_state \<Rightarrow> bool \<times> core_state"
  me_prctl :: int
  me_open_file :: "string \<Rightarrow> exn option"
  me_location :: "string outcome"
  me_exists_fails :: "exn option"
  me_remove_fails :: "exn option"
  me_show_trace :: "string \<Rightarrow> string"
  me_from_current :: string

definition main_setup :: "main_env \<Rightarrow> program \<Rightarrow> program" where
  "main_setup me pg =
     (let pg = pg\<lparr>pg_terminate_set := True\<rparr>;
          pg = (case me_platform me of
                  WIN32 \<Rightarrow> pg\<lparr>pg_filter_set := True\<rparr>
                | Linux_platform \<Rightarrow> pg\<lparr>pg_core := PrepareCore (me_setrlimit me) (me_prctl me) (pg_core pg)\<rparr>
                | Other_platform \<Rightarrow> pg)
      in (if me_unix me then pg\<lparr>pg_sigpipe_ignored := True\<rparr> else pg))"

text \<open>The \<^verbatim>\<open>try\<close> block; the first element of the result is the exception that leaves it.\<close>

definition main_body :: "main_env \<Rightarrow> program \<Rightarrow> exn option \<times> program" where
  "main_body me pg =
     (case init_log (me_open_file me) Level_info False True default_log_path (pg_log pg) of
        (Some x, lg) \<Rightarrow> (Some x, pg\<lparr>pg_log := lg\<rparr>)
      | (None, lg) \<Rightarrow>
          (let pg = pg\<lparr>pg_log := lg, pg_proc := install_handlers (pg_proc pg)\<rparr> in
           case show_last_dump (me_show_trace me) (me_location me) (me_exists_fails me) (me_remove_fails me)
                  (pr_fs (pg_proc pg)) of
             (r, ls, fs) \<Rightarrow>
               (let pg = pg\<lparr>pg_proc := (pg_proc pg)\<lparr>pr_fs := fs\<rparr>, pg_lines := pg_lines pg @ ls\<rparr> in
                case r of
                  Some x \<Rightarrow> (Some x, pg)
                | None \<Rightarrow> (None, pg\<lparr>pg_lines := pg_lines pg @ [SPDLOG_INFO ''Hello, spdlog''] @ App_run\<rparr>))))"

definition prj_main :: "main_env \<Rightarrow> program \<Rightarrow> int \<times> program" where
  "prj_main me pg =
     (case main_body me (main_setup me pg) of
        (Some x, pg) \<Rightarrow> (0, pg\<lparr>pg_lines := pg_lines pg @ [main_catch (me_from_current me) x]\<rparr>)
      | (None, pg) \<Rightarrow> (0, pg))"

section \<open>Lemmas\<close>

lemma main_setup_frame [simp]:
  "pg_log (main_setup me pg) = pg_log pg" "pg_proc (main_setup me pg) = pg_proc pg" "pg_lines (main_setup me pg) = pg_lines pg"
  by (simp_all add: main_setup_def Let_def split: platform.split)

lemma main_setup_terminate [simp]: "pg_terminate_set (main_setup me pg)"
  by (simp add: main_setup_def Let_def split: platform.split)

section \<open>Properties\<close>

text \<open>\<open>main\<close> returns 0 whatever happens: an exception is logged and swallowed, so that the caller of the program
  cannot tell a failed run from a good one; only \<open>terminate_handle\<close>, which is in place from the start, gives
  another exit code.  When the log file cannot be opened, that one exception is all that is logged and
  the crash handlers are not installed; otherwise they are, whatever fails after that.\<close>

theorem main_exit_code:
  "fst (prj_main me pg) = 0 \<and> snd (terminate_handle current trace) = 1 \<and>
   pg_terminate_set (snd (prj_main me pg)) \<and>
   (\<exists>x. me_open_file me default_log_path = Some x \<and>
      pg_lines (snd (prj_main me pg)) = pg_lines pg @ [main_catch (me_from_current me) x] \<and>
      pr_disp (pg_proc (snd (prj_main me pg))) = pr_disp (pg_proc pg) \<or>
    me_open_file me default_log_path = None \<and>
      pr_disp (pg_proc (snd (prj_main me pg))) SIGSEGV = Sig_handler \<and>
      pr_disp (pg_proc (snd (prj_main me pg))) SIGABRT = Sig_handler)"
proof (cases "me_open_file me default_log_path")
  case None
  then show ?thesis
    by (auto simp: prj_main_def main_body_def init_log_def terminate_handle_def EXIT_FAILURE_def Let_def install_handlers_def
        main_setup_terminate split: option.split prod.split)
next
  case (Some x)
  then show ?thesis
    by (auto simp: prj_main_def main_body_def init_log_def terminate_handle_def EXIT_FAILURE_def Let_def main_setup_terminate)
qed

text \<open>C9: a program that crashed says so when it is started again: if a signal ended the last run on Linux, and the
  dump could be written, the next run whose log can be opened logs the trace of the crash before anything else,
  exactly once, and the run after that logs only its greetings.\<close>

theorem crash_then_restart:
  assumes "pr_ended p = None" and "pr_active p = []" and "ce_platform ce = Linux_platform" and "ce_can_open ce"
    and "path_parent (get_dump_path (ce_location ce)) \<in> set (fs_dirs (pr_fs p)) \<or> ce_can_mkdir ce"
    and "me_location me = ce_location ce" and "me_open_file me default_log_path = None"
    and "me_exists_fails me = None" and "me_remove_fails me = None"
    and "pr_fs (pg_proc pg) = pr_fs (deliver ce sig (install_handlers p))"
  shows "let nested = (if sig = SIGSEGV then [SIGABRT, SIGSEGV] else [SIGABRT]);
             greetings = [SPDLOG_INFO ''Hello, spdlog'', SPDLOG_INFO ''Hello, sdplog.INFO''];
             pg1 = snd (prj_main me pg) in
    pg_lines pg1 = pg_lines pg @ SPDLOG_ERROR (''last dump detect:'' @ newline @ me_show_trace me (ce_frames ce nested)) # greetings \<and>
    pg_lines (snd (prj_main me pg1)) = pg_lines pg1 @ greetings"
  using crash_result [OF assms(1-5), of sig] assms(6-10)
  by (auto simp: prj_main_def main_body_def init_log_def Let_def install_handlers_def App_run_def show_last_dump_def
      remove_file_def)

definition sample_main_env :: main_env where
  "sample_main_env = \<lparr>me_platform = Linux_platform, me_unix = True, me_setrlimit = (\<lambda>cur hard cs. (False, cs)), me_prctl = 0,
     me_open_file = (\<lambda>p. None), me_location = ce_location sample_env,
     me_exists_fails = None, me_remove_fails = None, me_show_trace = (\<lambda>s. s), me_from_current = ''''\<rparr>"

definition sample_program :: program where
  "sample_program = \<lparr>pg_terminate_set = False, pg_filter_set = False, pg_sigpipe_ignored = False,
     pg_core = \<lparr>dumpable = False, rlim_cur = Some 0, rlim_max = Some 0\<rparr>,
     pg_log = \<lparr>default_logger = None, flush_interval = None\<rparr>,
     pg_proc = sample_proc\<lparr>pr_fs := pr_fs (deliver sample_env SIGABRT (install_handlers sample_proc))\<rparr>, pg_lines = []\<rparr>"

lemma crash_then_restart_witness:
  "pg_lines (snd (prj_main sample_main_env sample_program)) =
     [(Level_err, ''last dump detect:'' @ newline @ ''framesA''), (Level_info, ''Hello, spdlog''), (Level_info, ''Hello, sdplog.INFO'')]"
  using crash_then_restart [of sample_proc sample_env sample_main_env sample_program SIGABRT]
  by (simp add: Let_def sample_program_def sample_proc_def sample_env_def sample_main_env_def)

end
