(* ===== verification/Runs.thy ===== *)
theory Runs
  imports Main
begin

text \<open>
  Runs of a machine that reacts to events, its invariants, and families of such machines whose events are
  interleaved.  A step answers \<open>None\<close> when its event cannot happen.
\<close>

section \<open>Runs\<close>

fun run :: "('s \<Rightarrow> 'e \<Rightarrow> 's option) \<Rightarrow> 's \<Rightarrow> 'e list \<Rightarrow> 's option" where
  "run step s [] = Some s"
| "run step s (e # es) = (case step s e of None \<Rightarrow> None | Some t \<Rightarrow> run step t es)"

lemma run_append:
  "run step s (es @ fs) = (case run step s es of None \<Rightarrow> None | Some t \<Rightarrow> run step t fs)"
  by (induction es arbitrary: s) (auto split: option.split)

lemma run_snoc:
  "run step s (es @ [e]) = (case run step s es of None \<Rightarrow> None | Some t \<Rightarrow> step t e)"
  by (auto simp: run_append split: option.split)

lemma run_ConsE:
  assumes "run step s (e # es) = Some u"
  obtains t where "step s e = Some t" and "run step t es = Some u"
  using assms by (auto split: option.splits)

text \<open>An inductive relation with the same steps has the same runs.\<close>

inductive runs :: "('s \<Rightarrow> 'e \<Rightarrow> 's \<Rightarrow> bool) \<Rightarrow> 's \<Rightarrow> 'e list \<Rightarrow> 's \<Rightarrow> bool" for rel where
  runs_nil: "runs rel s [] s"
| runs_snoc: "runs rel s es t \<Longrightarrow> rel t e u \<Longrightarrow> runs rel s (es @ [e]) u"

lemma runs_Cons: "rel s e t \<Longrightarrow> runs rel t es u \<Longrightarrow> runs rel s (e # es) u"
proof (rotate_tac 1, induction rule: runs.induct)
  case (runs_nil t)
  then show ?case using runs.runs_snoc [OF runs.runs_nil, of rel s e t] by simp
next
  case (runs_snoc t es u e' v)
  then show ?case using runs.runs_snoc [of rel s "e # es" u e' v] by simp
qed

lemma runs_run:
  assumes "\<And>s e t. rel s e t \<longleftrightarrow> step s e = Some t"
  shows "runs rel s es t \<longleftrightarrow> run step s es = Some t"
proof
  show "runs rel s es t \<Longrightarrow> run step s es = Some t"
    by (induction rule: runs.induct) (auto simp: run_snoc assms)
  show "run step s es = Some t \<Longrightarrow> runs rel s es t"
    by (induction es arbitrary: s) (auto simp: runs.runs_nil assms intro: runs_Cons split: option.splits)
qed

section \<open>Invariants\<close>

locale run_invariant =
  fixes step :: "'s \<Rightarrow> 'e \<Rightarrow> 's option"
    and good :: "'s \<Rightarrow> bool"
  assumes preserved: "good s \<Longrightarrow> step s e = Some t \<Longrightarrow> good t"
begin

lemma run_preserves: "good s \<Longrightarrow> run step s es = Some t \<Longrightarrow> good t"
proof (induction es arbitrary: s)
  case (Cons e es)
  from Cons(3) obtain u where "step s e = Some u" "run step u es = Some t" by (rule run_ConsE)
  with Cons preserved show ?case by blast
qed simp

end

text \<open>An invariant that also knows the events so far.\<close>

locale history_invariant =
  fixes step :: "'s \<Rightarrow> 'e \<Rightarrow> 's option"
    and hinv :: "'e list \<Rightarrow> 's \<Rightarrow> bool"
  assumes step_preserves: "hinv es s \<Longrightarrow> step s e = Some t \<Longrightarrow> hinv (es @ [e]) t"
begin

lemma run_history: "hinv [] s \<Longrightarrow> run step s es = Some t \<Longrightarrow> hinv es t"
proof (induction es arbitrary: t rule: rev_induct)
  case (snoc e es)
  then show ?case using step_preserves by (auto simp: run_snoc split: option.splits)
qed simp

end

section \<open>Families of machines\<close>

text \<open>A family is a list of states; an event carries the number of the machine that it is for.\<close>

definition family_step :: "('s \<Rightarrow> 'e \<Rightarrow> 's option) \<Rightarrow> 's list \<Rightarrow> nat \<times> 'e \<Rightarrow> 's list option" where
  "family_step step ss ie =
     (case ie of (i, e) \<Rightarrow>
        if i < length ss then map_option (\<lambda>s. ss[i := s]) (step (ss ! i) e) else None)"

definition own :: "nat \<Rightarrow> (nat \<times> 'e) list \<Rightarrow> 'e list" where
  "own i es = map snd (filter (\<lambda>ie. fst ie = i) es)"

lemma own_simps [simp]:
  "own i [] = []" "own i (ie # es) = (if fst ie = i then snd ie # own i es else own i es)"
  "own i (es @ fs) = own i es @ own i fs"
  by (simp_all add: own_def)

text \<open>The composition theorem: a family runs exactly as its members do, each on its own events.\<close>

theorem family_run:
  "run (family_step step) ss es = Some ts \<longleftrightarrow>
     (\<forall>ie \<in> set es. fst ie < length ss) \<and> length ts = length ss \<and>
     (\<forall>i < length ss. run step (ss ! i) (own i es) = Some (ts ! i))"
proof (induction es arbitrary: ss)
  case Nil
  show ?case by (auto simp: list_eq_iff_nth_eq)
next
  case (Cons ie es)
  obtain i e where ie: "ie = (i, e)" by fastforce
  show ?case
  proof (cases "i < length ss \<and> step (ss ! i) e \<noteq> None")
    case True
    then obtain s where s: "step (ss ! i) e = Some s" and i: "i < length ss" by auto
    have "run (family_step step) ss (ie # es) = run (family_step step) (ss[i := s]) es"
      using s i by (simp add: family_step_def ie)
    moreover have "(\<forall>j < length ss. run step (ss[i := s] ! j) (own j es) = Some (ts ! j)) \<longleftrightarrow>
        (\<forall>j < length ss. run step (ss ! j) (own j (ie # es)) = Some (ts ! j))"
      using s i by (auto simp: ie nth_list_update)
    ultimately show ?thesis using Cons [of "ss[i := s]"] i by (simp add: ie)
  next
    case False
    then have "run (family_step step) ss (ie # es) = None" by (auto simp: family_step_def ie)
    moreover have "\<not> (i < length ss \<and> run step (ss ! i) (own i (ie # es)) = Some (ts ! i))"
      using False by (auto simp: ie)
    ultimately show ?thesis by (auto simp: ie)
  qed
qed

text \<open>A property of every member is a property of the family.\<close>

context run_invariant
begin

lemma family_preserves:
  assumes "\<And>s. s \<in> set ss \<Longrightarrow> good s" and "run (family_step step) ss es = Some ts" and "t \<in> set ts"
  shows "good t"
proof -
  obtain i where i: "i < length ts" "t = ts ! i" using assms(3) by (auto simp: in_set_conv_nth)
  then have "run step (ss ! i) (own i es) = Some t" "i < length ss" using assms(2) by (auto simp: family_run)
  moreover have "good (ss ! i)" using calculation(2) assms(1) by simp
  ultimately show ?thesis using run_preserves by blast
qed

end

end
