(* ===== verification/Echo_server.thy ===== *)
theory Echo_server
  imports Util_platform Runs
begin

text \<open>
  \<^verbatim>\<open>example/echo_server.cpp\<close>: a server that sends back what it receives.

  A coroutine is a state machine: it runs to its next \<^verbatim>\<open>co_await\<close> and is resumed there with the answer
  of the operation.  The answers come from Boost.Asio and are events; \<open>Inl\<close> of an answer is an exception
  that the \<^verbatim>\<open>co_await\<close> raises, \<open>Inr\<close> the \<^verbatim>\<open>result\<close>.  The calls that the code makes are listed in their order.
\<close>

section \<open>One connection\<close>

datatype call =
    Log log_line
  | Read_some nat
  | Write_some string
  | Accept
  | Spawn_echo endpoint

definition buffer_size :: nat where "buffer_size = 1024"

text \<open>\<^verbatim>\<open>boost::asio::error::eof\<close>.\<close>

definition eof :: error_code where "eof = \<lparr>ec_value = 2, ec_category = Asio_misc_category\<rparr>"

text \<open>The coroutine with the contents of its buffer.\<close>

datatype echo_state = Awaiting_read string | Awaiting_write string | Echo_done

datatype echo_event =
    Read_done "exn + (error_code + string)"
  | Write_done "exn + (error_code + nat)"

definition close_line :: "endpoint \<Rightarrow> log_line" where
  "close_line peer = SPDLOG_INFO (''connection close for client '' @ ep_address peer @ '': '' @ dec (ep_port peer))"

definition receive_line :: "string \<Rightarrow> endpoint \<Rightarrow> log_line" where
  "receive_line data peer = SPDLOG_INFO (''recieve '' @ data @ '' from endpoint: '' @ ep_address peer @ '':'' @ dec (ep_port peer))"

text \<open>The two \<^verbatim>\<open>catch\<close> clauses.\<close>

definition echo_catch :: "exn \<Rightarrow> call" where
  "echo_catch x = Log (handler_catch Level_err ''catch unknown exception'' x)"

text \<open>\<open>echo\<close> up to its first \<^verbatim>\<open>co_await\<close>, and from each \<^verbatim>\<open>co_await\<close> to the next; \<open>message\<close> is the text of an
  error code.  An event for which the coroutine does not wait cannot happen, and neither can a read
  of more than the buffer holds; a read stores its data at the start of the buffer and leaves the rest of
  it as it was.\<close>

definition echo_begin :: "call list \<times> echo_state" where
  "echo_begin = ([Read_some buffer_size], Awaiting_read (replicate buffer_size (CHR 0x00)))"

fun echo_step :: "(error_code \<Rightarrow> string) \<Rightarrow> endpoint \<Rightarrow> echo_state \<Rightarrow> echo_event \<Rightarrow> (call list \<times> echo_state) option" where
  "echo_step message peer (Awaiting_read buffer) (Read_done (Inl x)) = Some ([echo_catch x], Echo_done)"
| "echo_step message peer (Awaiting_read buffer) (Read_done (Inr (Inl ec))) =
     (if ec = eof then Some ([Log (close_line peer)], Echo_done)
      else Some ([Log (SPDLOG_ERROR (''read error: '' @ message ec))], Echo_done))"
| "echo_step message peer (Awaiting_read buffer) (Read_done (Inr (Inr data))) =
     (if length data \<le> buffer_size then
        (let buffer = data @ drop (length data) buffer;
             sv_buffer = take (length data) buffer
         in Some ([Log (receive_line sv_buffer peer), Write_some sv_buffer], Awaiting_write buffer))
      else None)"
| "echo_step message peer (Awaiting_write buffer) (Write_done (Inl x)) = Some ([echo_catch x], Echo_done)"
| "echo_step message peer (Awaiting_write buffer) (Write_done (Inr (Inl ec))) =
     Some ([Log (SPDLOG_ERROR (''write error: '' @ message ec))], Echo_done)"
| "echo_step message peer (Awaiting_write buffer) (Write_done (Inr (Inr n))) = Some ([Read_some buffer_size], Awaiting_read buffer)"
| "echo_step message peer _ _ = None"

fun echo_run :: "(error_code \<Rightarrow> string) \<Rightarrow> endpoint \<Rightarrow> echo_state \<Rightarrow> echo_event list \<Rightarrow> (call list \<times> echo_state) option" where
  "echo_run message peer st [] = Some ([], st)"
| "echo_run message peer st (e # es) =
     (case echo_step message peer st e of
        None \<Rightarrow> None
      | Some (cs, st') \<Rightarrow>
          (case echo_run message peer st' es of None \<Rightarrow> None | Some (cs', st'') \<Rightarrow> Some (cs @ cs', st'')))"

section \<open>The listener and the server\<close>

datatype listen_state = Awaiting_accept | Listen_done

text \<open>\<open>open_acceptor\<close> is the exception that opening the acceptor on port 7800 raises, if it does.\<close>

definition listen_begin :: "exn option \<Rightarrow> call list \<times> listen_state" where
  "listen_begin open_acceptor =
     (case open_acceptor of
        Some x \<Rightarrow> ([echo_catch x], Listen_done)
      | None \<Rightarrow> ([Log (SPDLOG_INFO ''listening on port 7800''), Accept], Awaiting_accept))"

text \<open>The exceptions are those of the \<^verbatim>\<open>co_await\<close>; one that \<^verbatim>\<open>co_spawn\<close> raises is not modelled.\<close>

fun listen_step :: "(error_code \<Rightarrow> string) \<Rightarrow> listen_state \<Rightarrow> exn + (error_code + endpoint) \<Rightarrow> (call list \<times> listen_state) option" where
  "listen_step message Awaiting_accept (Inl x) = Some ([echo_catch x], Listen_done)"
| "listen_step message Awaiting_accept (Inr (Inl ec)) =
     Some ([Log (SPDLOG_INFO (''accept error: '' @ message ec)), Accept], Awaiting_accept)"
| "listen_step message Awaiting_accept (Inr (Inr peer)) =
     Some ([Log (SPDLOG_INFO (''accept connection from: '' @ ep_address peer @ '': '' @ dec (ep_port peer))),
            Spawn_echo peer, Accept], Awaiting_accept)"
| "listen_step message Listen_done _ = None"

text \<open>The server: the listener, the sessions in the order they were spawned (with the calls each has made),
  and whether the \<^verbatim>\<open>io_context\<close> has been stopped.\<close>

record session =
  s_peer :: endpoint
  s_state :: echo_state
  s_calls :: "call list"

record server =
  sv_listen :: listen_state
  sv_calls :: "call list"
  sv_sessions :: "session list"
  sv_stopped :: bool

datatype server_event =
    Accepted "exn + (error_code + endpoint)"
  | Session nat echo_event
  | Signalled

definition server_begin :: "exn option \<Rightarrow> server" where
  "server_begin open_acceptor =
     (case listen_begin open_acceptor of (cs, st) \<Rightarrow>
        \<lparr>sv_listen = st, sv_calls = cs, sv_sessions = [], sv_stopped = False\<rparr>)"

definition spawn :: "endpoint \<Rightarrow> session" where
  "spawn peer = \<lparr>s_peer = peer, s_state = snd echo_begin, s_calls = fst echo_begin\<rparr>"

definition spawned :: "call list \<Rightarrow> endpoint list" where
  "spawned cs = concat (map (\<lambda>c. case c of Spawn_echo p \<Rightarrow> [p] | _ \<Rightarrow> []) cs)"

definition session_step :: "(error_code \<Rightarrow> string) \<Rightarrow> echo_event \<Rightarrow> session \<Rightarrow> session option" where
  "session_step message e s =
     (case echo_step message (s_peer s) (s_state s) e of
        None \<Rightarrow> None
      | Some (cs, st) \<Rightarrow> Some (s\<lparr>s_state := st, s_calls := s_calls s @ cs\<rparr>))"

text \<open>One handler that the \<^verbatim>\<open>io_context\<close> runs; a stopped one runs none.\<close>

fun server_step :: "(error_code \<Rightarrow> string) \<Rightarrow> server \<Rightarrow> server_event \<Rightarrow> server option" where
  "server_step message sv (Accepted r) =
     (if sv_stopped sv then None
      else (case listen_step message (sv_listen sv) r of
              None \<Rightarrow> None
            | Some (cs, st) \<Rightarrow>
                Some (sv\<lparr>sv_listen := st, sv_calls := sv_calls sv @ cs,
                         sv_sessions := sv_sessions sv @ map spawn (spawned cs)\<rparr>)))"
| "server_step message sv (Session i e) =
     (if sv_stopped sv \<or> length (sv_sessions sv) \<le> i then None
      else (case session_step message e (sv_sessions sv ! i) of
              None \<Rightarrow> None
            | Some s \<Rightarrow> Some (sv\<lparr>sv_sessions := (sv_sessions sv)[i := s]\<rparr>)))"
| "server_step message sv Signalled = (if sv_stopped sv then None else Some (sv\<lparr>sv_stopped := True\<rparr>))"

abbreviation server_run :: "(error_code \<Rightarrow> string) \<Rightarrow> server \<Rightarrow> server_event list \<Rightarrow> server option" where
  "server_run message \<equiv> run (server_step message)"

text \<open>\<open>main\<close>: \<open>io_run\<close> is the exception that leaves \<^verbatim>\<open>io_ctx.run()\<close> or what comes before it, if any; the result is
  what is logged by \<open>main\<close> itself, the exit code and the logger.\<close>

definition echo_main ::
    "(string \<Rightarrow> exn option) \<Rightarrow> exn option \<Rightarrow> string \<Rightarrow> logging \<Rightarrow> log_line list \<times> int \<times> logging" where
  "echo_main open_file io_run from_current lg =
     (case init_log open_file Level_trace True True default_log_path lg of
        (Some x, lg) \<Rightarrow> ([main_catch from_current x], EXIT_FAILURE, lg)
      | (None, lg) \<Rightarrow>
          (case io_run of
             Some x \<Rightarrow> ([main_catch from_current x], EXIT_FAILURE, lg)
           | None \<Rightarrow> ([], EXIT_SUCCESS, lg)))"

section \<open>What a connection carries\<close>

text \<open>The data of the reads, the data handed to writes, what the writes answer, and the bytes that they took: a write that
  answers \<open>n\<close> took the first \<open>n\<close> bytes of what it was given.\<close>

definition received :: "echo_event list \<Rightarrow> string list" where
  "received es = concat (map (\<lambda>e. case e of Read_done (Inr (Inr d)) \<Rightarrow> [d] | _ \<Rightarrow> []) es)"

definition written :: "call list \<Rightarrow> string list" where
  "written cs = concat (map (\<lambda>c. case c of Write_some d \<Rightarrow> [d] | _ \<Rightarrow> []) cs)"

definition write_counts :: "echo_event list \<Rightarrow> nat list" where
  "write_counts es = concat (map (\<lambda>e. case e of Write_done (Inr (Inr n)) \<Rightarrow> [n] | _ \<Rightarrow> []) es)"

definition taken :: "call list \<Rightarrow> echo_event list \<Rightarrow> string" where
  "taken cs es = concat (map2 take (write_counts es) (written cs))"

fun failed_event :: "echo_event \<Rightarrow> bool" where
  "failed_event (Read_done (Inr (Inr d))) = False"
| "failed_event (Write_done (Inr (Inr n))) = False"
| "failed_event _ = True"

lemma received_Cons [simp]: "received (e # es) = (case e of Read_done (Inr (Inr d)) \<Rightarrow> [d] | _ \<Rightarrow> []) @ received es"
  by (simp add: received_def)

lemma received_Nil [simp]: "received [] = []" by (simp add: received_def)

lemma write_counts_simps [simp]:
  "write_counts [] = []" "write_counts (e # es) = (case e of Write_done (Inr (Inr n)) \<Rightarrow> [n] | _ \<Rightarrow> []) @ write_counts es"
  by (simp_all add: write_counts_def)

lemma written_simps [simp]:
  "written [] = []" "written (c # cs) = (case c of Write_some d \<Rightarrow> [d] | _ \<Rightarrow> []) @ written cs"
  "written (cs @ cs') = written cs @ written cs'"
  by (simp_all add: written_def)

lemma echo_run_ConsE:
  assumes "echo_run message peer st (e # es) = Some (cs, st'')"
  obtains cs1 st1 cs2 where "echo_step message peer st e = Some (cs1, st1)"
    and "echo_run message peer st1 es = Some (cs2, st'')" and "cs = cs1 @ cs2"
  using assms by (auto split: option.splits prod.splits)

text \<open>The steps of a coroutine, by what it waits for.\<close>

lemma echo_step_cases:
  assumes "echo_step message peer st e = Some (cs, st')"
  obtains b d where "st = Awaiting_read b" and "e = Read_done (Inr (Inr d))" and "st' = Awaiting_write (d @ drop (length d) b)"
      and "cs = [Log (receive_line d peer), Write_some d]" and "length d \<le> buffer_size"
  | b n where "st = Awaiting_write b" and "e = Write_done (Inr (Inr n))" and "st' = Awaiting_read b" and "cs = [Read_some buffer_size]"
  | "failed_event e" and "st' = Echo_done" and "written cs = []"
    and "(\<exists>b r. st = Awaiting_read b \<and> e = Read_done r) \<or> (\<exists>b r. st = Awaiting_write b \<and> e = Write_done r)"
  using assms
  by (cases "(message, peer, st, e)" rule: echo_step.cases) (auto simp: echo_catch_def split: if_splits)

lemma echo_step_done [simp]: "echo_step message peer Echo_done e = None"
  by (cases e) simp_all

lemma echo_run_done: "echo_run message peer Echo_done es = Some (cs, st) \<Longrightarrow> es = [] \<and> st = Echo_done"
  by (cases es) (auto split: option.splits)

lemma echo_run_received:
  "echo_run message peer st es = Some (cs, st') \<Longrightarrow>
     written cs = received es \<and> (\<forall>d \<in> set (written cs). length d \<le> buffer_size)"
proof (induction es arbitrary: st cs)
  case (Cons e es)
  from Cons(2) obtain cs1 st1 cs2 where s: "echo_step message peer st e = Some (cs1, st1)"
    "echo_run message peer st1 es = Some (cs2, st')" "cs = cs1 @ cs2"
    by (rule echo_run_ConsE)
  note IH = Cons(1) [OF s(2)]
  from s(1) show ?case
  proof (cases rule: echo_step_cases)
    case 3
    then show ?thesis using IH s(3) by (cases e rule: failed_event.cases) simp_all
  qed (use IH s(3) in simp_all)
qed simp

lemma echo_run_last:
  "echo_run message peer st es = Some (cs, st') \<Longrightarrow> st \<noteq> Echo_done \<Longrightarrow>
     st' = Echo_done \<longleftrightarrow> es \<noteq> [] \<and> failed_event (last es)"
proof (induction es arbitrary: st cs)
  case (Cons e es)
  from Cons(2) obtain cs1 st1 cs2 where s: "echo_step message peer st e = Some (cs1, st1)"
    "echo_run message peer st1 es = Some (cs2, st')" "cs = cs1 @ cs2"
    by (rule echo_run_ConsE)
  show ?case
  proof (cases "st1 = Echo_done")
    case True
    then have "es = [] \<and> st' = Echo_done" using s(2) echo_run_done by blast
    moreover have "failed_event e" using s(1) True by (cases rule: echo_step_cases) auto
    ultimately show ?thesis by simp
  next
    case False
    moreover have "\<not> failed_event e" using s(1) False by (cases rule: echo_step_cases) auto
    ultimately show ?thesis using Cons(1) [OF s(2)] s(2) by auto
  qed
qed simp

text \<open>One write at a time: between two writes there is the answer to the first.\<close>

lemma echo_run_write_counts:
  "echo_run message peer st es = Some (cs, st') \<Longrightarrow> st' \<noteq> Echo_done \<Longrightarrow>
     (case st of Awaiting_write b \<Rightarrow> 1 | _ \<Rightarrow> 0) + length (written cs) =
     length (write_counts es) + (case st' of Awaiting_write b \<Rightarrow> 1 | _ \<Rightarrow> 0)"
proof (induction es arbitrary: st cs)
  case (Cons e es)
  from Cons(2) obtain cs1 st1 cs2 where s: "echo_step message peer st e = Some (cs1, st1)"
    "echo_run message peer st1 es = Some (cs2, st')" "cs = cs1 @ cs2"
    by (rule echo_run_ConsE)
  note IH = Cons(1) [OF s(2) Cons(3)]
  from s(1) show ?case
  proof (cases rule: echo_step_cases)
    case 3
    then show ?thesis using s(2) Cons(3) echo_run_done by blast
  qed (use IH s(3) in simp_all)
qed simp

lemma taken_prefix: "length (concat (map2 take ns ds)) \<le> length (concat ds)"
proof (induction ds arbitrary: ns)
  case (Cons d ds)
  then show ?case by (cases ns) (simp_all add: add_mono)
qed simp

lemma taken_all_iff:
  "length ns = length ds \<Longrightarrow> \<forall>(n, d) \<in> set (zip ns ds). n \<le> length d \<Longrightarrow>
     concat (map2 take ns ds) = concat ds \<longleftrightarrow> ns = map length ds"
proof (induction ns ds rule: list_induct2)
  case (Cons n ns d ds)
  show ?case
  proof (cases "n = length d")
    case False
    then have "length (take n d @ concat (map2 take ns ds)) < length (d @ concat ds)"
      using Cons(3) taken_prefix [of ns ds] by simp
    then have "take n d @ concat (map2 take ns ds) \<noteq> d @ concat ds" by force
    then show ?thesis using False by simp
  qed (use Cons in simp)
qed simp

section \<open>The sessions of the server\<close>

text \<open>The events of one session, and the peers that were accepted.\<close>

definition session_events :: "nat \<Rightarrow> server_event list \<Rightarrow> echo_event list" where
  "session_events i es = concat (map (\<lambda>e. case e of Session j x \<Rightarrow> if j = i then [x] else [] | _ \<Rightarrow> []) es)"

definition accepted_peers :: "server_event list \<Rightarrow> endpoint list" where
  "accepted_peers es = concat (map (\<lambda>e. case e of Accepted (Inr (Inr p)) \<Rightarrow> [p] | _ \<Rightarrow> []) es)"

lemma session_events_snoc: "session_events i (es @ [e]) = session_events i es @ (case e of Session j x \<Rightarrow> if j = i then [x] else [] | _ \<Rightarrow> [])"
  by (simp add: session_events_def)

lemma accepted_peers_snoc: "accepted_peers (es @ [e]) = accepted_peers es @ (case e of Accepted (Inr (Inr p)) \<Rightarrow> [p] | _ \<Rightarrow> [])"
  by (simp add: accepted_peers_def)

lemma echo_run_snoc:
  "echo_run message peer st (es @ [e]) =
     (case echo_run message peer st es of
        None \<Rightarrow> None
      | Some (cs, st') \<Rightarrow> (case echo_step message peer st' e of None \<Rightarrow> None | Some (cs', st'') \<Rightarrow> Some (cs @ cs', st'')))"
  by (induction es arbitrary: st) (auto split: option.split prod.split)

definition session_of :: "(error_code \<Rightarrow> string) \<Rightarrow> echo_event list \<Rightarrow> session \<Rightarrow> bool" where
  "session_of message es s \<longleftrightarrow>
     (\<exists>cs. echo_run message (s_peer s) (snd echo_begin) es = Some (cs, s_state s) \<and> s_calls s = fst echo_begin @ cs)"

definition sessions_inv :: "(error_code \<Rightarrow> string) \<Rightarrow> server_event list \<Rightarrow> server \<Rightarrow> bool" where
  "sessions_inv message es sv \<longleftrightarrow>
     map s_peer (sv_sessions sv) = accepted_peers es \<and>
     (\<forall>i < length (sv_sessions sv). session_of message (session_events i es) (sv_sessions sv ! i)) \<and>
     (\<forall>i \<ge> length (sv_sessions sv). session_events i es = [])"

lemma session_of_spawn: "session_of message [] (spawn peer)"
  by (simp add: session_of_def spawn_def echo_begin_def)

lemma session_of_step:
  "session_of message es s \<Longrightarrow> session_step message e s = Some s' \<Longrightarrow> session_of message (es @ [e]) s' \<and> s_peer s' = s_peer s"
  by (auto simp: session_of_def session_step_def echo_run_snoc split: option.splits prod.splits)

lemma listen_step_spawned:
  assumes "listen_step message st r = Some (cs, st')"
  shows "spawned cs = (case r of Inr (Inr p) \<Rightarrow> [p] | _ \<Rightarrow> [])"
  using assms by (cases "(message, st, r)" rule: listen_step.cases) (auto simp: spawned_def echo_catch_def)

lemma sessions_inv_step:
  assumes "sessions_inv message es sv" and "server_step message sv e = Some sv'"
  shows "sessions_inv message (es @ [e]) sv'"
proof (cases e)
  case (Accepted r)
  then obtain cs st where step: "listen_step message (sv_listen sv) r = Some (cs, st)"
    and sv': "sv_sessions sv' = sv_sessions sv @ map spawn (spawned cs)"
    using assms(2) by (auto split: if_splits option.splits prod.splits)
  have peers: "map s_peer (map spawn ps) = ps" for ps by (induction ps) (simp_all add: spawn_def)
  have sp: "spawned cs = (case r of Inr (Inr p) \<Rightarrow> [p] | _ \<Rightarrow> [])" by (rule listen_step_spawned [OF step])
  have session_events: "session_events i (es @ [Accepted r]) = session_events i es" for i by (simp add: session_events_snoc)
  have "session_of message (session_events i es) (sv_sessions sv' ! i)" if "i < length (sv_sessions sv')" for i
    using assms(1) that sv' session_of_spawn by (cases "i < length (sv_sessions sv)") (auto simp: sessions_inv_def nth_append)
  then show ?thesis
    using assms(1) sv' peers sp by (auto simp: sessions_inv_def session_events accepted_peers_snoc Accepted)
next
  case (Session j x)
  then obtain s where s: "session_step message x (sv_sessions sv ! j) = Some s" and j: "j < length (sv_sessions sv)"
    and sv': "sv_sessions sv' = (sv_sessions sv)[j := s]"
    using assms(2) by (auto split: if_splits option.splits)
  have new: "session_of message (session_events j es @ [x]) s" "s_peer s = s_peer (sv_sessions sv ! j)"
    using session_of_step [OF _ s] assms(1) j by (auto simp: sessions_inv_def)
  then have "map s_peer (sv_sessions sv') = map s_peer (sv_sessions sv)"
    unfolding sv' map_update using j by (metis list_update_id map_update)
  then show ?thesis
    using assms(1) sv' j new by (auto simp: sessions_inv_def session_events_snoc accepted_peers_snoc Session nth_list_update)
next
  case Signalled
  then show ?thesis using assms by (auto simp: sessions_inv_def session_events_snoc accepted_peers_snoc split: if_splits)
qed

interpretation sessions: history_invariant "server_step message" "sessions_inv message" for message
  by unfold_locales (rule sessions_inv_step)

lemma sessions_inv_begin: "sessions_inv message [] (server_begin open_acceptor)"
  by (auto simp: sessions_inv_def server_begin_def session_events_def accepted_peers_def split: prod.splits)

lemmas sessions_inv_run = sessions.run_history [OF sessions_inv_begin]

lemma listener_run:
  "server_run message (server_begin None) es = Some sv \<Longrightarrow> (\<And>x. Accepted (Inl x) \<notin> set es) \<Longrightarrow>
     sv_listen sv = Awaiting_accept \<and> sv_stopped sv = (Signalled \<in> set es)"
proof (induction es arbitrary: sv rule: rev_induct)
  case Nil
  then show ?case by (auto simp: server_begin_def listen_begin_def)
next
  case (snoc e es)
  then obtain sv0 where sv0: "server_run message (server_begin None) es = Some sv0" "server_step message sv0 e = Some sv"
    by (auto simp: run_snoc split: option.splits)
  then have IH: "sv_listen sv0 = Awaiting_accept" "sv_stopped sv0 = (Signalled \<in> set es)" using snoc by auto
  show ?case
  proof (cases e)
    case (Accepted r)
    then obtain v where "r = Inr v" using snoc(3) by (cases r) auto
    then show ?thesis using sv0(2) IH Accepted by (cases v) (auto split: if_splits)
  qed (use sv0(2) IH in \<open>auto split: if_splits option.splits\<close>)
qed

section \<open>Properties\<close>

text \<open>C19: every chunk that a connection receives is handed to exactly one write, in the order of arrival, and
  nothing else is ever written, whatever the operations answer: no byte of an earlier, longer chunk that is
  still in the buffer, and never more than the 1024 bytes of the buffer at once.\<close>

theorem echo_writes_what_it_reads:
  assumes "echo_run message peer (snd echo_begin) es = Some (cs, st)"
  shows "written (fst echo_begin @ cs) = received es \<and> (\<forall>d \<in> set (written cs). length d \<le> 1024)"
  using echo_run_received [OF assms] by (simp add: echo_begin_def buffer_size_def)

definition sample_peer :: endpoint where "sample_peer = \<lparr>ep_address = ''10.0.0.1'', ep_port = 5000\<rparr>"

lemma echo_writes_what_it_reads_witness:
  "written (fst echo_begin @ [Log (receive_line ''hello'' sample_peer), Write_some ''hello'', Read_some 1024]) = [''hello'']"
  using echo_writes_what_it_reads [of "\<lambda>ec. ''''" sample_peer "[Read_done (Inr (Inr ''hello'')), Write_done (Inr (Inr 5))]"]
  by (simp add: echo_begin_def buffer_size_def)

text \<open>C6: the client gets back what it sent exactly when every write takes its whole chunk: \<open>async_write_some\<close>
  may take less, and the code neither looks at the count nor writes the rest, so that a short write
  loses the end of its chunk for good.  Whenever the connection waits for data again, every write that
  it has made has been answered.\<close>

theorem echo_complete_iff_full_writes:
  assumes "echo_run message peer (snd echo_begin) es = Some (cs, Awaiting_read b)"
    and "\<forall>(n, d) \<in> set (zip (write_counts es) (written cs)). n \<le> length d"
  shows "length (write_counts es) = length (written cs) \<and>
    (taken cs es = concat (received es) \<longleftrightarrow> write_counts es = map length (written cs))"
proof -
  have "written cs = received es" using echo_run_received [OF assms(1)] by simp
  moreover have "length (write_counts es) = length (written cs)"
    using echo_run_write_counts [OF assms(1)] by (simp add: echo_begin_def)
  ultimately show ?thesis using taken_all_iff [OF _ assms(2)] by (simp add: taken_def)
qed

lemma echo_complete_iff_full_writes_witness:
  "\<exists>cs b. echo_run (\<lambda>ec. []) sample_peer (snd echo_begin)
       [Read_done (Inr (Inr ''hello'')), Write_done (Inr (Inr 3)), Read_done (Inr (Inr ''!'')), Write_done (Inr (Inr 1))]
       = Some (cs, Awaiting_read b) \<and> written cs = [''hello'', ''!''] \<and>
     taken cs [Read_done (Inr (Inr ''hello'')), Write_done (Inr (Inr 3)), Read_done (Inr (Inr ''!'')), Write_done (Inr (Inr 1))]
       \<noteq> ''hello!''"
proof -
  let ?es = "[Read_done (Inr (Inr ''hello'')), Write_done (Inr (Inr 3)), Read_done (Inr (Inr ''!'')), Write_done (Inr (Inr 1))]"
  obtain cs b where run: "echo_run (\<lambda>ec. []) sample_peer (snd echo_begin) ?es = Some (cs, Awaiting_read b)"
    and w: "written cs = [''hello'', ''!'']" by (simp add: echo_begin_def buffer_size_def Let_def)
  have "taken cs ?es \<noteq> ''hello!''"
    using echo_complete_iff_full_writes [OF run] by (simp add: w)
  then show ?thesis using run w by blast
qed

text \<open>C20: a connection ends exactly at its first failure (the end of the stream, an error or an exception),
  and after that it reacts to nothing.\<close>

theorem echo_ends_at_first_failure:
  assumes "echo_run message peer (snd echo_begin) es = Some (cs, st)"
  shows "(st = Echo_done \<longleftrightarrow> es \<noteq> [] \<and> failed_event (last es)) \<and>
    (st = Echo_done \<longrightarrow> echo_step message peer st e = None)"
  using echo_run_last [OF assms] by (auto simp: echo_begin_def)

lemma echo_ends_at_first_failure_witness:
  "echo_run (\<lambda>ec. ''reset'') sample_peer (snd echo_begin) [Read_done (Inr (Inl eof))]
     = Some ([Log (close_line sample_peer)], Echo_done) \<and> failed_event (Read_done (Inr (Inl eof)))"
  using echo_ends_at_first_failure [of "\<lambda>ec. ''reset''" sample_peer "[Read_done (Inr (Inl eof))]" _ Echo_done]
  by (simp add: echo_begin_def)

text \<open>C5: the sessions of the server do not disturb each other: however the completions of different
  connections are interleaved, there is one session for each accepted connection, in the order of
  acceptance, and each has made exactly the calls of \<open>echo\<close> run on its own completions alone.\<close>

theorem sessions_isolated:
  assumes "server_run message (server_begin open_acceptor) es = Some sv"
  shows "map s_peer (sv_sessions sv) = accepted_peers es \<and>
    (\<forall>i < length (sv_sessions sv). \<exists>cs. s_calls (sv_sessions sv ! i) = fst echo_begin @ cs \<and>
       echo_run message (accepted_peers es ! i) (snd echo_begin) (session_events i es) = Some (cs, s_state (sv_sessions sv ! i)))"
proof -
  have "map s_peer (sv_sessions sv) = accepted_peers es"
    and s: "\<forall>i < length (sv_sessions sv). session_of message (session_events i es) (sv_sessions sv ! i)"
    using sessions_inv_run [OF assms] by (auto simp: sessions_inv_def)
  moreover have "s_peer (sv_sessions sv ! i) = accepted_peers es ! i" if "i < length (sv_sessions sv)" for i
    using calculation(1) that by (metis nth_map)
  ultimately show ?thesis using s by (auto simp: session_of_def)
qed

definition sample_events :: "server_event list" where
  "sample_events = [Accepted (Inr (Inr sample_peer)), Accepted (Inr (Inl eof)),
     Accepted (Inr (Inr (sample_peer\<lparr>ep_port := 6000\<rparr>))),
     Session 1 (Read_done (Inr (Inr ''b''))), Session 0 (Read_done (Inr (Inr ''a''))),
     Session 1 (Write_done (Inr (Inr 1))), Session 0 (Write_done (Inr (Inr 1)))]"

lemma sessions_isolated_witness:
  "\<exists>sv. server_run (\<lambda>ec. ''err'') (server_begin None) sample_events = Some sv \<and>
     map s_peer (sv_sessions sv) = [sample_peer, sample_peer\<lparr>ep_port := 6000\<rparr>]"
proof -
  have "\<exists>sv. server_run (\<lambda>ec. ''err'') (server_begin None) sample_events = Some sv"
    by (simp add: sample_events_def server_begin_def listen_begin_def session_step_def spawned_def spawn_def echo_begin_def
        Let_def buffer_size_def)
  then obtain sv where sv: "server_run (\<lambda>ec. ''err'') (server_begin None) sample_events = Some sv" ..
  show ?thesis using sessions_isolated [OF sv] sv by (auto simp: accepted_peers_def sample_events_def)
qed

text \<open>C21: no failed accept stops the server: as long as no exception leaves the \<^verbatim>\<open>co_await\<close>, the listener
  waits for the next connection, and only a signal stops the server.\<close>

theorem listener_survives_accept_errors:
  assumes "server_run message (server_begin None) es = Some sv" and "\<And>x. Accepted (Inl x) \<notin> set es"
  shows "sv_listen sv = Awaiting_accept \<and> (sv_stopped sv \<longleftrightarrow> Signalled \<in> set es) \<and>
    (Signalled \<notin> set es \<longrightarrow> (\<forall>ec. \<exists>sv'. server_step message sv (Accepted (Inr (Inl ec))) = Some sv' \<and>
        sv_sessions sv' = sv_sessions sv \<and> sv_listen sv' = Awaiting_accept))"
  using listener_run [OF assms] by (auto simp: spawned_def)

lemma listener_survives_accept_errors_witness:
  "\<exists>sv. server_run (\<lambda>ec. ''err'') (server_begin None) [Accepted (Inr (Inl eof))] = Some sv \<and> sv_listen sv = Awaiting_accept"
  using listener_survives_accept_errors [of "\<lambda>ec. ''err''" "[Accepted (Inr (Inl eof))]"]
  by (simp add: server_begin_def listen_begin_def spawned_def)

end
