(* ===== verification/Async_connector.thy ===== *)
theory Async_connector
  imports Util_platform "HOL-Library.Multiset"
begin

text \<open>
  \<^verbatim>\<open>example/async_connector.cpp\<close>: resolve some hosts, connect to every address found, and give up after
  three seconds.  The object of class \<open>AysncConnector\<close> is a record with what it has asked Boost.Asio to
  do and what has not completed yet; the completions are the events of a step relation.
\<close>

section \<open>The object\<close>

record csocket =
  cs_endpoint :: endpoint
  cs_open :: bool

text \<open>What is bound to the handler of a connection attempt: its start time (in nanoseconds) and its endpoint.\<close>

type_synonym attempt = "int \<times> endpoint"

datatype connector_call =
    Timer_expires_after nat
  | Timer_async_wait
  | Async_resolve string string
  | Resolver_cancel
  | Async_connect attempt
  | Socket_close nat
  | Context_stop
  | Report log_line

record connector =
  cx_sockets :: "csocket list"
  cx_stopped :: bool
  cx_timer_pending :: bool
  cx_resolving :: "string list"
  cx_connecting :: "attempt list"
  cx_calls :: "connector_call list"

definition new_connector :: connector where
  "new_connector = \<lparr>cx_sockets = [], cx_stopped = False, cx_timer_pending = False, cx_resolving = [],
     cx_connecting = [], cx_calls = []\<rparr>"

definition cx_call :: "connector_call \<Rightarrow> connector \<Rightarrow> connector" where
  "cx_call c st = st\<lparr>cx_calls := cx_calls st @ [c]\<rparr>"

text \<open>\<^verbatim>\<open>time_out\<close>, in seconds.\<close>

definition time_out :: nat where "time_out = 3"

definition async_connect :: "string list \<Rightarrow> connector \<Rightarrow> connector" where
  "async_connect eps st =
     (let st = cx_call (Timer_expires_after time_out) st;
          st = (cx_call Timer_async_wait st)\<lparr>cx_timer_pending := True\<rparr>
      in foldl (\<lambda>st i. (cx_call (Async_resolve i ''80'') st)\<lparr>cx_resolving := cx_resolving st @ [i]\<rparr>) st eps)"

text \<open>The \<^verbatim>\<open>catch\<close> clauses of the three handlers.\<close>

definition connector_catch :: "exn \<Rightarrow> connector_call" where
  "connector_catch x = Report (handler_catch Level_err ''catch unknown exception'' x)"

text \<open>The loop that closes the sockets from number \<open>i\<close> on: \<open>closing i\<close> is the exception that \<^verbatim>\<open>close()\<close> raises
  for socket \<open>i\<close>, if it does; the descriptor is closed then, too.  The first element of the result is the
  exception that leaves the loop.\<close>

fun close_sockets :: "(nat \<Rightarrow> exn option) \<Rightarrow> nat \<Rightarrow> csocket list \<Rightarrow> exn option \<times> csocket list \<times> connector_call list" where
  "close_sockets closing i [] = (None, [], [])"
| "close_sockets closing i (s # ss) =
     (case closing i of
        Some x \<Rightarrow> (Some x, s\<lparr>cs_open := False\<rparr> # ss, [Socket_close i])
      | None \<Rightarrow>
          (case close_sockets closing (Suc i) ss of
             (r, ss', cs) \<Rightarrow> (r, s\<lparr>cs_open := False\<rparr> # ss', Socket_close i # cs)))"

definition timer_handler :: "(nat \<Rightarrow> exn option) \<Rightarrow> error_code \<Rightarrow> connector \<Rightarrow> connector" where
  "timer_handler closing ec st =
     (if \<not> ec_failed ec then
        (let st = cx_call Resolver_cancel st in
         case close_sockets closing 0 (cx_sockets st) of
           (r, ss, cs) \<Rightarrow>
             (let st = st\<lparr>cx_sockets := ss, cx_calls := cx_calls st @ cs\<rparr> in
              case r of
                Some x \<Rightarrow> cx_call (connector_catch x) st
              | None \<Rightarrow> (cx_call Context_stop st)\<lparr>cx_stopped := True\<rparr>))
      else st)"

text \<open>The loop of \<open>_handle_resolve\<close>: \<open>starting i\<close> is the exception that making the socket of result \<open>i\<close> or starting its
  connection raises, if it does, \<open>keeping i\<close> the one that \<^verbatim>\<open>push_back\<close> raises, and \<open>now i\<close> the time taken there.  An exception
  of \<^verbatim>\<open>push_back\<close> destroys the socket, but the connection has been started and its handler will be called.\<close>

fun start_connects ::
    "(nat \<Rightarrow> exn option) \<Rightarrow> (nat \<Rightarrow> exn option) \<Rightarrow> (nat \<Rightarrow> int) \<Rightarrow> nat \<Rightarrow> endpoint list \<Rightarrow> connector \<Rightarrow>
     exn option \<times> connector" where
  "start_connects starting keeping now i [] st = (None, st)"
| "start_connects starting keeping now i (ep # eps) st =
     (case starting i of
        Some x \<Rightarrow> (Some x, st)
      | None \<Rightarrow>
          (let conn_start_time = now i;
               st = (cx_call (Async_connect (conn_start_time, ep)) st)
                      \<lparr>cx_connecting := cx_connecting st @ [(conn_start_time, ep)]\<rparr>
           in case keeping i of
                Some x \<Rightarrow> (Some x, st)
              | None \<Rightarrow>
                  start_connects starting keeping now (Suc i) eps
                    (st\<lparr>cx_sockets := cx_sockets st @ [\<lparr>cs_endpoint = ep, cs_open = True\<rparr>]\<rparr>)))"

text \<open>\<open>texting\<close> is the exception that making the text of a report raises.\<close>

definition handle_resolve ::
    "(error_code \<Rightarrow> string) \<Rightarrow> exn option \<Rightarrow> (nat \<Rightarrow> exn option) \<Rightarrow> (nat \<Rightarrow> exn option) \<Rightarrow> (nat \<Rightarrow> int) \<Rightarrow> error_code \<Rightarrow>
     endpoint list \<Rightarrow> string \<Rightarrow> connector \<Rightarrow> connector" where
  "handle_resolve message texting starting keeping now ec results hostname st =
     (if ec_failed ec then
        (case texting of
           Some x \<Rightarrow> cx_call (connector_catch x) st
         | None \<Rightarrow> cx_call (Report (SPDLOG_ERROR (''resolve host '' @ hostname @ '' failed: '' @ message ec))) st)
      else
        (case start_connects starting keeping now 0 results st of
           (Some x, st) \<Rightarrow> cx_call (connector_catch x) st
         | (None, st) \<Rightarrow> st))"

definition handle_connect ::
    "(error_code \<Rightarrow> string) \<Rightarrow> exn option \<Rightarrow> error_code \<Rightarrow> int \<Rightarrow> endpoint \<Rightarrow> int \<Rightarrow> connector \<Rightarrow> connector" where
  "handle_connect message texting ec conn_start_time ep now st =
     (if ec_failed ec then
        (case texting of
           Some x \<Rightarrow> cx_call (connector_catch x) st
         | None \<Rightarrow> cx_call (Report (SPDLOG_ERROR (''connection to '' @ ep_address ep @ '' failed: '' @ message ec))) st)
      else
        cx_call (Report (SPDLOG_ERROR (''connection takes: '' @ show_int (milliseconds (now - conn_start_time))))) st)"

section \<open>The run of the context\<close>

datatype connector_event =
    Timer_done error_code "nat \<Rightarrow> exn option"
  | Resolve_done string error_code "endpoint list" "exn option" "nat \<Rightarrow> exn option" "nat \<Rightarrow> exn option" "nat \<Rightarrow> int"
  | Connect_done attempt error_code "exn option" int

text \<open>\<open>run_context\<close> runs the handlers of what has completed, in any order, until the context is stopped or
  nothing is left to wait for.\<close>

inductive connector_step :: "(error_code \<Rightarrow> string) \<Rightarrow> connector \<Rightarrow> connector_event \<Rightarrow> connector \<Rightarrow> bool"
  for message where
  timer: "\<not> cx_stopped st \<Longrightarrow> cx_timer_pending st \<Longrightarrow>
     connector_step message st (Timer_done ec closing) (timer_handler closing ec (st\<lparr>cx_timer_pending := False\<rparr>))"
| resolve: "\<not> cx_stopped st \<Longrightarrow> host \<in> set (cx_resolving st) \<Longrightarrow>
     connector_step message st (Resolve_done host ec results texting starting keeping now)
       (handle_resolve message texting starting keeping now ec results host
         (st\<lparr>cx_resolving := remove1 host (cx_resolving st)\<rparr>))"
| connect: "\<not> cx_stopped st \<Longrightarrow> (start, ep) \<in> set (cx_connecting st) \<Longrightarrow>
     connector_step message st (Connect_done (start, ep) ec texting now)
       (handle_connect message texting ec start ep now
         (st\<lparr>cx_connecting := remove1 (start, ep) (cx_connecting st)\<rparr>))"

inductive connector_run :: "(error_code \<Rightarrow> string) \<Rightarrow> connector \<Rightarrow> connector_event list \<Rightarrow> connector \<Rightarrow> bool"
  for message st where
  run_nil: "connector_run message st [] st"
| run_snoc: "connector_run message st es st' \<Longrightarrow> connector_step message st' e st'' \<Longrightarrow>
     connector_run message st (es @ [e]) st''"

definition run_finished :: "connector \<Rightarrow> bool" where
  "run_finished st \<longleftrightarrow> cx_stopped st \<or> (\<not> cx_timer_pending st \<and> cx_resolving st = [] \<and> cx_connecting st = [])"

inductive_cases connector_stepE: "connector_step message st e st'"
inductive_simps connector_step_timer: "connector_step message st (Timer_done ec closing) st'"

text \<open>\<open>main\<close>: the hosts, and what it logs for an exception; it always returns 0.\<close>

definition ip_list :: "string list" where
  "ip_list = [''www.baidu.com'', ''182.61.200.7'', ''182.61.200.6'']"

definition connector_main ::
    "(string \<Rightarrow> exn option) \<Rightarrow> exn option \<Rightarrow> string \<Rightarrow> logging \<Rightarrow> log_line list \<times> connector option \<times> int \<times> logging" where
  "connector_main open_file run from_current lg =
     (case init_log open_file Level_trace True True default_log_path lg of
        (Some x, lg) \<Rightarrow> ([main_catch from_current x], None, EXIT_SUCCESS, lg)
      | (None, lg) \<Rightarrow>
          ((case run of Some x \<Rightarrow> [main_catch from_current x] | None \<Rightarrow> []),
           Some (async_connect ip_list new_connector), EXIT_SUCCESS, lg))"

section \<open>Lemmas\<close>

lemma close_sockets_ok:
  "(\<And>j. j < length ss \<Longrightarrow> closing (i + j) = None) \<Longrightarrow>
     close_sockets closing i ss = (None, map (\<lambda>s. s\<lparr>cs_open := False\<rparr>) ss, map Socket_close [i ..< i + length ss])"
proof (induction ss arbitrary: i)
  case (Cons s ss)
  have "close_sockets closing (Suc i) ss
      = (None, map (\<lambda>s. s\<lparr>cs_open := False\<rparr>) ss, map Socket_close [Suc i ..< Suc i + length ss])"
    using Cons(2) [of "Suc _"] by (intro Cons(1)) simp
  moreover have "[i ..< Suc (i + length ss)] = i # [Suc i ..< Suc (i + length ss)]" by (rule upt_conv_Cons) simp
  ultimately show ?case using Cons(2) [of 0] by simp
qed simp

lemma close_sockets_throws:
  "k < length ss \<Longrightarrow> (\<And>j. j < k \<Longrightarrow> closing (i + j) = None) \<Longrightarrow> closing (i + k) = Some x \<Longrightarrow>
     close_sockets closing i ss =
       (Some x, map (\<lambda>s. s\<lparr>cs_open := False\<rparr>) (take (Suc k) ss) @ drop (Suc k) ss, map Socket_close [i ..< Suc (i + k)])"
proof (induction ss arbitrary: i k)
  case (Cons s ss)
  show ?case
  proof (cases k)
    case 0
    then show ?thesis using Cons(4) by simp
  next
    case (Suc k')
    have "close_sockets closing (Suc i) ss =
       (Some x, map (\<lambda>s. s\<lparr>cs_open := False\<rparr>) (take (Suc k') ss) @ drop (Suc k') ss, map Socket_close [Suc i ..< Suc (Suc i + k')])"
      using Cons(2-4) Suc by (intro Cons(1)) (use Cons(3) [of "Suc _"] in simp_all)
    moreover have "[i ..< Suc (Suc (i + k'))] = i # [Suc i ..< Suc (Suc (i + k'))]" by (rule upt_conv_Cons) simp
    ultimately show ?thesis using Cons(3) [of 0] Suc by simp
  qed
qed simp

text \<open>The attempts that have been started, the reports, and what the completions of a run were of.\<close>

fun started :: "connector_call list \<Rightarrow> attempt list" where
  "started [] = []"
| "started (Async_connect a # cs) = a # started cs"
| "started (c # cs) = started cs"

fun reports_made :: "connector_call list \<Rightarrow> log_line list" where
  "reports_made [] = []"
| "reports_made (Report l # cs) = l # reports_made cs"
| "reports_made (c # cs) = reports_made cs"

fun connected :: "connector_event list \<Rightarrow> attempt list" where
  "connected [] = []"
| "connected (Connect_done a ec texting now # es) = a # connected es"
| "connected (e # es) = connected es"

fun resolved :: "connector_event list \<Rightarrow> string list" where
  "resolved [] = []"
| "resolved (Resolve_done host ec results texting starting keeping now # es) = host # resolved es"
| "resolved (e # es) = resolved es"

fun is_timer :: "connector_event \<Rightarrow> bool" where
  "is_timer (Timer_done ec closing) = True" | "is_timer _ = False"

lemma started_append [simp]: "started (cs @ cs') = started cs @ started cs'"
  by (induction cs rule: started.induct) simp_all

lemma reports_append [simp]: "reports_made (cs @ cs') = reports_made cs @ reports_made cs'"
  by (induction cs rule: reports_made.induct) simp_all

lemma connected_append [simp]: "connected (es @ es') = connected es @ connected es'"
  by (induction es rule: connected.induct) simp_all

lemma resolved_append [simp]: "resolved (es @ es') = resolved es @ resolved es'"
  by (induction es rule: resolved.induct) simp_all

lemma start_connects_frame:
  "start_connects starting keeping now i eps st = (r, st') \<Longrightarrow>
     cx_stopped st' = cx_stopped st \<and> cx_timer_pending st' = cx_timer_pending st \<and> cx_resolving st' = cx_resolving st \<and>
     reports_made (cx_calls st') = reports_made (cx_calls st) \<and>
     (\<exists>as. cx_connecting st' = cx_connecting st @ as \<and> started (cx_calls st') = started (cx_calls st) @ as)"
  by (induction eps arbitrary: i st) (fastforce simp: cx_call_def Let_def split: option.splits)+

lemma start_connects_all:
  "(\<And>j. j < length eps \<Longrightarrow> starting (i + j) = None \<and> keeping (i + j) = None) \<Longrightarrow>
     fst (start_connects starting keeping now i eps st) = None \<and>
     map cs_endpoint (cx_sockets (snd (start_connects starting keeping now i eps st))) = map cs_endpoint (cx_sockets st) @ eps \<and>
     map snd (cx_connecting (snd (start_connects starting keeping now i eps st))) = map snd (cx_connecting st) @ eps"
proof (induction eps arbitrary: i st)
  case (Cons ep eps)
  let ?st = "(cx_call (Async_connect (now i, ep)) st)\<lparr>cx_connecting := cx_connecting st @ [(now i, ep)],
      cx_sockets := cx_sockets st @ [\<lparr>cs_endpoint = ep, cs_open = True\<rparr>]\<rparr>"
  have "starting i = None" "keeping i = None" using Cons(2) [of 0] by simp_all
  moreover have "fst (start_connects starting keeping now (Suc i) eps ?st) = None \<and>
     map cs_endpoint (cx_sockets (snd (start_connects starting keeping now (Suc i) eps ?st))) = map cs_endpoint (cx_sockets ?st) @ eps \<and>
     map snd (cx_connecting (snd (start_connects starting keeping now (Suc i) eps ?st))) = map snd (cx_connecting ?st) @ eps"
    using Cons(2) [of "Suc _"] by (intro Cons(1)) simp
  ultimately show ?case by (simp add: Let_def cx_call_def)
qed simp

lemma close_sockets_length: "close_sockets closing i ss = (r, ss', cs) \<Longrightarrow> length ss' = length ss"
  by (induction ss arbitrary: i r ss' cs) (auto split: option.splits prod.splits)

lemma close_sockets_none: "close_sockets closing i ss = (None, ss', cs) \<Longrightarrow> \<forall>s \<in> set ss'. \<not> cs_open s"
  by (induction ss arbitrary: i ss' cs) (auto split: option.splits prod.splits)

lemma close_sockets_calls:
  "close_sockets closing i ss = (r, ss', cs) \<Longrightarrow> started cs = [] \<and> reports_made cs = []"
  by (induction ss arbitrary: i r ss' cs) (auto split: option.splits prod.splits)

text \<open>What holds after every sequence \<open>es\<close> of completions.\<close>

definition connector_inv :: "string list \<Rightarrow> connector_event list \<Rightarrow> connector \<Rightarrow> bool" where
  "connector_inv eps es st \<longleftrightarrow>
     mset (started (cx_calls st)) = mset (cx_connecting st) + mset (connected es) \<and>
     mset eps = mset (cx_resolving st) + mset (resolved es) \<and>
     length (filter is_timer es) = (if cx_timer_pending st then 0 else 1) \<and>
     length (connected es) \<le> length (reports_made (cx_calls st)) \<and>
     (cx_stopped st \<longrightarrow> \<not> cx_timer_pending st \<and> (\<forall>s \<in> set (cx_sockets st). \<not> cs_open s))"

lemma connector_inv_begin: "connector_inv eps [] (async_connect eps new_connector)"
proof -
  let ?f = "\<lambda>st i. (cx_call (Async_resolve i ''80'') st)\<lparr>cx_resolving := cx_resolving st @ [i]\<rparr>"
  have "cx_connecting (foldl ?f st eps) = cx_connecting st \<and> started (cx_calls (foldl ?f st eps)) = started (cx_calls st) \<and>
      cx_timer_pending (foldl ?f st eps) = cx_timer_pending st \<and> cx_stopped (foldl ?f st eps) = cx_stopped st \<and>
      cx_resolving (foldl ?f st eps) = cx_resolving st @ eps" for st
    by (induction eps arbitrary: st) (simp_all add: cx_call_def)
  then show ?thesis by (simp add: connector_inv_def async_connect_def new_connector_def cx_call_def Let_def)
qed

lemma timer_handler_inv:
  assumes "connector_inv eps es st" and "cx_timer_pending st" and "\<not> cx_stopped st"
  shows "connector_inv eps (es @ [Timer_done ec closing]) (timer_handler closing ec (st\<lparr>cx_timer_pending := False\<rparr>))"
proof -
  obtain r ss cs where c: "close_sockets closing 0 (cx_sockets st) = (r, ss, cs)" by (metis prod_cases3)
  have "started cs = []" "reports_made cs = []" using close_sockets_calls [OF c] by simp_all
  moreover have "r = None \<longrightarrow> (\<forall>s \<in> set ss. \<not> cs_open s)" using c close_sockets_none by blast
  ultimately show ?thesis
    using assms c by (cases r) (auto simp: connector_inv_def timer_handler_def connector_catch_def cx_call_def Let_def)
qed

lemma connector_inv_report: "connector_inv eps es st \<Longrightarrow> connector_inv eps es (cx_call (Report l) st)"
  by (simp add: connector_inv_def cx_call_def)

lemma handle_resolve_inv:
  assumes "connector_inv eps es st" and "host \<in> set (cx_resolving st)" and "\<not> cx_stopped st"
  shows "connector_inv eps (es @ [Resolve_done host ec results texting starting keeping now])
    (handle_resolve message texting starting keeping now ec results host
      (st\<lparr>cx_resolving := remove1 host (cx_resolving st)\<rparr>))"
proof -
  let ?st = "st\<lparr>cx_resolving := remove1 host (cx_resolving st)\<rparr>"
    and ?es = "es @ [Resolve_done host ec results texting starting keeping now]"
  have "mset (cx_resolving st) = add_mset host (mset (remove1 host (cx_resolving st)))" using assms(2) by simp
  then have inv: "connector_inv eps ?es ?st" using assms(1,3) by (simp add: connector_inv_def)
  obtain r st' where s: "start_connects starting keeping now 0 results ?st = (r, st')" by fastforce
  have "connector_inv eps ?es st'" using start_connects_frame [OF s] inv assms(3) by (auto simp: connector_inv_def)
  then show ?thesis using s inv
    by (cases r; cases texting) (simp_all add: handle_resolve_def connector_catch_def connector_inv_report)
qed

lemma handle_connect_inv:
  assumes "connector_inv eps es st" and "(start, ep) \<in> set (cx_connecting st)" and "\<not> cx_stopped st"
  shows "connector_inv eps (es @ [Connect_done (start, ep) ec texting now])
    (handle_connect message texting ec start ep now (st\<lparr>cx_connecting := remove1 (start, ep) (cx_connecting st)\<rparr>))"
proof -
  have "mset (cx_connecting st) = add_mset (start, ep) (mset (remove1 (start, ep) (cx_connecting st)))" using assms(2) by simp
  then show ?thesis
    using assms(1,3) by (auto simp: connector_inv_def handle_connect_def connector_catch_def cx_call_def split: option.split)
qed

lemma connector_inv_run:
  "connector_run message (async_connect eps new_connector) es st \<Longrightarrow> connector_inv eps es st"
proof (induction rule: connector_run.induct)
  case run_nil
  then show ?case by (rule connector_inv_begin)
next
  case (run_snoc es st' e st'')
  from run_snoc(2) show ?case
    by cases (use run_snoc(3) timer_handler_inv handle_resolve_inv handle_connect_inv in auto)
qed

section \<open>Properties\<close>

text \<open>C13: when the time is up and every socket closes, all of them are closed in their order, the context is
  stopped after that, and no further handler runs.\<close>

theorem timeout_closes_everything:
  assumes "\<not> ec_failed ec" and "\<And>i. i < length (cx_sockets st) \<Longrightarrow> closing i = None"
  shows "timer_handler closing ec st = st\<lparr>
      cx_sockets := map (\<lambda>s. s\<lparr>cs_open := False\<rparr>) (cx_sockets st), cx_stopped := True,
      cx_calls := cx_calls st @ [Resolver_cancel] @ map Socket_close [0 ..< length (cx_sockets st)] @ [Context_stop]\<rparr> \<and>
    (\<forall>e st'. \<not> connector_step message (timer_handler closing ec st) e st')"
proof -
  have "timer_handler closing ec st = st\<lparr>
      cx_sockets := map (\<lambda>s. s\<lparr>cs_open := False\<rparr>) (cx_sockets st), cx_stopped := True,
      cx_calls := cx_calls st @ [Resolver_cancel] @ map Socket_close [0 ..< length (cx_sockets st)] @ [Context_stop]\<rparr>"
    using assms(1) close_sockets_ok [of "cx_sockets st" closing 0] assms(2)
    by (simp add: timer_handler_def cx_call_def Let_def)
  then show ?thesis by (auto elim: connector_stepE)
qed

definition sample_connector :: connector where
  "sample_connector = (async_connect [''a''] new_connector)\<lparr>cx_timer_pending := False, cx_connecting := [],
     cx_sockets := [\<lparr>cs_endpoint = \<lparr>ep_address = ''10.0.0.1'', ep_port = 80\<rparr>, cs_open = True\<rparr>,
                    \<lparr>cs_endpoint = \<lparr>ep_address = ''10.0.0.2'', ep_port = 80\<rparr>, cs_open = True\<rparr>]\<rparr>"

lemma timeout_closes_everything_witness:
  "map cs_open (cx_sockets (timer_handler (\<lambda>i. None) \<lparr>ec_value = 0, ec_category = System_category\<rparr> sample_connector)) = [False, False]"
  using timeout_closes_everything [of "\<lparr>ec_value = 0, ec_category = System_category\<rparr>" sample_connector "\<lambda>i. None" "\<lambda>ec. ''''"]
  by (simp add: ec_failed_def sample_connector_def)

text \<open>C22: but the exception of one \<^verbatim>\<open>close()\<close> leaves the whole handler: the sockets after it stay open and the
  context goes on, with nothing left that could stop it.\<close>

theorem close_failure_leaves_rest:
  assumes "\<not> ec_failed ec" and "k < length (cx_sockets st)" and "\<And>j. j < k \<Longrightarrow> closing j = None" and "closing k = Some x"
    and "\<not> cx_stopped st" and "\<not> cx_timer_pending st"
  shows "cx_sockets (timer_handler closing ec st) = map (\<lambda>s. s\<lparr>cs_open := False\<rparr>) (take (Suc k) (cx_sockets st)) @ drop (Suc k) (cx_sockets st) \<and>
    \<not> cx_stopped (timer_handler closing ec st) \<and>
    (\<forall>ec' closing' st'. \<not> connector_step message (timer_handler closing ec st) (Timer_done ec' closing') st')"
  using assms(1,5,6) close_sockets_throws [of k "cx_sockets st" closing 0 x] assms(2-4)
  by (simp add: timer_handler_def cx_call_def Let_def connector_step_timer)

lemma close_failure_leaves_rest_witness:
  "map cs_open (cx_sockets (timer_handler (\<lambda>i. if i = 0 then Some Other_exception else None)
     \<lparr>ec_value = 0, ec_category = System_category\<rparr> sample_connector)) = [False, True]"
  using close_failure_leaves_rest [of "\<lparr>ec_value = 0, ec_category = System_category\<rparr>" 0 sample_connector
      "\<lambda>i. if i = 0 then Some Other_exception else None" Other_exception "\<lambda>ec. ''''"]
  by (simp add: ec_failed_def sample_connector_def async_connect_def new_connector_def cx_call_def Let_def)

text \<open>A host that resolves gets one connection attempt for each of its addresses, in their order.\<close>

theorem resolved_host_connects_to_all:
  assumes "\<not> ec_failed ec" and "\<And>i. i < length results \<Longrightarrow> starting i = None \<and> keeping i = None"
  shows "map cs_endpoint (cx_sockets (handle_resolve message texting starting keeping now ec results host st))
      = map cs_endpoint (cx_sockets st) @ results \<and>
    map snd (cx_connecting (handle_resolve message texting starting keeping now ec results host st))
      = map snd (cx_connecting st) @ results"
  using assms(1) start_connects_all [of results starting 0 keeping now st] assms(2)
  by (auto simp: handle_resolve_def split: prod.split option.split)

text \<open>C10: no completion is lost or handled twice.  In every run, whatever fails on the way: the connection attempts that
  have been started are those that are pending and those whose handler has been called, each once; so are the hosts; every
  attempt handled has been reported; at most one timer completion is handled; and a stopped context has closed every
  socket.\<close>

theorem completions_accounted_for:
  assumes "connector_run message (async_connect eps new_connector) es st"
  shows "mset (started (cx_calls st)) = mset (cx_connecting st) + mset (connected es) \<and>
    mset eps = mset (cx_resolving st) + mset (resolved es) \<and>
    length (connected es) \<le> length (reports_made (cx_calls st)) \<and>
    length (filter is_timer es) = (if cx_timer_pending st then 0 else 1) \<and>
    (cx_stopped st \<longrightarrow> (\<forall>s \<in> set (cx_sockets st). \<not> cs_open s))"
  using connector_inv_run [OF assms] by (auto simp: connector_inv_def)

text \<open>The connection is started, but its socket is lost.\<close>

definition lost_socket_run :: "connector_event list" where
  "lost_socket_run =
     [Resolve_done ''a'' \<lparr>ec_value = 0, ec_category = System_category\<rparr> [\<lparr>ep_address = ''10.0.0.1'', ep_port = 80\<rparr>] None
        (\<lambda>i. None) (\<lambda>i. Some Other_exception) (\<lambda>i. 7),
      Connect_done (7, \<lparr>ep_address = ''10.0.0.1'', ep_port = 80\<rparr>) \<lparr>ec_value = 125, ec_category = System_category\<rparr> None 9]"

lemma lost_socket_runs:
  "\<exists>st. connector_run message (async_connect [''a''] new_connector) lost_socket_run st \<and> cx_sockets st = [] \<and>
     length (reports_made (cx_calls st)) = 2"
proof -
  let ?s = "async_connect [''a''] new_connector" and ?e = "\<lambda>k. lost_socket_run ! k" and ?ok = "\<lparr>ec_value = 0, ec_category = System_category\<rparr>"
  let ?ep = "\<lparr>ep_address = ''10.0.0.1'', ep_port = 80\<rparr>" and ?lost = "\<lambda>i::nat. Some Other_exception"
  let ?s1 = "handle_resolve message None (\<lambda>i. None) ?lost (\<lambda>i. 7) ?ok [?ep] ''a'' (?s\<lparr>cx_resolving := remove1 ''a'' (cx_resolving ?s)\<rparr>)"
  let ?s2 = "handle_connect message None \<lparr>ec_value = 125, ec_category = System_category\<rparr> 7 ?ep 9
    (?s1\<lparr>cx_connecting := remove1 (7, ?ep) (cx_connecting ?s1)\<rparr>)"
  note defs = async_connect_def new_connector_def cx_call_def Let_def ec_failed_def handle_resolve_def handle_connect_def
    connector_catch_def
  have "connector_step message ?s (?e 0) ?s1"
    unfolding lost_socket_run_def nth_Cons_0 by (rule connector_step.resolve) (simp_all add: defs)
  moreover have "connector_step message ?s1 (?e 1) ?s2"
    unfolding lost_socket_run_def One_nat_def nth_Cons_Suc nth_Cons_0 by (rule connector_step.connect) (simp_all add: defs)
  ultimately have "connector_run message ?s (([] @ [?e 0]) @ [?e 1]) ?s2"
    by (rule connector_run.run_snoc [OF connector_run.run_snoc [OF connector_run.run_nil]])
  moreover have "([] @ [?e 0]) @ [?e 1] = lost_socket_run" by (simp add: lost_socket_run_def)
  moreover have "cx_sockets ?s2 = []" "length (reports_made (cx_calls ?s2)) = 2" by (simp_all add: defs)
  ultimately show ?thesis by (intro exI [of _ ?s2]) (simp only: simp_thms)
qed

lemma completions_accounted_for_witness:
  "\<exists>st. connector_run (\<lambda>ec. '''') (async_connect [''a''] new_connector) lost_socket_run st \<and> cx_sockets st = [] \<and>
     mset (started (cx_calls st)) = mset (cx_connecting st) + {#(7, \<lparr>ep_address = ''10.0.0.1'', ep_port = 80\<rparr>)#}"
proof -
  obtain st where "connector_run (\<lambda>ec. '''') (async_connect [''a''] new_connector) lost_socket_run st" "cx_sockets st = []"
    using lost_socket_runs by blast
  then show ?thesis using completions_accounted_for [of "\<lambda>ec. ''''" "[''a'']" lost_socket_run st]
    by (auto simp: lost_socket_run_def)
qed

text \<open>C23: \<open>run_context\<close> cannot return before the timer has completed, even when every host is resolved and every
  connection made or failed long before: nothing cancels the timer.  When it returns without having been
  stopped, every host has been resolved and the handler of every attempt has been called.\<close>

theorem run_waits_for_timer:
  assumes "connector_run message (async_connect eps new_connector) es st" and "run_finished st"
  shows "\<exists>ec closing. Timer_done ec closing \<in> set es \<and>
    (cx_stopped st \<or> mset (connected es) = mset (started (cx_calls st)) \<and> mset (resolved es) = mset eps)"
proof -
  have inv: "connector_inv eps es st" by (rule connector_inv_run [OF assms(1)])
  then have "filter is_timer es \<noteq> []" using assms(2) by (auto simp: connector_inv_def run_finished_def)
  then obtain e where e: "e \<in> set es" "is_timer e" by (auto simp: filter_empty_conv)
  from e(2) obtain ec closing where "e = Timer_done ec closing" by (cases e) auto
  with e have "\<exists>ec closing. Timer_done ec closing \<in> set es" by blast
  then show ?thesis using inv assms(2) by (auto simp: connector_inv_def run_finished_def)
qed

text \<open>A run that ends by itself: the attempt is handled, and then the exception of \<^verbatim>\<open>close()\<close> keeps the context from being
  stopped.\<close>

definition finished_run :: "connector_event list" where
  "finished_run =
     [Resolve_done ''a'' \<lparr>ec_value = 0, ec_category = System_category\<rparr> [\<lparr>ep_address = ''10.0.0.1'', ep_port = 80\<rparr>] None
        (\<lambda>i. None) (\<lambda>i. None) (\<lambda>i. 7),
      Connect_done (7, \<lparr>ep_address = ''10.0.0.1'', ep_port = 80\<rparr>) \<lparr>ec_value = 0, ec_category = System_category\<rparr> None 9,
      Timer_done \<lparr>ec_value = 0, ec_category = System_category\<rparr> (\<lambda>i. Some Other_exception)]"

lemma finished_run_ends:
  "\<exists>st. connector_run message (async_connect [''a''] new_connector) finished_run st \<and> run_finished st \<and> \<not> cx_stopped st"
proof -
  let ?ok = "\<lparr>ec_value = 0, ec_category = System_category\<rparr>" and ?ep = "\<lparr>ep_address = ''10.0.0.1'', ep_port = 80\<rparr>"
  let ?s = "async_connect [''a''] new_connector" and ?none = "\<lambda>i::nat. None :: exn option"
  let ?s1 = "handle_resolve message None ?none ?none (\<lambda>i. 7) ?ok [?ep] ''a'' (?s\<lparr>cx_resolving := remove1 ''a'' (cx_resolving ?s)\<rparr>)"
  let ?s2 = "handle_connect message None ?ok 7 ?ep 9 (?s1\<lparr>cx_connecting := remove1 (7, ?ep) (cx_connecting ?s1)\<rparr>)"
  let ?s3 = "timer_handler (\<lambda>i. Some Other_exception) ?ok (?s2\<lparr>cx_timer_pending := False\<rparr>)"
  note defs = async_connect_def new_connector_def cx_call_def Let_def ec_failed_def handle_resolve_def handle_connect_def
    timer_handler_def
  have "connector_run message ?s ((([] @ [finished_run ! 0]) @ [finished_run ! 1]) @ [finished_run ! 2]) ?s3"
  proof (rule connector_run.run_snoc [OF connector_run.run_snoc [OF connector_run.run_snoc [OF connector_run.run_nil]]])
    show "connector_step message ?s (finished_run ! 0) ?s1"
      unfolding finished_run_def nth_Cons_0 by (rule connector_step.resolve) (simp_all add: defs)
    show "connector_step message ?s1 (finished_run ! 1) ?s2"
      unfolding finished_run_def One_nat_def nth_Cons_Suc nth_Cons_0 by (rule connector_step.connect) (simp_all add: defs)
    show "connector_step message ?s2 (finished_run ! 2) ?s3"
      unfolding finished_run_def numeral_2_eq_2 nth_Cons_Suc nth_Cons_0 by (rule connector_step.timer) (simp_all add: defs)
  qed
  moreover have "(([] @ [finished_run ! 0]) @ [finished_run ! 1]) @ [finished_run ! 2] = finished_run"
    by (simp add: finished_run_def)
  moreover have "run_finished ?s3" "\<not> cx_stopped ?s3" by (simp_all add: defs run_finished_def)
  ultimately show ?thesis by (intro exI [of _ ?s3]) (simp only: simp_thms)
qed

lemma run_waits_for_timer_witness:
  "\<exists>st. connector_run (\<lambda>ec. []) (async_connect [''a''] new_connector) finished_run st \<and> run_finished st \<and> \<not> cx_stopped st \<and>
     mset (started (cx_calls st)) = {#(7, \<lparr>ep_address = ''10.0.0.1'', ep_port = 80\<rparr>)#}"
proof -
  obtain st where st: "connector_run (\<lambda>ec. []) (async_connect [''a''] new_connector) finished_run st" "run_finished st"
    "\<not> cx_stopped st" using finished_run_ends by blast
  have "mset (connected finished_run) = mset (started (cx_calls st))"
    using run_waits_for_timer [OF st(1,2)] st(3) by blast
  then show ?thesis using st by (auto simp: finished_run_def)
qed

end
