(* ===== verification/Asio_result.thy ===== *)
theory Asio_result
  imports Util_error
begin

text \<open>
  \<^verbatim>\<open>util/asio_as_result.hpp\<close>: a completion token that hands the outcome of an asynchronous operation
  to the caller as one \<^verbatim>\<open>result\<close>, in place of an error code (or exception) and a value.

  Boost.Asio is not under \<^verbatim>\<open>src/\<close>: its \<^verbatim>\<open>async_initiate\<close> is an argument of the definitions, and a
  completion handler is what the adapter can see of it: a function on argument lists that changes
  a world of any type, and its associated executor, allocator and cancellation slot.
\<close>

section \<open>Types, values and handlers\<close>

text \<open>The types that the templates tell apart; \<open>Named_type\<close> is any other type.\<close>

datatype cpp_type =
    Void_type
  | Error_code_type
  | Error_code_cref
  | Exception_ptr_type
  | Named_type string
  | Result_type cpp_type cpp_type

text \<open>A \<^verbatim>\<open>std::exception_ptr\<close> is null or holds an exception.  \<open>Result T E c\<close> is a \<^verbatim>\<open>result<T, E>\<close> with
  the error \<open>Inl\<close> or the value \<open>Inr\<close>, which is absent when \<open>T\<close> is \<^verbatim>\<open>void\<close>.\<close>

datatype 'v cpp_value =
    Ec error_code
  | Ex "exn option"
  | Obj string 'v
  | Result cpp_type cpp_type "'v cpp_value + 'v cpp_value option"

fun type_of :: "'v cpp_value \<Rightarrow> cpp_type" where
  "type_of (Ec ec) = Error_code_type"
| "type_of (Ex ex) = Exception_ptr_type"
| "type_of (Obj n v) = Named_type n"
| "type_of (Result t e c) = Result_type t e"

text \<open>A cancellation slot that is connected: that of a timeout provider, or one of the caller.\<close>

datatype slot = Timeout_slot | Caller_slot nat

record ('v, 'w) handler =
  h_call :: "'v cpp_value list \<Rightarrow> 'w \<Rightarrow> 'w"
  h_executor :: "nat option"
  h_allocator :: "nat option"
  h_slot :: "slot option"
  h_continuation :: bool

text \<open>\<^verbatim>\<open>associated_executor<Handler, Executor>::get(h, ex)\<close> and its siblings for the handler of a token.\<close>

definition get_executor :: "('v, 'w) handler \<Rightarrow> nat \<Rightarrow> nat" where
  "get_executor h ex = (case h_executor h of Some e \<Rightarrow> e | None \<Rightarrow> ex)"

definition get_allocator :: "('v, 'w) handler \<Rightarrow> nat \<Rightarrow> nat" where
  "get_allocator h a = (case h_allocator h of Some b \<Rightarrow> b | None \<Rightarrow> a)"

section \<open>The adapter\<close>

record 'tok as_result_t =
  ar_token :: 'tok

definition as_result :: "'tok \<Rightarrow> 'tok as_result_t" where
  "as_result completion_token = \<lparr>ar_token = completion_token\<rparr>"

text \<open>The four \<^verbatim>\<open>operator()\<close>: the argument that \<^verbatim>\<open>handler_\<close> is called with; \<open>None\<close> where no overload
  applies.\<close>

fun outcome_result_args :: "'v cpp_value list \<Rightarrow> 'v cpp_value option" where
  "outcome_result_args [Ec ec] =
     Some (Result Void_type Error_code_type (if ec_failed ec then Inl (Ec ec) else Inr None))"
| "outcome_result_args [Ex ex] =
     Some (Result Void_type Exception_ptr_type (if ex \<noteq> None then Inl (Ex ex) else Inr None))"
| "outcome_result_args [Ec ec, t] =
     Some (Result (type_of t) Error_code_type (if ec_failed ec then Inl (Ec ec) else Inr (Some t)))"
| "outcome_result_args [Ex ex, t] =
     Some (Result (type_of t) Exception_ptr_type (if ex \<noteq> None then Inl (Ex ex) else Inr (Some t)))"
| "outcome_result_args _ = None"

text \<open>The hook and the associators of the adapter: its executor and its allocator are those of \<^verbatim>\<open>handler_\<close>,
  and so is the answer of \<^verbatim>\<open>asio_handler_is_continuation\<close>.\<close>

definition result_is_continuation :: "('v, 'w) handler \<Rightarrow> bool" where
  "result_is_continuation handler = h_continuation handler"

definition result_executor :: "('v, 'w) handler \<Rightarrow> nat option" where
  "result_executor handler = h_executor handler"

definition result_allocator :: "('v, 'w) handler \<Rightarrow> nat option" where
  "result_allocator handler = h_allocator handler"

text \<open>\<^verbatim>\<open>outcome_result_handler{handler}\<close>.  There is no associator for the cancellation slot, so that
  Boost.Asio's default applies: none.  A call that no overload takes does not compile; the model leaves
  the world as it is.\<close>

definition outcome_result_handler :: "('v, 'w) handler \<Rightarrow> ('v, 'w) handler" where
  "outcome_result_handler handler =
     \<lparr>h_call = (\<lambda>args w. case outcome_result_args args of Some r \<Rightarrow> h_call handler [r] w | None \<Rightarrow> w),
      h_executor = result_executor handler,
      h_allocator = result_allocator handler,
      h_slot = None,
      h_continuation = result_is_continuation handler\<rparr>"

text \<open>The specialisations of \<^verbatim>\<open>result_signature\<close>, on the argument types of a signature \<^verbatim>\<open>void(..)\<close>;
  \<open>None\<close> where the template is not defined.  The two for \<^verbatim>\<open>const error_code &\<close> inherit from those for
  \<^verbatim>\<open>error_code\<close>.\<close>

fun result_signature :: "cpp_type list \<Rightarrow> cpp_type list option" where
  "result_signature [Error_code_type] = Some [Result_type Void_type Error_code_type]"
| "result_signature [Error_code_cref] = Some [Result_type Void_type Error_code_type]"
| "result_signature [Exception_ptr_type] = Some [Result_type Void_type Exception_ptr_type]"
| "result_signature [Error_code_type, t] = Some [Result_type t Error_code_type]"
| "result_signature [Error_code_cref, t] = Some [Result_type t Error_code_type]"
| "result_signature [Exception_ptr_type, t] = Some [Result_type t Exception_ptr_type]"
| "result_signature _ = None"

text \<open>\<^verbatim>\<open>async_result<as_result_t<..>>::initiate\<close>: an initiation starts the operation for a handler and
  further arguments; the one passed on wraps the handler first.\<close>

type_synonym ('v, 'w, 'c) initiation = "('v, 'w) handler \<Rightarrow> 'c \<Rightarrow> 'w \<Rightarrow> 'w"

definition as_result_initiate ::
    "(('v, 'w, 'c) initiation \<Rightarrow> 'tok \<Rightarrow> 'c \<Rightarrow> 'w \<Rightarrow> 'w) \<Rightarrow>
     ('v, 'w, 'c) initiation \<Rightarrow> 'tok as_result_t \<Rightarrow> 'c \<Rightarrow> 'w \<Rightarrow> 'w" where
  "as_result_initiate async_initiate initiation token args =
     async_initiate (\<lambda>handler callArgs. initiation (outcome_result_handler handler) callArgs) (ar_token token) args"

section \<open>What every handler adapter owes its operation\<close>

text \<open>An adapter runs where the adapted handler runs and allocates as it does, and it calls the
  handler with arguments converted by \<open>conv\<close> after an effect \<open>pre\<close> of its own.\<close>

locale handler_adapter =
  fixes wrap :: "('v, 'w) handler \<Rightarrow> ('v, 'w) handler"
    and conv :: "'v cpp_value list \<Rightarrow> 'v cpp_value list option"
    and pre :: "'w \<Rightarrow> 'w"
  assumes executor: "h_executor (wrap h) = h_executor h"
    and allocator: "h_allocator (wrap h) = h_allocator h"
    and call: "conv args = Some args' \<Longrightarrow> h_call (wrap h) args w = h_call h args' (pre w)"
begin

lemma get_executor_wrap: "get_executor (wrap h) ex = get_executor h ex"
  by (simp add: get_executor_def executor)

lemma get_allocator_wrap: "get_allocator (wrap h) a = get_allocator h a"
  by (simp add: get_allocator_def allocator)

lemma executor_iterated: "h_executor ((wrap ^^ n) h) = h_executor h"
  by (induction n) (simp_all add: executor)

end

text \<open>Two adapters compose.\<close>

locale two_adapters = outer: handler_adapter wrap conv pre + inner: handler_adapter wrap' conv' pre'
  for wrap wrap' :: "('v, 'w) handler \<Rightarrow> ('v, 'w) handler" and conv conv' pre pre'
begin

lemma get_executor_both: "get_executor (wrap (wrap' h)) ex = get_executor h ex"
  by (simp add: outer.get_executor_wrap inner.get_executor_wrap)

lemma get_allocator_both: "get_allocator (wrap (wrap' h)) a = get_allocator h a"
  by (simp add: outer.get_allocator_wrap inner.get_allocator_wrap)

lemma call_both:
  "conv args = Some args1 \<Longrightarrow> conv' args1 = Some args2 \<Longrightarrow>
   h_call (wrap (wrap' h)) args w = h_call h args2 (pre' (pre w))"
  by (simp add: outer.call inner.call)

end

interpretation as_result_adapter: handler_adapter outcome_result_handler
    "\<lambda>args. map_option (\<lambda>r. [r]) (outcome_result_args args)" "\<lambda>w. w"
  by unfold_locales (auto simp: outcome_result_handler_def result_executor_def result_allocator_def)

section \<open>Properties\<close>

text \<open>What Boost.Asio may call a handler of a signature with.\<close>

fun passes :: "cpp_type \<Rightarrow> 'v cpp_value \<Rightarrow> bool" where
  "passes Error_code_cref v = (type_of v = Error_code_type)"
| "passes t v = (type_of v = t)"

lemma passes_iff: "passes t v \<longleftrightarrow> type_of v = (if t = Error_code_cref then Error_code_type else t)"
  by (cases t) auto

definition arguments :: "cpp_type list \<Rightarrow> 'v cpp_value list \<Rightarrow> bool" where
  "arguments ts vs \<longleftrightarrow> list_all2 passes ts vs"

text \<open>A result holds an error of its error type or a value of its value type, an error that is set.\<close>

fun well_formed_result :: "'v cpp_value \<Rightarrow> bool" where
  "well_formed_result (Result t e (Inl (Ec ec))) \<longleftrightarrow> e = Error_code_type \<and> ec_failed ec"
| "well_formed_result (Result t e (Inl (Ex ex))) \<longleftrightarrow> e = Exception_ptr_type \<and> ex \<noteq> None"
| "well_formed_result (Result t e (Inl _)) \<longleftrightarrow> False"
| "well_formed_result (Result t e (Inr None)) \<longleftrightarrow> t = Void_type"
| "well_formed_result (Result t e (Inr (Some v))) \<longleftrightarrow> type_of v = t"
| "well_formed_result _ \<longleftrightarrow> False"

lemma type_of_Error_code [simp]: "type_of v = Error_code_type \<longleftrightarrow> (\<exists>ec. v = Ec ec)"
  by (cases v) auto

lemma type_of_Exception_ptr [simp]: "type_of v = Exception_ptr_type \<longleftrightarrow> (\<exists>ex. v = Ex ex)"
  by (cases v) auto

text \<open>C11: the signature that the adapter announces is the one it keeps: for every signature with a
  \<^verbatim>\<open>result_signature\<close> whose value type is not a reference, any arguments of that signature select an overload, which calls the
  handler with one well-formed result of the announced type.\<close>

theorem as_result_type_preservation:
  assumes "result_signature sig = Some rs" and "Error_code_cref \<notin> set (tl sig)" and "arguments sig args"
  shows "\<exists>r. outcome_result_args args = Some r \<and> rs = [type_of r] \<and> well_formed_result r \<and>
    h_call (outcome_result_handler h) args w = h_call h [r] w"
  using assms
  by (cases sig rule: result_signature.cases)
    (auto simp: arguments_def list_all2_Cons1 passes_iff outcome_result_handler_def split: if_splits)


definition sample_handler :: "(nat, nat cpp_value list) handler" where
  "sample_handler = \<lparr>h_call = (\<lambda>args w. w @ args), h_executor = Some 7, h_allocator = None,
     h_slot = Some (Caller_slot 1), h_continuation = True\<rparr>"

lemma as_result_type_preservation_witness:
  "\<exists>r. outcome_result_args [Ec \<lparr>ec_value = 0, ec_category = System_category\<rparr>, Obj ''size_t'' (5 :: nat)] = Some r \<and>
     [Result_type (Named_type ''size_t'') Error_code_type] = [type_of r] \<and> well_formed_result r \<and>
     h_call (outcome_result_handler sample_handler)
       [Ec \<lparr>ec_value = 0, ec_category = System_category\<rparr>, Obj ''size_t'' 5] [] = h_call sample_handler [r] []"
  by (rule as_result_type_preservation [of "[Error_code_cref, Named_type ''size_t'']"])
    (simp_all add: arguments_def)

text \<open>The adapter is injective on what succeeds and forgetful on what fails: two completions with a
  value give the same result exactly when they are equal, or carry the same error and values of the
  same type; so the number of bytes transferred before an error is lost.\<close>

theorem as_result_forgets_on_error:
  "outcome_result_args [Ec ec, t] = outcome_result_args [Ec ec', t'] \<longleftrightarrow>
     type_of t = type_of t' \<and>
     (if ec_failed ec then ec' = ec else \<not> ec_failed ec' \<and> t = t')"
  by auto

text \<open>A token cannot be adapted twice: no announced signature has a \<^verbatim>\<open>result_signature\<close>.\<close>

theorem as_result_not_nested:
  assumes "result_signature sig = Some rs"
  shows "result_signature rs = None"
  using assms by (cases sig rule: result_signature.cases) auto

lemma as_result_not_nested_witness:
  "result_signature [Result_type Void_type Error_code_type] = None"
  by (rule as_result_not_nested [of "[Error_code_type]"]) simp

text \<open>when the token's own \<^verbatim>\<open>async_initiate\<close> starts the operation with the handler of the token, an
  operation started with \<^verbatim>\<open>as_result(token)\<close> that completes with arguments the adapter takes calls that
  handler once, with the result, and where it asks for an executor or an allocator it gets the
  handler's own.\<close>

theorem as_result_operation:
  assumes "\<And>init tok args w. async_initiate init tok args w = init (handler_of tok) args w"
    and "outcome_result_args completion = Some r"
  shows "as_result_initiate async_initiate (\<lambda>h args w. h_call h completion w) (as_result tok) args w
      = h_call (handler_of tok) [r] w \<and>
    as_result_initiate async_initiate (\<lambda>h args w. use (get_executor h ex) (get_allocator h al) w) (as_result tok) args w
      = use (get_executor (handler_of tok) ex) (get_allocator (handler_of tok) al) w"
  by (simp add: as_result_initiate_def as_result_def assms as_result_adapter.call
      as_result_adapter.get_executor_wrap as_result_adapter.get_allocator_wrap)

lemma as_result_operation_witness:
  "as_result_initiate (\<lambda>init tok. init tok) (\<lambda>h args w. h_call h [Ec \<lparr>ec_value = 2, ec_category = Asio_misc_category\<rparr>, Obj ''size_t'' 9] w)
      (as_result sample_handler) () []
     = [Result (Named_type ''size_t'') Error_code_type (Inl (Ec \<lparr>ec_value = 2, ec_category = Asio_misc_category\<rparr>))]"
  using as_result_operation [of "\<lambda>init tok. init tok" "\<lambda>tok. tok"
      "[Ec \<lparr>ec_value = 2, ec_category = Asio_misc_category\<rparr>, Obj ''size_t'' 9]" _ sample_handler "()" "[]"]
  by (simp add: ec_failed_def sample_handler_def)

end
