(* ===== verification/Asio_timeout.thy ===== *)
theory Asio_timeout
  imports Asio_result
begin

text \<open>
  \<^verbatim>\<open>util/asio_timeout.hpp\<close>: a completion token that gives an asynchronous operation a time limit.  When the
  timer runs out, the operation is asked to cancel itself, first \<open>total\<close>, then \<open>partial\<close>, then \<open>terminal\<close>,
  with a time limit each, or \<open>all\<close> at once.

  The state is that of one \<^verbatim>\<open>timeout_provider\<close> together with what Boost.Asio has been asked to do for it:
  the calls made so far in their order, the waits on the timer that have not completed, and the slots
  that the provider's own handler is assigned to.  What Boost.Asio does is not defined: it is a sequence
  of \<^emph>\<open>events\<close>, and a wait may complete at any time, with any error code (even after the timer was
  cancelled, since a completion that is already queued cannot be recalled).
\<close>

section \<open>The provider\<close>

datatype cancellation_type = Cancel_none | Cancel_terminal | Cancel_partial | Cancel_total | Cancel_all

text \<open>The order in which the provider escalates.\<close>

fun escalation_rank :: "cancellation_type \<Rightarrow> nat" where
  "escalation_rank Cancel_none = 0" | "escalation_rank Cancel_total = 1" | "escalation_rank Cancel_partial = 2"
| "escalation_rank Cancel_terminal = 3" | "escalation_rank Cancel_all = 4"

lemma escalation_rank_inj: "escalation_rank a = escalation_rank b \<longleftrightarrow> a = b"
  by (cases a; cases b) simp_all

instantiation cancellation_type :: linorder
begin

definition less_eq_cancellation_type :: "cancellation_type \<Rightarrow> cancellation_type \<Rightarrow> bool" where
  "less_eq_cancellation_type a b \<longleftrightarrow> escalation_rank a \<le> escalation_rank b"

definition less_cancellation_type :: "cancellation_type \<Rightarrow> cancellation_type \<Rightarrow> bool" where
  "less_cancellation_type a b \<longleftrightarrow> escalation_rank a < escalation_rank b"

instance
  by standard (auto simp: less_eq_cancellation_type_def less_cancellation_type_def escalation_rank_inj)

end

text \<open>The three lambdas that wait on the timer.\<close>

datatype wait = Wait_total | Wait_partial | Wait_terminal

text \<open>The two places that emit: the handler of the parent slot and the \<open>fire_\<close> functions.\<close>

datatype site = From_parent | From_timer

datatype asio_call =
    Expires_at_max
  | Expires_after int
  | Async_wait wait
  | Timer_cancel
  | Emit site cancellation_type
  | Parent_assign slot
  | Parent_clear slot
  | Handler_called
  | Destroyed

record tmo =
  tt_total :: int
  tt_partial :: int
  tt_terminal :: int
  emit_all :: bool
  parent :: "slot option"
  last_fired :: cancellation_type
  pending :: "wait list"
  assigned :: "slot list"
  op_running :: bool
  alive :: bool
  calls :: "asio_call list"

definition do_call :: "asio_call \<Rightarrow> tmo \<Rightarrow> tmo" where
  "do_call c s = s\<lparr>calls := calls s @ [c]\<rparr>"

definition emit :: "site \<Rightarrow> cancellation_type \<Rightarrow> tmo \<Rightarrow> tmo" where
  "emit site ct s = do_call (Emit site ct) s"

definition expires_after :: "int \<Rightarrow> tmo \<Rightarrow> tmo" where
  "expires_after d s = do_call (Expires_after d) s"

definition async_wait :: "wait \<Rightarrow> tmo \<Rightarrow> tmo" where
  "async_wait w s = (do_call (Async_wait w) s)\<lparr>pending := pending s @ [w]\<rparr>"

definition parent_assign :: "slot \<Rightarrow> tmo \<Rightarrow> tmo" where
  "parent_assign sl s = (do_call (Parent_assign sl) s)\<lparr>assigned := sl # assigned s\<rparr>"

definition parent_clear :: "slot \<Rightarrow> tmo \<Rightarrow> tmo" where
  "parent_clear sl s = (do_call (Parent_clear sl) s)\<lparr>assigned := filter (\<lambda>x. x \<noteq> sl) (assigned s)\<rparr>"

text \<open>The two constructors.\<close>

definition timeout_provider :: "int \<Rightarrow> int \<Rightarrow> int \<Rightarrow> tmo" where
  "timeout_provider d_total d_partial d_terminal =
     \<lparr>tt_total = d_total, tt_partial = d_partial, tt_terminal = d_terminal, emit_all = False,
      parent = None, last_fired = Cancel_none, pending = [], assigned = [], op_running = False, alive = True,
      calls = [Expires_at_max]\<rparr>"

definition timeout_provider_all :: "int \<Rightarrow> tmo" where
  "timeout_provider_all d_total =
     \<lparr>tt_total = d_total, tt_partial = 0, tt_terminal = 0, emit_all = True,
      parent = None, last_fired = Cancel_none, pending = [], assigned = [], op_running = False, alive = True,
      calls = [Expires_at_max]\<rparr>"

definition timeout_provider_destroy :: "tmo \<Rightarrow> tmo" where
  "timeout_provider_destroy s =
     (let s = (case parent s of Some sl \<Rightarrow> parent_clear sl s | None \<Rightarrow> s)
      in (do_call Destroyed s)\<lparr>alive := False\<rparr>)"

definition fire_total :: "tmo \<Rightarrow> tmo" where
  "fire_total s =
     (let s = emit From_timer Cancel_total (s\<lparr>last_fired := Cancel_total\<rparr>);
          s = expires_after (tt_partial s) s
      in async_wait Wait_partial s)"

definition fire_partial :: "tmo \<Rightarrow> tmo" where
  "fire_partial s =
     (let s = emit From_timer Cancel_partial (s\<lparr>last_fired := Cancel_partial\<rparr>);
          s = expires_after (tt_terminal s) s
      in async_wait Wait_terminal s)"

definition fire_terminal :: "tmo \<Rightarrow> tmo" where
  "fire_terminal s = emit From_timer Cancel_terminal (s\<lparr>last_fired := Cancel_terminal\<rparr>)"

definition fire_all :: "tmo \<Rightarrow> tmo" where
  "fire_all s = emit From_timer Cancel_all (s\<lparr>last_fired := Cancel_all\<rparr>)"

definition arm :: "tmo \<Rightarrow> tmo" where
  "arm s =
     (let s = s\<lparr>last_fired := Cancel_none\<rparr>;
          s = expires_after (tt_total s) s;
          s = (case parent s of Some sl \<Rightarrow> parent_assign sl s | None \<Rightarrow> s)
      in async_wait Wait_total s)"

text \<open>The lambda that \<open>arm\<close> assigns to the parent slot.\<close>

definition parent_handler :: "cancellation_type \<Rightarrow> tmo \<Rightarrow> tmo" where
  "parent_handler ct s = emit From_parent ct s"

text \<open>The body of the lambda that waits, called with \<open>ec\<close>.\<close>

fun wait_handler :: "wait \<Rightarrow> error_code \<Rightarrow> tmo \<Rightarrow> tmo" where
  "wait_handler Wait_total ec s =
     (if \<not> ec_failed ec then (if emit_all s then fire_all s else fire_total s) else s)"
| "wait_handler Wait_partial ec s = (if \<not> ec_failed ec then fire_partial s else s)"
| "wait_handler Wait_terminal ec s = (if \<not> ec_failed ec then fire_terminal s else s)"

section \<open>The token\<close>

text \<open>The provider that a token points to is the one of the world.\<close>

record 'tok with_timeout =
  wt_token :: 'tok

definition timeout_token :: "'tok \<Rightarrow> 'tok with_timeout" where
  "timeout_token token = \<lparr>wt_token = token\<rparr>"

text \<open>The associators: all are forwarded to the handler of the binder except the cancellation slot, which
  is that of the provider's signal.\<close>

definition binder_associator :: "(('v, tmo) handler \<Rightarrow> 'a) \<Rightarrow> ('v, tmo) handler \<Rightarrow> 'a" where
  "binder_associator get b_handler = get b_handler"

definition binder_cancellation_slot :: "slot option" where
  "binder_cancellation_slot = Some Timeout_slot"

text \<open>\<^verbatim>\<open>with_timeout_binder{provider, handler}\<close>.  It has no \<^verbatim>\<open>asio_handler_is_continuation\<close>, whose default is false.\<close>

definition with_timeout_binder :: "('v, tmo) handler \<Rightarrow> ('v, tmo) handler" where
  "with_timeout_binder handler =
     \<lparr>h_call = (\<lambda>args s. h_call handler args (do_call Timer_cancel s)),
      h_executor = binder_associator h_executor handler,
      h_allocator = binder_associator h_allocator handler,
      h_slot = binder_cancellation_slot,
      h_continuation = False\<rparr>"

definition init_wrapper :: "('v, tmo, 'c) initiation \<Rightarrow> ('v, tmo, 'c) initiation" where
  "init_wrapper initiation handler args s =
     (let s = (case h_slot handler of Some sl \<Rightarrow> s\<lparr>parent := Some sl\<rparr> | None \<Rightarrow> s)
      in initiation (with_timeout_binder handler) args (arm s))"

definition with_timeout_initiate ::
    "(('v, tmo, 'c) initiation \<Rightarrow> 'tok \<Rightarrow> 'c \<Rightarrow> tmo \<Rightarrow> tmo) \<Rightarrow>
     ('v, tmo, 'c) initiation \<Rightarrow> 'tok with_timeout \<Rightarrow> 'c \<Rightarrow> tmo \<Rightarrow> tmo" where
  "with_timeout_initiate inner_initiate init token args =
     inner_initiate (init_wrapper init) (wt_token token) args"

interpretation timeout_adapter: handler_adapter with_timeout_binder Some "do_call Timer_cancel"
  by unfold_locales (auto simp: with_timeout_binder_def binder_associator_def)

interpretation timeout_of_result: two_adapters with_timeout_binder outcome_result_handler
    Some "\<lambda>args. map_option (\<lambda>r. [r]) (outcome_result_args args)" "do_call Timer_cancel" "\<lambda>w. w"
  by unfold_locales

interpretation result_of_timeout: two_adapters outcome_result_handler with_timeout_binder
    "\<lambda>args. map_option (\<lambda>r. [r]) (outcome_result_args args)" Some "\<lambda>w. w" "do_call Timer_cancel"
  by unfold_locales

section \<open>Operations\<close>

text \<open>The operation under a time limit, and the handler at the end of it: what they do is recorded.\<close>

definition start_op :: "('v, tmo, 'c) initiation" where
  "start_op h args s = s\<lparr>op_running := True\<rparr>"

definition user_handler :: "slot option \<Rightarrow> ('v, tmo) handler" where
  "user_handler sl = \<lparr>h_call = (\<lambda>args s. do_call Handler_called s), h_executor = None, h_allocator = None,
     h_slot = sl, h_continuation = False\<rparr>"

lemmas call_defs = do_call_def emit_def expires_after_def async_wait_def parent_assign_def parent_clear_def
  parent_handler_def fire_total_def fire_partial_def fire_terminal_def fire_all_def arm_def
  timeout_provider_destroy_def with_timeout_binder_def user_handler_def Let_def

section \<open>Properties\<close>

text \<open>C12: the order of the two adapters matters.  With \<open>timeout(as_result(token))\<close> the operation gets the slot of
  the time limit, but the caller's slot is lost, so that no cancellation by the caller is forwarded;
  with \<open>as_result(timeout(token))\<close> the caller's slot is found, but the operation gets no slot and is never
  cancelled, by the time limit or by the caller.  Executor and arguments are the same in both.\<close>

theorem adapter_order:
  assumes "\<And>init tok args w. async_initiate init tok args w = init (handler_of tok) args w"
  shows "\<exists>h1 h2.
    with_timeout_initiate (as_result_initiate async_initiate) op (timeout_token (as_result tok)) args p
      = op h1 args (arm p) \<and> h_slot h1 = Some Timeout_slot \<and>
    as_result_initiate (with_timeout_initiate async_initiate) op (as_result (timeout_token tok)) args p
      = op h2 args (arm (case h_slot (handler_of tok) of Some sl \<Rightarrow> p\<lparr>parent := Some sl\<rparr> | None \<Rightarrow> p)) \<and> h_slot h2 = None \<and>
    (\<forall>ex. get_executor h1 ex = get_executor (handler_of tok) ex \<and> get_executor h2 ex = get_executor (handler_of tok) ex) \<and>
    (\<forall>completion r s. outcome_result_args completion = Some r \<longrightarrow>
       h_call h1 completion s = h_call (handler_of tok) [r] (do_call Timer_cancel s) \<and>
       h_call h2 completion s = h_call (handler_of tok) [r] (do_call Timer_cancel s))"
proof (intro exI conjI)
  let ?h1 = "with_timeout_binder (outcome_result_handler (handler_of tok))"
  let ?h2 = "outcome_result_handler (with_timeout_binder (handler_of tok))"
  show "with_timeout_initiate (as_result_initiate async_initiate) op (timeout_token (as_result tok)) args p = op ?h1 args (arm p)"
    by (simp add: with_timeout_initiate_def as_result_initiate_def assms timeout_token_def as_result_def init_wrapper_def
        outcome_result_handler_def)
  show "as_result_initiate (with_timeout_initiate async_initiate) op (as_result (timeout_token tok)) args p
      = op ?h2 args (arm (case h_slot (handler_of tok) of Some sl \<Rightarrow> p\<lparr>parent := Some sl\<rparr> | None \<Rightarrow> p))"
    by (simp add: with_timeout_initiate_def as_result_initiate_def assms timeout_token_def as_result_def init_wrapper_def)
  show "\<forall>ex. get_executor ?h1 ex = get_executor (handler_of tok) ex \<and> get_executor ?h2 ex = get_executor (handler_of tok) ex"
    by (simp add: timeout_of_result.get_executor_both result_of_timeout.get_executor_both)
  show "\<forall>completion r s. outcome_result_args completion = Some r \<longrightarrow>
       h_call ?h1 completion s = h_call (handler_of tok) [r] (do_call Timer_cancel s) \<and>
       h_call ?h2 completion s = h_call (handler_of tok) [r] (do_call Timer_cancel s)"
    by (simp add: timeout_of_result.call_both result_of_timeout.call_both)
qed (simp_all add: with_timeout_binder_def binder_cancellation_slot_def outcome_result_handler_def)

lemma adapter_order_witness:
  "\<exists>(h1 :: (unit, tmo) handler) (h2 :: (unit, tmo) handler). h_slot h1 = Some Timeout_slot \<and> h_slot h2 = None \<and>
     (\<forall>ex. get_executor h1 ex = get_executor (user_handler (Some (Caller_slot 1)) :: (unit, tmo) handler) ex \<and>
           get_executor h2 ex = get_executor (user_handler (Some (Caller_slot 1)) :: (unit, tmo) handler) ex)"
  using adapter_order [of "\<lambda>init tok. init tok" "\<lambda>tok. tok" start_op "user_handler (Some (Caller_slot 1)) :: (unit, tmo) handler"
      "()" "timeout_provider 3000 0 0", OF refl]
  by blast

end
