(* ===== verification/Timeout_runs.thy ===== *)
theory Timeout_runs
  imports Asio_timeout Runs
begin

text \<open>
  What a \<^verbatim>\<open>timeout_provider\<close> of \<^verbatim>\<open>util/asio_timeout.hpp\<close> does while operations run under it, whatever order the
  completions, the cancellations by the caller and the end of the operation come in.
\<close>

section \<open>Steps and runs\<close>

text \<open>What may happen once the operation is under way: a wait completes, the caller's signal emits to a
  slot that the provider is assigned to, the operation completes, and after that the provider is
  destroyed.\<close>

datatype event =
    Wait_done wait error_code
  | Parent_emits slot cancellation_type
  | Op_done
  | Destroy

inductive tstep :: "tmo \<Rightarrow> event \<Rightarrow> tmo \<Rightarrow> bool" where
  wait_done: "w \<in> set (pending s) \<Longrightarrow>
     tstep s (Wait_done w ec) (wait_handler w ec (s\<lparr>pending := remove1 w (pending s)\<rparr>))"
| parent_emits: "sl \<in> set (assigned s) \<Longrightarrow> tstep s (Parent_emits sl ct) (parent_handler ct s)"
| op_done: "op_running s \<Longrightarrow>
     tstep s Op_done (h_call (with_timeout_binder (user_handler None :: (unit, tmo) handler)) [] (s\<lparr>op_running := False\<rparr>))"
| destroyed: "\<not> op_running s \<Longrightarrow> alive s \<Longrightarrow> tstep s Destroy (timeout_provider_destroy s)"

inductive_simps tstep_simps: "tstep s (Wait_done w ec) t" "tstep s (Parent_emits sl ct) t" "tstep s Op_done t" "tstep s Destroy t"
inductive_cases tstepE: "tstep s e t"

abbreviation trun :: "tmo \<Rightarrow> event list \<Rightarrow> tmo \<Rightarrow> bool" where
  "trun \<equiv> runs tstep"

text \<open>The same steps as a function.\<close>

fun timeout_step :: "tmo \<Rightarrow> event \<Rightarrow> tmo option" where
  "timeout_step s (Wait_done w ec) =
     (if w \<in> set (pending s) then Some (wait_handler w ec (s\<lparr>pending := remove1 w (pending s)\<rparr>)) else None)"
| "timeout_step s (Parent_emits sl ct) = (if sl \<in> set (assigned s) then Some (parent_handler ct s) else None)"
| "timeout_step s Op_done =
     (if op_running s
      then Some (h_call (with_timeout_binder (user_handler None :: (unit, tmo) handler)) [] (s\<lparr>op_running := False\<rparr>))
      else None)"
| "timeout_step s Destroy = (if \<not> op_running s \<and> alive s then Some (timeout_provider_destroy s) else None)"

lemma tstep_iff: "tstep s e t \<longleftrightarrow> timeout_step s e = Some t"
  by (cases e) (auto simp: tstep_simps)

lemmas trun_run = runs_run [OF tstep_iff]

text \<open>The start of an operation with a token whose handler has the cancellation slot \<open>sl\<close>.\<close>

definition begin_op :: "slot option \<Rightarrow> tmo \<Rightarrow> tmo" where
  "begin_op sl p =
     with_timeout_initiate (\<lambda>init tok. init tok) (start_op :: (unit, tmo, unit) initiation) (timeout_token (user_handler sl)) () p"

lemma begin_op_eq:
  "begin_op sl p = (arm (case sl of Some x \<Rightarrow> p\<lparr>parent := Some x\<rparr> | None \<Rightarrow> p))\<lparr>op_running := True\<rparr>"
  by (simp add: begin_op_def with_timeout_initiate_def timeout_token_def init_wrapper_def start_op_def user_handler_def
      split: option.split)

section \<open>The escalation\<close>

text \<open>The calls that the time limit is about, stage by stage, and what the provider remembers after each
  stage.\<close>

fun timer_call :: "asio_call \<Rightarrow> bool" where
  "timer_call (Expires_after d) = True" | "timer_call (Async_wait w) = True"
| "timer_call (Emit From_timer ct) = True" | "timer_call _ = False"

definition stages :: "tmo \<Rightarrow> asio_call list list" where
  "stages p =
     (if emit_all p then [[Expires_after (tt_total p), Async_wait Wait_total], [Emit From_timer Cancel_all]]
      else [[Expires_after (tt_total p), Async_wait Wait_total],
            [Emit From_timer Cancel_total, Expires_after (tt_partial p), Async_wait Wait_partial],
            [Emit From_timer Cancel_partial, Expires_after (tt_terminal p), Async_wait Wait_terminal],
            [Emit From_timer Cancel_terminal]])"

definition stage_fired :: "tmo \<Rightarrow> cancellation_type list" where
  "stage_fired p = (if emit_all p then [Cancel_none, Cancel_all]
     else [Cancel_none, Cancel_total, Cancel_partial, Cancel_terminal])"

definition stage_wait :: "tmo \<Rightarrow> wait list list" where
  "stage_wait p = (if emit_all p then [[Wait_total], []] else [[Wait_total], [Wait_partial], [Wait_terminal], []])"

text \<open>After \<open>k\<close> escalations of an operation; \<open>base\<close> are the timer calls of earlier operations under the
  same provider.\<close>

definition at_stage :: "asio_call list \<Rightarrow> tmo \<Rightarrow> nat \<Rightarrow> tmo \<Rightarrow> bool" where
  "at_stage base p k s \<longleftrightarrow> k < length (stages p) \<and>
     emit_all s = emit_all p \<and> tt_total s = tt_total p \<and> tt_partial s = tt_partial p \<and> tt_terminal s = tt_terminal p \<and>
     filter timer_call (calls s) = base @ concat (take (Suc k) (stages p)) \<and>
     last_fired s = stage_fired p ! k \<and> (pending s = stage_wait p ! k \<or> pending s = [])"

lemma at_stage_begin:
  assumes "pending p = []"
  shows "at_stage (filter timer_call (calls p)) p 0 (begin_op sl p)"
  using assms
  by (auto simp: at_stage_def begin_op_eq call_defs stages_def stage_fired_def stage_wait_def split: option.split)

lemma at_stage_wait:
  assumes "at_stage base p k s" and "w \<in> set (pending s)"
  obtains "pending s = [w]" and "w = Wait_total" and "k = 0"
  | "pending s = [w]" and "\<not> emit_all p" and "w = Wait_partial" and "k = Suc 0"
  | "pending s = [w]" and "\<not> emit_all p" and "w = Wait_terminal" and "k = Suc (Suc 0)"
proof -
  have k: "pending s = stage_wait p ! k" "k < length (stages p)" using assms by (auto simp: at_stage_def)
  show thesis
  proof (cases "emit_all p")
    case True
    then have "k = 0 \<or> k = Suc 0" using k(2) by (auto simp: stages_def)
    then show thesis using k(1) assms(2) that(1) True by (auto simp: stage_wait_def)
  next
    case False
    then have "k = 0 \<or> k = Suc 0 \<or> k = Suc (Suc 0) \<or> k = Suc (Suc (Suc 0))" using k(2) by (auto simp: stages_def)
    then show thesis using k(1) assms(2) that False by (auto simp: stage_wait_def)
  qed
qed

lemma wait_failed: "ec_failed ec \<Longrightarrow> wait_handler w ec s = s"
  by (cases w) simp_all

lemma at_stage_fire:
  assumes "at_stage base p k s" and "w \<in> set (pending s)" and "\<not> ec_failed ec"
  shows "at_stage base p (Suc k) (wait_handler w ec (s\<lparr>pending := remove1 w (pending s)\<rparr>))"
  using assms(1,2)
proof (cases rule: at_stage_wait)
  case 1
  then show ?thesis using assms(1,3)
    by (cases "emit_all p") (simp_all add: at_stage_def stages_def stage_fired_def stage_wait_def call_defs)
qed (use assms(1,3) in \<open>simp_all add: at_stage_def stages_def stage_fired_def stage_wait_def call_defs\<close>)

lemma at_stage_frame:
  assumes "at_stage base p k s" and "emit_all t = emit_all s" and "tt_total t = tt_total s"
    and "tt_partial t = tt_partial s" and "tt_terminal t = tt_terminal s"
    and "filter timer_call (calls t) = filter timer_call (calls s)" and "last_fired t = last_fired s"
    and "pending t = pending s \<or> pending t = []"
  shows "at_stage base p k t"
  using assms by (auto simp: at_stage_def)

lemma at_stage_step:
  assumes "at_stage base p k s" and "tstep s e t"
  shows "at_stage base p k t \<or> at_stage base p (Suc k) t"
  using assms(2)
proof cases
  case (wait_done w ec)
  show ?thesis
  proof (cases "ec_failed ec")
    case True
    have "pending s = [w]" using at_stage_wait [OF assms(1) wait_done(3)] by metis
    then show ?thesis
      using wait_done(2) at_stage_frame [OF assms(1), of t] by (simp add: wait_failed [OF True])
  next
    case False
    then show ?thesis using at_stage_fire [OF assms(1) wait_done(3) False] wait_done(2) by simp
  qed
next
  case (parent_emits sl ct)
  then show ?thesis by (intro disjI1 at_stage_frame [OF assms(1)]) (simp_all add: call_defs)
next
  case op_done
  then show ?thesis by (intro disjI1 at_stage_frame [OF assms(1)]) (simp_all add: call_defs)
next
  case destroyed
  then show ?thesis by (intro disjI1 at_stage_frame [OF assms(1)]) (simp_all add: call_defs split: option.split)
qed

text \<open>What was asked for last never becomes weaker.\<close>

lemma stage_fired_mono: "Suc k < length (stage_fired p) \<Longrightarrow> stage_fired p ! k \<le> stage_fired p ! Suc k"
  by (auto simp: stage_fired_def less_eq_cancellation_type_def less_Suc_eq split: if_splits)

lemma last_fired_mono:
  assumes "at_stage base p k s" and "tstep s e t"
  shows "last_fired s \<le> last_fired t"
proof -
  have len: "length (stages p) = length (stage_fired p)" by (simp add: stages_def stage_fired_def)
  from at_stage_step [OF assms] show ?thesis
  proof
    assume "at_stage base p k t"
    then show ?thesis using assms(1) by (simp add: at_stage_def)
  next
    assume "at_stage base p (Suc k) t"
    then show ?thesis using assms(1) stage_fired_mono [of k p] len by (simp add: at_stage_def)
  qed
qed

interpretation staged: run_invariant timeout_step "\<lambda>s. \<exists>k. at_stage base p k s" for base p
proof
  fix s e t
  assume "\<exists>k. at_stage base p k s" and "timeout_step s e = Some t"
  then show "\<exists>k. at_stage base p k t" using at_stage_step unfolding tstep_iff by blast
qed

lemma at_stage_run:
  assumes "trun (begin_op sl p) es s" and "pending p = []"
  obtains k where "at_stage (filter timer_call (calls p)) p k s"
  using staged.run_preserves [of _ p "begin_op sl p" es s] at_stage_begin [OF assms(2)] assms(1)
  unfolding trun_run by blast

section \<open>The parent, the handler and the end\<close>

lemma wait_handler_frame [simp]:
  "parent (wait_handler w ec s) = parent s" "assigned (wait_handler w ec s) = assigned s"
  "alive (wait_handler w ec s) = alive s" "op_running (wait_handler w ec s) = op_running s"
  by (cases w; simp add: call_defs)+

fun end_call :: "asio_call \<Rightarrow> bool" where
  "end_call Timer_cancel = True" | "end_call Handler_called = True" | "end_call Destroyed = True" | "end_call _ = False"

lemma wait_handler_end_calls [simp]: "filter end_call (calls (wait_handler w ec s)) = filter end_call (calls s)"
  by (cases w) (simp_all add: call_defs)

text \<open>What the provider's handler is assigned to, for an operation whose caller has the slot \<open>sl\<close>.\<close>

definition parent_inv :: "slot option \<Rightarrow> tmo \<Rightarrow> bool" where
  "parent_inv sl s \<longleftrightarrow> parent s = sl \<and> set (assigned s) = (if alive s then set_option sl else {})"

interpretation parented: run_invariant timeout_step "parent_inv sl" for sl
proof
  fix s e t
  assume inv: "parent_inv sl s" and "timeout_step s e = Some t"
  then have "tstep s e t" by (simp add: tstep_iff)
  then show "parent_inv sl t"
    using inv by cases (auto simp: parent_inv_def call_defs split: option.splits)
qed

lemmas parent_inv_run = parented.run_preserves [folded trun_run]

definition fresh :: "tmo \<Rightarrow> bool" where
  "fresh p \<longleftrightarrow> calls p = [Expires_at_max] \<and> pending p = [] \<and> assigned p = [] \<and> parent p = None \<and> alive p"

lemma fresh_providers: "fresh (timeout_provider a b c)" "fresh (timeout_provider_all a)"
  by (simp_all add: fresh_def timeout_provider_def timeout_provider_all_def)

lemma parent_inv_begin: "fresh p \<Longrightarrow> parent_inv sl (begin_op sl p)"
  by (auto simp: fresh_def parent_inv_def begin_op_eq call_defs split: option.split)

text \<open>How an operation ends; \<open>base\<close> are the ends of earlier operations under the same provider.\<close>

definition end_inv :: "asio_call list \<Rightarrow> tmo \<Rightarrow> bool" where
  "end_inv base s \<longleftrightarrow> (op_running s \<longrightarrow> alive s) \<and>
     filter end_call (calls s) =
       base @ (if op_running s then [] else [Timer_cancel, Handler_called]) @ (if alive s then [] else [Destroyed])"

interpretation ending: run_invariant timeout_step "end_inv base" for base
proof
  fix s e t
  assume inv: "end_inv base s" and "timeout_step s e = Some t"
  then have "tstep s e t" by (simp add: tstep_iff)
  then show "end_inv base t"
    using inv by cases (auto simp: end_inv_def call_defs split: option.splits)
qed

lemmas end_inv_run = ending.run_preserves [folded trun_run]

lemma end_inv_begin: "alive p \<Longrightarrow> end_inv (filter end_call (calls p)) (begin_op sl p)"
  by (auto simp: end_inv_def begin_op_eq call_defs split: option.split)

section \<open>Properties\<close>

abbreviation no_error :: error_code where "no_error \<equiv> \<lparr>ec_value = 0, ec_category = System_category\<rparr>"

text \<open>C1: whatever happens and in whatever order, the time limit of an operation (the first one of its
  provider or a later one, when no wait of an earlier one is left) runs through its stages one after the other and skips none: it asks for \<open>total\<close>, then \<open>partial\<close>, then \<open>terminal\<close> cancellation (or
  only for \<open>all\<close>), each after waiting for its own time, has at most one wait under way, and remembers in
  \<open>last_fired\<close> what it asked for last, which never becomes weaker.\<close>

theorem escalation_in_order:
  assumes "pending p = []" and "trun (begin_op sl p) es s"
  shows "\<exists>k < length (stages p).
    filter timer_call (calls s) = filter timer_call (calls p) @ concat (take (Suc k) (stages p)) \<and>
    last_fired s = stage_fired p ! k \<and> (pending s = stage_wait p ! k \<or> pending s = []) \<and>
    (\<forall>e t. tstep s e t \<longrightarrow> last_fired s \<le> last_fired t)"
proof -
  obtain k where k: "at_stage (filter timer_call (calls p)) p k s" using at_stage_run [OF assms(2,1)] .
  moreover have "\<forall>e t. tstep s e t \<longrightarrow> last_fired s \<le> last_fired t" using last_fired_mono [OF k] by blast
  ultimately show ?thesis by (auto simp: at_stage_def)
qed

text \<open>A wait that ends on time, as a function.\<close>

definition wait_ends :: "wait \<Rightarrow> tmo \<Rightarrow> tmo" where
  "wait_ends w s = wait_handler w no_error (s\<lparr>pending := remove1 w (pending s)\<rparr>)"

lemma trun_wait: "w \<in> set (pending s) \<Longrightarrow> trun (wait_ends w s) es u \<Longrightarrow> trun s (Wait_done w no_error # es) u"
  unfolding wait_ends_def by (rule runs_Cons [of tstep, OF tstep.wait_done])

text \<open>A run in which the first limit passes and the operation ends while the second wait is under way; the wait is cancelled.\<close>

definition aborted :: error_code where "aborted = \<lparr>ec_value = 125, ec_category = System_category\<rparr>"

definition limited_events :: "event list" where
  "limited_events = [Wait_done Wait_total no_error, Op_done, Wait_done Wait_partial aborted, Destroy]"

definition limited_end :: tmo where
  "limited_end = the (run timeout_step (begin_op None (timeout_provider 3000 1000 500)) limited_events)"

lemma limited_run:
  "trun (begin_op None (timeout_provider 3000 1000 500)) limited_events limited_end \<and>
     calls limited_end = [Expires_at_max, Expires_after 3000, Async_wait Wait_total, Emit From_timer Cancel_total,
       Expires_after 1000, Async_wait Wait_partial, Timer_cancel, Handler_called, Destroyed] \<and>
     pending limited_end = [] \<and> \<not> op_running limited_end \<and> \<not> alive limited_end \<and> last_fired limited_end = Cancel_total"
  unfolding trun_run limited_end_def limited_events_def
  by (simp add: begin_op_eq call_defs timeout_provider_def aborted_def ec_failed_def)

lemma escalation_in_order_witness:
  "\<exists>k < length (stages (timeout_provider 3000 1000 500)).
     concat (take (Suc k) (stages (timeout_provider 3000 1000 500))) =
       [Expires_after 3000, Async_wait Wait_total, Emit From_timer Cancel_total, Expires_after 1000, Async_wait Wait_partial] \<and>
     stage_fired (timeout_provider 3000 1000 500) ! k = Cancel_total"
  using escalation_in_order [OF _ conjunct1 [OF limited_run]] limited_run
  by (auto simp: timeout_provider_def)

text \<open>C15: an operation that reacts to no request and whose waits all end on time is asked for every kind
  of cancellation: three successful waits (one for a provider that emits all at once) lead to the last
  stage, with nothing left to wait for and no further wait possible.\<close>

theorem escalation_completes:
  "(\<exists>s. trun (begin_op sl (timeout_provider a b c))
         [Wait_done Wait_total no_error, Wait_done Wait_partial no_error, Wait_done Wait_terminal no_error] s \<and>
       filter timer_call (calls s) =
         [Expires_after a, Async_wait Wait_total, Emit From_timer Cancel_total,
          Expires_after b, Async_wait Wait_partial, Emit From_timer Cancel_partial,
          Expires_after c, Async_wait Wait_terminal, Emit From_timer Cancel_terminal] \<and> pending s = []) \<and>
   (\<exists>s. trun (begin_op sl (timeout_provider_all a)) [Wait_done Wait_total no_error] s \<and>
       filter timer_call (calls s) = [Expires_after a, Async_wait Wait_total, Emit From_timer Cancel_all] \<and> pending s = [])"
proof (intro conjI exI)
  let ?s = "begin_op sl (timeout_provider a b c)" and ?t = "begin_op sl (timeout_provider_all a)"
  show "trun ?s [Wait_done Wait_total no_error, Wait_done Wait_partial no_error, Wait_done Wait_terminal no_error]
      (wait_ends Wait_terminal (wait_ends Wait_partial (wait_ends Wait_total ?s)))"
    by (intro trun_wait runs.runs_nil)
      (simp_all add: wait_ends_def begin_op_eq call_defs timeout_provider_def ec_failed_def split: option.split)
  show "trun ?t [Wait_done Wait_total no_error] (wait_ends Wait_total ?t)"
    by (intro trun_wait runs.runs_nil)
      (simp add: begin_op_eq call_defs timeout_provider_all_def split: option.split)
qed (simp_all add: wait_ends_def begin_op_eq call_defs timeout_provider_def timeout_provider_all_def ec_failed_def
    split: option.split)

text \<open>C3: cancellation by the caller passes through: as long as the provider lives, what the caller's signal
  emits to the slot of the adapted handler is emitted to the operation unchanged and disturbs nothing
  else; after the provider is destroyed its handler is gone from the slot.\<close>

theorem parent_cancellation_forwarded:
  assumes "fresh p" and "trun (begin_op (Some sl) p) es s"
  shows "tstep s (Parent_emits sl' ct) t \<longleftrightarrow>
    sl' = sl \<and> alive s \<and> t = s\<lparr>calls := calls s @ [Emit From_parent ct]\<rparr>"
  using parent_inv_run [OF parent_inv_begin [OF assms(1)] assms(2)]
  by (auto simp: tstep_simps parent_inv_def call_defs split: if_splits)

lemma parent_cancellation_forwarded_witness:
  "tstep (begin_op (Some (Caller_slot 1)) (timeout_provider 3000 0 0)) (Parent_emits (Caller_slot 1) Cancel_total)
     ((begin_op (Some (Caller_slot 1)) (timeout_provider 3000 0 0))
        \<lparr>calls := calls (begin_op (Some (Caller_slot 1)) (timeout_provider 3000 0 0)) @ [Emit From_parent Cancel_total]\<rparr>)"
  unfolding parent_cancellation_forwarded [OF fresh_providers(1) runs.runs_nil]
  by (simp add: begin_op_eq call_defs timeout_provider_def)

text \<open>C4: the caller's handler of an operation, the first one of its provider or a later one, runs at most once, the timer is cancelled right before it and not otherwise,
  and the provider is destroyed only after that.\<close>

theorem handler_once_after_cancel:
  assumes "alive p" and "trun (begin_op sl p) es s"
  shows "filter end_call (calls s) = filter end_call (calls p) @
    (if op_running s then [] else [Timer_cancel, Handler_called]) @ (if alive s then [] else [Destroyed])"
  using end_inv_run [OF end_inv_begin [OF assms(1)] assms(2)] by (simp add: end_inv_def)

lemma handler_once_after_cancel_witness:
  "\<exists>s. trun (begin_op None (timeout_provider 3000 1000 500)) limited_events s \<and>
     filter end_call (calls s) = [Timer_cancel, Handler_called, Destroyed]"
  using handler_once_after_cancel [OF _ conjunct1 [OF limited_run]] limited_run
  by (intro exI [of _ limited_end]) (auto simp: timeout_provider_def)

text \<open>C16: once the cancelled waits complete with an error, as Boost.Asio has it for a wait that is not yet
  queued, the timer asks for no more cancellations and starts no further wait.\<close>

theorem quiet_after_cancel:
  assumes "trun s es t" and "\<And>w ec. Wait_done w ec \<in> set es \<Longrightarrow> ec_failed ec"
  shows "filter timer_call (calls t) = filter timer_call (calls s) \<and> last_fired t = last_fired s \<and>
    length (pending t) + length (filter (\<lambda>e. case e of Wait_done w ec \<Rightarrow> True | _ \<Rightarrow> False) es) = length (pending s)"
  using assms
proof (induction rule: runs.induct)
  case (runs_snoc s es t e u)
  from runs_snoc(2) show ?case
  proof cases
    case (wait_done w ec)
    then have "ec_failed ec" using runs_snoc(4) [of w ec] by simp
    then have "u = t\<lparr>pending := remove1 w (pending t)\<rparr>" using wait_done by (simp add: wait_failed)
    moreover obtain n where "length (pending t) = Suc n" using wait_done(3) by (cases "pending t") auto
    moreover have "filter timer_call (calls t) = filter timer_call (calls s) \<and> last_fired t = last_fired s \<and>
      length (pending t) + length (filter (\<lambda>e. case e of Wait_done w ec \<Rightarrow> True | _ \<Rightarrow> False) es) = length (pending s)"
      by (rule runs_snoc(3), rule runs_snoc(4), simp, rule disjI2, assumption)
    ultimately show ?thesis using wait_done(1,3) by (simp add: length_remove1)
  qed (use runs_snoc in \<open>auto simp: call_defs split: option.splits\<close>)
qed simp

lemma quiet_after_cancel_witness:
  "\<exists>s t. trun s [Op_done, Wait_done Wait_partial aborted, Destroy] t \<and> pending s = [Wait_partial] \<and>
     filter timer_call (calls t) = filter timer_call (calls s) \<and> last_fired t = Cancel_total \<and> pending t = []"
proof -
  let ?s = "wait_ends Wait_total (begin_op None (timeout_provider 3000 1000 500))"
  note defs = begin_op_eq call_defs timeout_provider_def ec_failed_def wait_ends_def
  obtain t where t: "trun ?s [Op_done, Wait_done Wait_partial aborted, Destroy] t"
    unfolding trun_run by (simp add: defs aborted_def)
  have s: "pending ?s = [Wait_partial]" "last_fired ?s = Cancel_total" by (simp_all add: defs)
  show ?thesis using quiet_after_cancel [OF t] t s by (intro exI [of _ ?s] exI [of _ t]) (auto simp: aborted_def ec_failed_def)
qed

text \<open>C17: but a wait whose successful completion was already queued when the operation ended still runs its
  lambda, which looks neither at the end of the operation nor at the life of the provider: a provider that
  is already destroyed is used, and emits.\<close>

theorem late_wait_uses_destroyed_provider:
  assumes "fresh p"
  shows "\<exists>s. trun (begin_op None p) [Op_done, Destroy, Wait_done Wait_total no_error] s \<and> \<not> alive s \<and>
    (\<exists>before rest. calls s = before @ [Timer_cancel, Handler_called, Destroyed] @ Emit From_timer (if emit_all p then Cancel_all else Cancel_total) # rest)"
proof -
  let ?s = "begin_op None p"
  let ?u = "timeout_provider_destroy (h_call (with_timeout_binder (user_handler None :: (unit, tmo) handler)) [] (?s\<lparr>op_running := False\<rparr>))"
  have 1: "tstep ?s Op_done (h_call (with_timeout_binder (user_handler None :: (unit, tmo) handler)) [] (?s\<lparr>op_running := False\<rparr>))"
    by (rule tstep.op_done) (simp add: begin_op_eq)
  have 2: "tstep (h_call (with_timeout_binder (user_handler None :: (unit, tmo) handler)) [] (?s\<lparr>op_running := False\<rparr>)) Destroy ?u"
    using assms by (intro tstep.destroyed) (simp_all add: call_defs begin_op_eq fresh_def)
  have 3: "trun ?u [Wait_done Wait_total no_error] (wait_ends Wait_total ?u)"
    using assms by (intro trun_wait runs.runs_nil) (simp add: call_defs begin_op_eq fresh_def)
  have "\<not> alive (wait_ends Wait_total ?u)"
    using assms by (simp add: wait_ends_def call_defs begin_op_eq fresh_def)
  moreover have "calls (wait_ends Wait_total ?u) = [Expires_at_max, Expires_after (tt_total p), Async_wait Wait_total] @
      [Timer_cancel, Handler_called, Destroyed] @ Emit From_timer (if emit_all p then Cancel_all else Cancel_total) #
      (if emit_all p then [] else [Expires_after (tt_partial p), Async_wait Wait_partial])"
    using assms by (simp add: wait_ends_def call_defs begin_op_eq fresh_def ec_failed_def)
  ultimately show ?thesis using runs_Cons [OF 1 runs_Cons [OF 2 3]] by blast
qed

lemma late_wait_uses_destroyed_provider_witness:
  "\<exists>s. trun (begin_op None (timeout_provider 3000 0 0)) [Op_done, Destroy, Wait_done Wait_total no_error] s \<and> \<not> alive s"
  using late_wait_uses_destroyed_provider [OF fresh_providers(1), of 3000 0 0] by blast

section \<open>Time\<close>

text \<open>A run with the times of its events.  The timer expires at the time of the last \<^verbatim>\<open>expires_after\<close> call plus
  its duration, and Boost.Asio promises that a wait does not complete successfully before that.\<close>

definition durations :: "asio_call list \<Rightarrow> int list" where
  "durations cs = concat (map (\<lambda>c. case c of Expires_after d \<Rightarrow> [d] | _ \<Rightarrow> []) cs)"





lemma durations_simps [simp]:
  "durations [] = []" "durations (c # cs) = (case c of Expires_after d \<Rightarrow> [d] | _ \<Rightarrow> []) @ durations cs"
  "durations (cs @ cs') = durations cs @ durations cs'"
  by (simp_all add: durations_def)








section \<open>One provider for several operations\<close>

text \<open>C18: a provider that is used for a second operation while a wait of the first one is still outstanding lets
  the two interfere: when that wait was already queued as successful, the new operation is asked to
  cancel at once, long before its own time is up, with its own wait still to come; and when the caller of
  the second operation has no cancellation slot, the slot of the first caller cancels the second operation.\<close>

theorem provider_reuse_interferes:
  assumes "fresh q" and "trun (begin_op (Some sl) q) [Op_done] p"
  shows "(\<exists>s rest. trun (begin_op None p) [Wait_done Wait_total no_error] s \<and> op_running s \<and>
      calls s = calls (begin_op None p) @ Emit From_timer (if emit_all q then Cancel_all else Cancel_total) # rest \<and>
      Wait_total \<in> set (pending s)) \<and>
    (\<exists>s. tstep (begin_op None p) (Parent_emits sl ct) s \<and> op_running s)"
proof -
  have p: "pending p = [Wait_total]" "emit_all p = emit_all q" "parent p = Some sl"
    using assms by (auto simp: trun_run begin_op_eq call_defs fresh_def split: if_splits)
  let ?s = "wait_ends Wait_total (begin_op None p)"
  have "trun (begin_op None p) [Wait_done Wait_total no_error] ?s"
    using p by (intro trun_wait runs.runs_nil) (simp add: begin_op_eq call_defs)
  moreover have "op_running ?s" by (simp add: wait_ends_def begin_op_eq call_defs)
  moreover have "calls ?s = calls (begin_op None p) @ Emit From_timer (if emit_all q then Cancel_all else Cancel_total) #
      (if emit_all q then [] else [Expires_after (tt_partial p), Async_wait Wait_partial])"
    using p by (simp add: wait_ends_def begin_op_eq call_defs ec_failed_def)
  moreover have "Wait_total \<in> set (pending ?s)"
    using p by (simp add: wait_ends_def begin_op_eq call_defs ec_failed_def)
  moreover have "\<exists>s. tstep (begin_op None p) (Parent_emits sl ct) s \<and> op_running s"
    using p by (simp add: tstep_simps begin_op_eq call_defs)
  ultimately show ?thesis by blast
qed

lemma provider_reuse_interferes_witness:
  "let q = begin_op (Some (Caller_slot 1)) (timeout_provider 3000 0 0);
       p = (do_call Handler_called (do_call Timer_cancel (q\<lparr>op_running := False\<rparr>))) in
   \<exists>s. tstep (begin_op None p) (Parent_emits (Caller_slot 1) Cancel_terminal) s \<and> op_running s"
  using provider_reuse_interferes [OF fresh_providers(1), of "Caller_slot 1" 3000 0 0]
  unfolding Let_def by (simp add: trun_run begin_op_eq with_timeout_binder_def user_handler_def)

end
