(* ===== verification/Async_connector_co.thy ===== *)
theory Async_connector_co
  imports Timeout_runs Util_platform
begin

text \<open>
  \<^verbatim>\<open>example/async_connector_co.cpp\<close>: resolve some hosts, then connect to all their addresses at once, one
  coroutine for each, with a limit of three seconds from \<^verbatim>\<open>util/asio_timeout.hpp\<close>.
\<close>

section \<open>One connection\<close>

text \<open>\<^verbatim>\<open>CO_RESULT_TOKEN\<close>; \<open>use_awaitable\<close> is Boost.Asio's token.\<close>

definition CO_RESULT_TOKEN :: "'tok \<Rightarrow> 'tok as_result_t" where
  "CO_RESULT_TOKEN use_awaitable = as_result use_awaitable"

text \<open>\<open>async_connect\<close> up to its \<^verbatim>\<open>co_await\<close>: the state of the provider \<open>timeout\<close> after \<open>op\<close>, the initiation of
  \<^verbatim>\<open>socket.async_connect\<close>, has been started.\<close>

definition connect_begin ::
    "(('v, tmo, endpoint) initiation \<Rightarrow> 'tok \<Rightarrow> endpoint \<Rightarrow> tmo \<Rightarrow> tmo) \<Rightarrow> 'tok \<Rightarrow>
     ('v, tmo, endpoint) initiation \<Rightarrow> endpoint \<Rightarrow> tmo" where
  "connect_begin async_initiate use_awaitable op ep =
     with_timeout_initiate (as_result_initiate async_initiate) op
       (timeout_token (CO_RESULT_TOKEN use_awaitable)) ep (timeout_provider_all 3000)"

definition takes_line :: "endpoint \<Rightarrow> int \<Rightarrow> log_line" where
  "takes_line ep ns = SPDLOG_INFO (''connection to '' @ ep_address ep @ '':'' @ dec (ep_port ep) @ '' takes '' @
     show_int (milliseconds ns) @ ''ms'')"

text \<open>The rest of the coroutine: what it logs for the answer of the \<^verbatim>\<open>co_await\<close>, an exception or a result.\<close>

definition connect_end ::
    "(error_code \<Rightarrow> string) \<Rightarrow> endpoint \<Rightarrow> int \<Rightarrow> int \<Rightarrow> exn + (error_code + unit) \<Rightarrow> log_line" where
  "connect_end message ep conn_time now conn_res =
     (case conn_res of
        Inl x \<Rightarrow> handler_catch Level_info ''Catch unknown exception ...'' x
      | Inr (Inr u) \<Rightarrow> takes_line ep (now - conn_time)
      | Inr (Inl ec) \<Rightarrow>
          SPDLOG_ERROR (''error connected to '' @ ep_address ep @ '':'' @ dec (ep_port ep) @ '': '' @ message ec))"

text \<open>The coroutine as a machine: it has been spawned, or it has started the operation at a time, with the state
  of its provider and what it has logged.  When the operation completes, its handler resumes the coroutine,
  which logs its line and destroys the provider as it leaves; a wait on the timer may complete even after that.\<close>

datatype co_attempt =
    Spawned endpoint
  | Attempt endpoint int tmo "log_line list"

datatype co_event =
    Start int
  | Timer wait error_code
  | Connected "exn + (error_code + unit)" int

fun co_step :: "(error_code \<Rightarrow> string) \<Rightarrow> (endpoint \<Rightarrow> tmo) \<Rightarrow> co_attempt \<Rightarrow> co_event \<Rightarrow> co_attempt option" where
  "co_step message begin_at (Spawned ep) (Start now) = Some (Attempt ep now (begin_at ep) [])"
| "co_step message begin_at (Attempt ep conn_time s ls) (Timer w ec) =
     map_option (\<lambda>s. Attempt ep conn_time s ls) (timeout_step s (Wait_done w ec))"
| "co_step message begin_at (Attempt ep conn_time s ls) (Connected conn_res now) =
     (case timeout_step s Op_done of
        None \<Rightarrow> None
      | Some s \<Rightarrow>
          map_option (\<lambda>s. Attempt ep conn_time s (ls @ [connect_end message ep conn_time now conn_res]))
            (timeout_step s Destroy))"
| "co_step message begin_at _ _ = None"

section \<open>The program\<close>

definition hosts :: "string list" where
  "hosts = [''www.baidu.com'', ''182.61.200.6'', ''103.235.47.188'', ''182.61.200.7'', ''103.235.47.96'', ''31.13.73.9'']"

text \<open>The first loop: \<open>resolve i service\<close> is the answer of \<^verbatim>\<open>resolver.resolve\<close>, an exception or the endpoints.\<close>

fun resolve_all :: "(string \<Rightarrow> string \<Rightarrow> exn + endpoint list) \<Rightarrow> string list \<Rightarrow> endpoint list \<Rightarrow> exn + endpoint list" where
  "resolve_all resolve [] eps = Inr eps"
| "resolve_all resolve (i # is) eps =
     (case resolve i ''http'' of
        Inl x \<Rightarrow> Inl x
      | Inr eps_in \<Rightarrow> resolve_all resolve is (eps @ eps_in))"

text \<open>\<open>main\<close>: what it logs itself, the coroutines it spawns, its exit code and the logger.  \<open>io_run\<close> is the
  exception that leaves \<^verbatim>\<open>io_ctx.run()\<close>, if any.\<close>

definition co_main ::
    "(string \<Rightarrow> exn option) \<Rightarrow> (string \<Rightarrow> string \<Rightarrow> exn + endpoint list) \<Rightarrow> exn option \<Rightarrow> string \<Rightarrow> logging \<Rightarrow>
     log_line list \<times> endpoint list \<times> int \<times> logging" where
  "co_main open_file resolve io_run from_current lg =
     (case init_log open_file Level_trace True True default_log_path lg of
        (Some x, lg) \<Rightarrow> ([main_catch from_current x], [], EXIT_SUCCESS, lg)
      | (None, lg) \<Rightarrow>
          (case resolve_all resolve hosts [] of
             Inl x \<Rightarrow> ([main_catch from_current x], [], EXIT_SUCCESS, lg)
           | Inr eps \<Rightarrow>
               ((case io_run of Some x \<Rightarrow> [main_catch from_current x] | None \<Rightarrow> []), eps, EXIT_SUCCESS, lg)))"

section \<open>Lemmas\<close>

lemma connect_begin_eq:
  assumes "\<And>init tok args w. async_initiate init tok args w = init (handler_of tok) args w"
  shows "connect_begin async_initiate use_awaitable op ep =
    op (with_timeout_binder (outcome_result_handler (handler_of use_awaitable))) ep (arm (timeout_provider_all 3000))"
  by (simp add: connect_begin_def CO_RESULT_TOKEN_def with_timeout_initiate_def as_result_initiate_def assms
      timeout_token_def as_result_def init_wrapper_def outcome_result_handler_def)

lemma connect_begin_start:
  assumes "\<And>init tok args w. async_initiate init tok args w = init (handler_of tok) args w"
  shows "connect_begin async_initiate use_awaitable start_op ep = begin_op None (timeout_provider_all 3000)"
  unfolding connect_begin_eq [of async_initiate handler_of, OF assms] by (simp add: begin_op_eq start_op_def)

lemma timer_calls_all:
  assumes "trun (begin_op None (timeout_provider_all d)) es s"
  shows "filter timer_call (calls s) = [Expires_after d, Async_wait Wait_total] \<or>
    filter timer_call (calls s) = [Expires_after d, Async_wait Wait_total, Emit From_timer Cancel_all]"
proof -
  let ?p = "timeout_provider_all d"
  have "pending ?p = []" "filter timer_call (calls ?p) = []" by (simp_all add: timeout_provider_all_def)
  then obtain k where "at_stage [] ?p k s" using at_stage_run [OF assms] by metis
  then have "k < Suc (Suc 0)" "filter timer_call (calls s) = concat (take (Suc k)
       [[Expires_after d, Async_wait Wait_total], [Emit From_timer Cancel_all]])"
    by (auto simp: at_stage_def stages_def timeout_provider_all_def)
  then show ?thesis by (auto simp: less_Suc_eq)
qed

lemma resolve_all_append:
  "resolve_all resolve (is @ js) eps =
     (case resolve_all resolve is eps of Inl x \<Rightarrow> Inl x | Inr eps' \<Rightarrow> resolve_all resolve js eps')"
  by (induction "is" arbitrary: eps) (auto split: sum.split)

lemma resolve_all_ok:
  "(\<And>h. h \<in> set hs \<Longrightarrow> \<exists>e. resolve h ''http'' = Inr e) \<Longrightarrow>
     resolve_all resolve hs eps = Inr (eps @ concat (map (\<lambda>h. projr (resolve h ''http'')) hs))"
proof (induction hs arbitrary: eps)
  case (Cons h hs)
  then obtain e where "resolve h ''http'' = Inr e" by auto
  with Cons show ?case by auto
qed simp

lemma resolve_all_fails:
  "\<exists>h \<in> set hs. \<exists>x. resolve h ''http'' = Inl x \<Longrightarrow> \<exists>x. resolve_all resolve hs eps = Inl x"
  by (induction hs arbitrary: eps) (auto split: sum.split)

text \<open>What an attempt has logged and is still to do, by its own events.\<close>

definition reports :: "(error_code \<Rightarrow> string) \<Rightarrow> endpoint \<Rightarrow> int \<Rightarrow> co_event list \<Rightarrow> log_line list" where
  "reports message ep t es = concat (map (\<lambda>e. case e of Connected r now \<Rightarrow> [connect_end message ep t now r] | _ \<Rightarrow> []) es)"

definition attempt_inv :: "(error_code \<Rightarrow> string) \<Rightarrow> endpoint \<Rightarrow> co_event list \<Rightarrow> co_attempt \<Rightarrow> bool" where
  "attempt_inv message ep es a \<longleftrightarrow>
     (case a of
        Spawned ep' \<Rightarrow> ep' = ep \<and> es = []
      | Attempt ep' t s ls \<Rightarrow>
          ep' = ep \<and> (\<exists>es'. es = Start t # es') \<and> ls = reports message ep t es \<and>
          length ls = (if op_running s then 0 else 1) \<and> (alive s \<longleftrightarrow> op_running s) \<and>
          (\<exists>tes. trun (begin_op None (timeout_provider_all 3000)) tes s))"

lemma wait_step_frame:
  "timeout_step s (Wait_done w ec) = Some t \<Longrightarrow> op_running t = op_running s \<and> alive t = alive s"
  by (auto split: if_splits)

lemma end_steps:
  assumes "timeout_step s Op_done = Some u" and "timeout_step u Destroy = Some t"
  shows "op_running s \<and> alive s \<and> \<not> op_running t \<and> \<not> alive t"
  using assms by (auto simp: call_defs split: if_splits option.splits)

interpretation attempts: history_invariant
    "co_step message (\<lambda>ep. begin_op None (timeout_provider_all 3000))" "attempt_inv message ep" for message ep
proof
  fix es a e b
  assume inv: "attempt_inv message ep es a" and step: "co_step message (\<lambda>ep. begin_op None (timeout_provider_all 3000)) a e = Some b"
  show "attempt_inv message ep (es @ [e]) b"
  proof (cases a)
    case (Spawned ep')
    then obtain now where "e = Start now" "b = Attempt ep' now (begin_op None (timeout_provider_all 3000)) []"
      using step by (cases e) auto
    then show ?thesis
      using inv Spawned by (auto simp: attempt_inv_def reports_def begin_op_eq call_defs timeout_provider_all_def intro: runs.runs_nil)
  next
    case (Attempt ep' t s ls)
    then obtain tes where i: "ep' = ep" "\<exists>es'. es = Start t # es'" "ls = reports message ep t es"
      "length ls = (if op_running s then 0 else 1)" "alive s \<longleftrightarrow> op_running s"
      "trun (begin_op None (timeout_provider_all 3000)) tes s"
      using inv by (auto simp: attempt_inv_def)
    show ?thesis
    proof (cases e)
      case (Start now)
      then show ?thesis using step Attempt by simp
    next
      case (Timer w ec)
      then obtain s' where s': "timeout_step s (Wait_done w ec) = Some s'" "b = Attempt ep' t s' ls"
        using step Attempt by auto
      moreover have "trun (begin_op None (timeout_provider_all 3000)) (tes @ [Wait_done w ec]) s'"
        using i(6) s'(1) by (simp add: trun_run run_snoc)
      ultimately show ?thesis
        using i wait_step_frame [OF s'(1)] Timer by (auto simp: attempt_inv_def reports_def)
    next
      case (Connected r now)
      then obtain u s' where u: "timeout_step s Op_done = Some u" "timeout_step u Destroy = Some s'"
        and b: "b = Attempt ep' t s' (ls @ [connect_end message ep' t now r])"
        using step Attempt by (auto split: option.splits)
      have "trun (begin_op None (timeout_provider_all 3000)) (tes @ [Op_done, Destroy]) s'"
        using i(6) u by (simp add: trun_run run_append)
      then show ?thesis using i end_steps [OF u] b Connected by (auto simp: attempt_inv_def reports_def)
    qed
  qed
qed

section \<open>Properties\<close>

text \<open>every connection attempt runs under a limit of three seconds: the operation is given the slot of the
  provider, whatever happens it is asked to cancel at most once, with all kinds at the same time, when the
  one wait of 3000 ms ends, and a cancellation of the awaiting coroutine never reaches it.\<close>

theorem connect_time_limit:
  assumes "\<And>init tok args w. async_initiate init tok args w = init (handler_of tok) args w"
    and "trun (connect_begin async_initiate use_awaitable start_op ep) es s"
  shows "(\<forall>op. \<exists>h. connect_begin async_initiate use_awaitable op ep = op h ep (arm (timeout_provider_all 3000)) \<and>
      h_slot h = Some Timeout_slot) \<and>
    (filter timer_call (calls s) = [Expires_after 3000, Async_wait Wait_total] \<or>
     filter timer_call (calls s) = [Expires_after 3000, Async_wait Wait_total, Emit From_timer Cancel_all]) \<and>
    (\<forall>sl ct t. \<not> tstep s (Parent_emits sl ct) t)"
proof (intro conjI allI)
  have run: "trun (begin_op None (timeout_provider_all 3000)) es s"
    using assms(2) unfolding connect_begin_start [of async_initiate handler_of, OF assms(1)] .
  show "filter timer_call (calls s) = [Expires_after 3000, Async_wait Wait_total] \<or>
     filter timer_call (calls s) = [Expires_after 3000, Async_wait Wait_total, Emit From_timer Cancel_all]"
    by (rule timer_calls_all [OF run])
  show "\<not> tstep s (Parent_emits sl ct) t" for sl ct t
    using parent_inv_run [OF parent_inv_begin [OF fresh_providers(2)] run]
    by (auto simp: tstep_simps parent_inv_def split: if_splits)
  show "\<exists>h. connect_begin async_initiate use_awaitable op ep = op h ep (arm (timeout_provider_all 3000)) \<and>
      h_slot h = Some Timeout_slot" for op
    using connect_begin_eq [of async_initiate handler_of, OF assms(1)] by (auto simp: with_timeout_binder_def binder_cancellation_slot_def)
qed

lemma connect_time_limit_witness:
  "filter timer_call (calls (connect_begin (\<lambda>init tok. init tok) (user_handler (Some (Caller_slot 1)) :: (unit, tmo) handler)
     start_op \<lparr>ep_address = ''10.0.0.1'', ep_port = 80\<rparr>)) \<noteq> []"
  using connect_time_limit [of "\<lambda>init tok. init tok" "\<lambda>tok. tok" "user_handler (Some (Caller_slot 1)) :: (unit, tmo) handler"
      "\<lparr>ep_address = ''10.0.0.1'', ep_port = 80\<rparr>", OF refl runs.runs_nil] by auto

text \<open>C24: the attempts are all or nothing: when every host resolves, one coroutine is spawned for each endpoint,
  in their order; when one does not, its exception ends \<open>main\<close> before any connection is tried, the
  hosts that did resolve included.  The exit code is 0 in both cases.\<close>

theorem co_main_all_or_nothing:
  assumes "open_file default_log_path = None"
  shows "fst (snd (co_main open_file resolve io_run from_current lg)) =
      (if \<exists>h \<in> set hosts. \<exists>x. resolve h ''http'' = Inl x then []
       else concat (map (\<lambda>h. projr (resolve h ''http'')) hosts)) \<and>
    fst (snd (snd (co_main open_file resolve io_run from_current lg))) = EXIT_SUCCESS"
proof (cases "\<exists>h \<in> set hosts. \<exists>x. resolve h ''http'' = Inl x")
  case True
  then obtain x where "resolve_all resolve hosts [] = Inl x" using resolve_all_fails by blast
  with True assms show ?thesis by (auto simp: co_main_def init_log_def Let_def)
next
  case False
  then have "\<exists>e. resolve h ''http'' = Inr e" if "h \<in> set hosts" for h
    using that by (cases "resolve h ''http''") auto
  then have "resolve_all resolve hosts [] = Inr (concat (map (\<lambda>h. projr (resolve h ''http'')) hosts))"
    using resolve_all_ok [of hosts resolve "[]"] by simp
  with False assms show ?thesis by (auto simp: co_main_def init_log_def Let_def)
qed

lemma co_main_all_or_nothing_witness:
  "fst (snd (co_main (\<lambda>p. None) (\<lambda>h s. if h = ''31.13.73.9'' then Inl Other_exception
       else Inr [\<lparr>ep_address = h, ep_port = 80\<rparr>]) None '''' \<lparr>default_logger = None, flush_interval = None\<rparr>)) = []"
  using co_main_all_or_nothing [of "\<lambda>p. None" "\<lambda>h s. if h = ''31.13.73.9'' then Inl Other_exception
       else Inr [\<lparr>ep_address = h, ep_port = 80\<rparr>]" None "''''" "\<lparr>default_logger = None, flush_interval = None\<rparr>"]
  by (simp add: hosts_def)

text \<open>C7: the attempts of the program do not disturb each other, however their events are interleaved: each logs for
  its own endpoint, with its own start time, what its own completion answered; it logs nothing before that and
  exactly one line after it, and it asks its own operation to cancel at most once.\<close>

theorem attempts_report_once:
  assumes "\<And>init tok args w. async_initiate init tok args w = init (handler_of tok) args w"
    and "run (family_step (co_step message (connect_begin async_initiate use_awaitable start_op))) (map Spawned eps) es
      = Some as"
    and "i < length eps"
  shows "case as ! i of
      Spawned ep \<Rightarrow> ep = eps ! i \<and> own i es = []
    | Attempt ep t s ls \<Rightarrow>
        ep = eps ! i \<and> (\<exists>es'. own i es = Start t # es') \<and> ls = reports message ep t (own i es) \<and>
        length ls = (if op_running s then 0 else 1) \<and>
        (filter timer_call (calls s) = [Expires_after 3000, Async_wait Wait_total] \<or>
         filter timer_call (calls s) = [Expires_after 3000, Async_wait Wait_total, Emit From_timer Cancel_all])"
proof -
  have "connect_begin async_initiate use_awaitable start_op = (\<lambda>ep. begin_op None (timeout_provider_all 3000))"
    using connect_begin_start [of async_initiate handler_of, OF assms(1)] by (simp add: fun_eq_iff)
  then have "run (co_step message (\<lambda>ep. begin_op None (timeout_provider_all 3000))) (Spawned (eps ! i)) (own i es) = Some (as ! i)"
    using assms(2,3) by (simp add: family_run)
  moreover have "attempt_inv message (eps ! i) [] (Spawned (eps ! i))" by (simp add: attempt_inv_def)
  ultimately have "attempt_inv message (eps ! i) (own i es) (as ! i)" using attempts.run_history by blast
  then show ?thesis
    by (auto simp: attempt_inv_def dest!: timer_calls_all split: co_attempt.splits)
qed

definition sample_endpoints :: "endpoint list" where
  "sample_endpoints = [\<lparr>ep_address = ''10.0.0.1'', ep_port = 80\<rparr>, \<lparr>ep_address = ''10.0.0.2'', ep_port = 80\<rparr>]"

lemma attempts_report_once_witness:
  "\<exists>as t s. run (family_step (co_step (\<lambda>ec. ''timeout'')
        (connect_begin (\<lambda>init tok. init tok) (user_handler None :: (unit, tmo) handler) start_op)))
      (map Spawned sample_endpoints) [(0, Start 5), (1, Start 6), (1, Connected (Inr (Inr ())) 2000006)] = Some as \<and>
    as ! 1 = Attempt \<lparr>ep_address = ''10.0.0.2'', ep_port = 80\<rparr> t s
      [takes_line \<lparr>ep_address = ''10.0.0.2'', ep_port = 80\<rparr> 2000000]"
proof -
  let ?b = "connect_begin (\<lambda>init tok. init tok) (user_handler None :: (unit, tmo) handler) start_op"
  let ?es = "[(0, Start 5), (1, Start 6), (1, Connected (Inr (Inr ())) 2000006)]"
  have b: "?b = (\<lambda>ep. begin_op None (timeout_provider_all 3000))"
    by (rule ext) (rule connect_begin_start [of "\<lambda>init tok. init tok" "\<lambda>tok. tok"], simp)
  have "\<exists>as. run (family_step (co_step (\<lambda>ec. ''timeout'') ?b)) (map Spawned sample_endpoints) ?es = Some as"
    unfolding b by (simp add: sample_endpoints_def family_step_def begin_op_eq call_defs timeout_provider_all_def)
  then obtain as where as: "run (family_step (co_step (\<lambda>ec. ''timeout'') ?b)) (map Spawned sample_endpoints) ?es = Some as" ..
  have "1 < length sample_endpoints" by (simp add: sample_endpoints_def)
  from attempts_report_once [of "\<lambda>init tok. init tok" "\<lambda>tok. tok", OF refl as this]
  show ?thesis using as
    by (auto simp: sample_endpoints_def reports_def connect_end_def split: co_attempt.splits)
qed

end
