(* ===== verification/LS_Prelude.thy ===== *)
theory LS_Prelude
  imports Main "HOL-Library.Word" "HOL-Library.Code_Target_Nat"
begin

unbundle bit_operations_syntax

text \<open>
  Shared vocabulary of the development: the fixed-width integer types of the C code, the
  arithmetic of \<^verbatim>\<open>size_t\<close>, big-endian byte strings and the loops that read and write
  them, and stores into a byte array.  Everything else in the development is built on these.

  \<^item> \<^verbatim>\<open>uint8_t\<close>, \<^verbatim>\<open>uint16_t\<close>, \<^verbatim>\<open>uint32_t\<close>, \<^verbatim>\<open>uint64_t\<close> are words of that width.
  \<^item> a \<^verbatim>\<open>size_t\<close> is a natural number; where the code tests for wrap-around the sum is
    taken with \<open>size_add\<close>, which wraps at \<open>2 ^ 64\<close>.
  \<^item> a C object (an array of bytes) is a list of bytes.
\<close>

type_synonym u8 = "8 word"
type_synonym u16 = "16 word"
type_synonym u32 = "32 word"
type_synonym u64 = "64 word"
type_synonym bytes = "8 word list"

text \<open>The outcome of a function that returns 0 or 1, writes an out parameter on success and
  updates the object it works on in either case.\<close>

type_synonym ('s, 'a) step = "'s \<Rightarrow> 'a option \<times> 's"

text \<open>The sequence \<^verbatim>\<open>if (!f()) return 0; g();\<close> on a state that \<open>f\<close> may have changed.\<close>

definition and_then :: "bool \<times> 's \<Rightarrow> ('s \<Rightarrow> bool \<times> 's) \<Rightarrow> bool \<times> 's" where
  "and_then r g = (case r of (ok, s) \<Rightarrow> if ok then g s else (False, s))"

lemma and_then_simps [simp]:
  "and_then (True, s) g = g s" "and_then (False, s) g = (False, s)"
  by (simp_all add: and_then_def)

named_theorems be_simps \<open>facts on big-endian byte strings\<close>
named_theorems mem_simps \<open>facts on stores into byte arrays\<close>

section \<open>Sizes\<close>

definition SIZE_MAX :: nat where
  "SIZE_MAX = 2 ^ 64 - 1"

definition size_add :: "nat \<Rightarrow> nat \<Rightarrow> nat" where
  "size_add a b = (a + b) mod 2 ^ 64"

lemma size_add_small: "a + b \<le> SIZE_MAX \<Longrightarrow> size_add a b = a + b"
  by (simp add: size_add_def SIZE_MAX_def)

lemma size_add_wraps_iff:
  assumes "a \<le> SIZE_MAX" and "b \<le> SIZE_MAX"
  shows "size_add a b < a \<longleftrightarrow> SIZE_MAX < a + b"
proof (cases "a + b \<le> SIZE_MAX")
  case True
  then show ?thesis by (simp add: size_add_small)
next
  case False
  then have ge: "2 ^ 64 \<le> a + b" by (simp add: SIZE_MAX_def)
  have lt: "a + b - 2 ^ 64 < 2 ^ 64" using assms by (simp add: SIZE_MAX_def)
  have "(a + b) mod 2 ^ 64 = a + b - 2 ^ 64"
    using ge lt by (metis le_mod_geq mod_less)
  then have "size_add a b < a" using assms ge by (simp add: size_add_def SIZE_MAX_def)
  with False show ?thesis by simp
qed

section \<open>Big-endian byte strings\<close>

text \<open>The number a byte string denotes, most significant byte first, and the bytes of a
  number in a given length.\<close>

fun be_val :: "bytes \<Rightarrow> nat" where
  "be_val [] = 0"
| "be_val (b # bs) = unat b * 256 ^ length bs + be_val bs"

fun be_bytes :: "nat \<Rightarrow> nat \<Rightarrow> bytes" where
  "be_bytes 0 v = []"
| "be_bytes (Suc n) v = be_bytes n (v div 256) @ [word_of_nat v]"

lemma length_be_bytes [simp]: "length (be_bytes n v) = n"
  by (induction n arbitrary: v) auto

lemma be_val_append [be_simps]:
  "be_val (xs @ ys) = be_val xs * 256 ^ length ys + be_val ys"
  by (induction xs) (auto simp: algebra_simps power_add)

lemma unat_u8_lt [simp]: "unat (b :: u8) < 256"
proof -
  have "unat b < 2 ^ LENGTH(8)" by (rule unsigned_less)
  then show ?thesis by simp
qed

lemma unat_u16_lt [simp]: "unat (w :: u16) < 65536"
proof -
  have "unat w < 2 ^ LENGTH(16)" by (rule unsigned_less)
  then show ?thesis by simp
qed

lemma unat_u32_lt [simp]: "unat (w :: u32) < 4294967296"
proof -
  have "unat w < 2 ^ LENGTH(32)" by (rule unsigned_less)
  then show ?thesis by simp
qed

lemma unat_u64_lt [simp]: "unat (w :: u64) < 18446744073709551616"
proof -
  have "unat w < 2 ^ LENGTH(64)" by (rule unsigned_less)
  then show ?thesis by simp
qed

lemma unat_ucast_u8_u32 [simp]: "unat (ucast (a :: u8) :: u32) = unat a"
proof -
  have "unat a < 4294967296" using unat_u8_lt [of a] by linarith
  then show ?thesis by (simp add: unsigned_ucast_eq take_bit_nat_eq_self_iff)
qed

lemma be_val_lt: "be_val bs < 256 ^ length bs"
proof (induction bs)
  case (Cons b bs)
  have "unat b * 256 ^ length bs + be_val bs < (unat b + 1) * 256 ^ length bs"
    using Cons by simp
  also have "\<dots> \<le> 256 * 256 ^ length bs"
    by (rule mult_le_mono1) (use unat_u8_lt [of b] in linarith)
  finally show ?case by simp
qed simp

lemma unat_word_of_nat_u8 [simp]: "unat (word_of_nat v :: u8) = v mod 256"
  by (simp add: unat_of_nat)

lemma be_val_be_bytes [be_simps]: "be_val (be_bytes n v) = v mod 256 ^ n"
proof (induction n arbitrary: v)
  case (Suc n)
  have "v mod 256 ^ Suc n = v mod (256 * 256 ^ n)" by simp
  also have "\<dots> = 256 * (v div 256 mod 256 ^ n) + v mod 256" by (rule mod_mult2_eq)
  finally show ?case using Suc [of "v div 256"] by (simp add: be_simps)
qed simp

lemma be_bytes_be_val [be_simps]: "length bs = n \<Longrightarrow> be_bytes n (be_val bs) = bs"
proof (induction bs arbitrary: n rule: rev_induct)
  case (snoc b bs)
  then obtain m where n: "n = Suc m" and m: "length bs = m" by auto
  have "be_val (bs @ [b]) div 256 = be_val bs" and "be_val (bs @ [b]) mod 256 = unat b"
    using unat_u8_lt [of b] by (simp_all add: be_simps)
  moreover have "(word_of_nat (be_val (bs @ [b])) :: u8) = b"
    by (rule word_unat_eq_iff [THEN iffD2]) (simp add: calculation)
  ultimately show ?case using snoc m n by simp
qed simp

lemma be_val_inj: "length xs = length ys \<Longrightarrow> be_val xs = be_val ys \<Longrightarrow> xs = ys"
  by (metis be_bytes_be_val)

lemma be_val_replicate_0 [simp]: "be_val (replicate n 0) = 0"
  by (induction n) auto

text \<open>The loop \<^verbatim>\<open>result <<= 8; result |= data[i];\<close> on an accumulator of any width.\<close>

fun shift_in :: "'a::len word \<Rightarrow> bytes \<Rightarrow> 'a word" where
  "shift_in acc [] = acc"
| "shift_in acc (b # bs) = shift_in (push_bit 8 acc OR ucast b) bs"

lemma or_ucast_eq_plus:
  fixes acc :: "'a::len word" and b :: u8
  assumes "8 \<le> LENGTH('a)"
  shows "push_bit 8 acc OR ucast b = push_bit 8 acc + ucast b"
proof -
  have "push_bit 8 acc AND ucast b = (0 :: 'a word)"
    by (rule bit_word_eqI) (auto simp: bit_simps dest: bit_imp_le_length)
  then show ?thesis by (simp add: disjunctive_add_eq_or)
qed

lemma unat_shift_in_step:
  fixes acc :: "'a::len word" and b :: u8
  assumes "unat acc * 256 + unat b < 2 ^ LENGTH('a)" and "8 \<le> LENGTH('a)"
  shows "unat (push_bit 8 acc OR ucast b) = unat acc * 256 + unat b"
proof -
  have "unat acc * 256 < 2 ^ LENGTH('a)" using assms(1) by linarith
  then have "take_bit LENGTH('a) (push_bit 8 (unat acc)) = unat acc * 256"
    by (simp add: take_bit_nat_eq_self_iff push_bit_eq_mult)
  then have "unat (push_bit 8 acc) = unat acc * 256"
    by (simp only: unsigned_push_bit_eq)
  moreover have "unat (ucast b :: 'a word) = unat b"
    using assms(1) by (simp add: unsigned_ucast_eq take_bit_nat_eq_self_iff)
  ultimately show ?thesis
    using assms by (simp add: or_ucast_eq_plus unat_word_ariths)
qed

lemma unat_shift_in:
  fixes acc :: "'a::len word"
  assumes "unat acc * 256 ^ length bs + be_val bs < 2 ^ LENGTH('a)" and "8 \<le> LENGTH('a)"
  shows "unat (shift_in acc bs) = unat acc * 256 ^ length bs + be_val bs"
  using assms
proof (induction bs arbitrary: acc)
  case (Cons b bs)
  have eq: "unat acc * 256 ^ length (b # bs) + be_val (b # bs)
      = (unat acc * 256 + unat b) * 256 ^ length bs + be_val bs"
    by (simp add: algebra_simps)
  have "unat acc * 256 + unat b \<le> (unat acc * 256 + unat b) * 256 ^ length bs + be_val bs"
    by (rule trans_le_add1) simp
  moreover have "(unat acc * 256 + unat b) * 256 ^ length bs + be_val bs < 2 ^ LENGTH('a)"
    using Cons.prems(1) eq by simp
  ultimately have small: "unat acc * 256 + unat b < 2 ^ LENGTH('a)" by (rule order.strict_trans1)
  have st: "unat (push_bit 8 acc OR ucast b) = unat acc * 256 + unat b"
    using small Cons.prems(2) by (rule unat_shift_in_step)
  have "unat (shift_in (push_bit 8 acc OR ucast b) bs)
      = unat (push_bit 8 acc OR ucast b) * 256 ^ length bs + be_val bs"
    by (rule Cons.IH) (use Cons.prems eq st in \<open>simp_all\<close>)
  then show ?case by (simp add: st algebra_simps)
qed simp

section \<open>Stores into a byte array\<close>

text \<open>\<^verbatim>\<open>memcpy(buf + off, bs, len)\<close>: overwrite the bytes from \<open>off\<close> on.\<close>

definition mem_write :: "bytes \<Rightarrow> nat \<Rightarrow> bytes \<Rightarrow> bytes" where
  "mem_write buf off bs = take off buf @ bs @ drop (off + length bs) buf"

lemma length_mem_write [simp, mem_simps]:
  "off + length bs \<le> length buf \<Longrightarrow> length (mem_write buf off bs) = length buf"
  by (simp add: mem_write_def)

lemma take_mem_write [mem_simps]:
  "off + length bs \<le> length buf \<Longrightarrow> take (off + length bs) (mem_write buf off bs) = take off buf @ bs"
  by (simp add: mem_write_def)

lemma take_mem_write_before [mem_simps]:
  "n \<le> off \<Longrightarrow> off \<le> length buf \<Longrightarrow> take n (mem_write buf off bs) = take n buf"
  by (simp add: mem_write_def min_def)

lemma drop_mem_write [mem_simps]:
  "off + length bs \<le> length buf \<Longrightarrow> drop (off + length bs) (mem_write buf off bs) = drop (off + length bs) buf"
  by (simp add: mem_write_def)

lemma mem_write_Nil [simp]: "off \<le> length buf \<Longrightarrow> mem_write buf off [] = buf"
  by (simp add: mem_write_def)

lemma take_mem_write_mid:
  assumes "take n buf = X @ Z @ Y" and "length bs = length Z" and "n \<le> length buf"
  shows "take n (mem_write buf (length X) bs) = X @ bs @ Y"
proof -
  have n: "n = length X + length Z + length Y"
    using arg_cong [OF assms(1), of length] assms(3) by simp
  have buf: "buf = X @ Z @ Y @ drop n buf" using assms(1) append_take_drop_id [of n buf] by simp
  have "mem_write (X @ Z @ Y @ drop n buf) (length X) bs = X @ bs @ Y @ drop n buf"
    using assms(2) by (simp add: mem_write_def)
  then show ?thesis using buf n assms(2) by (metis (no_types, lifting) append.assoc append_eq_conv_conj
        length_append add.assoc)
qed

lemma list_update_mem_write: "off < length buf \<Longrightarrow> buf[off := b] = mem_write buf off [b]"
  by (simp add: mem_write_def upd_conv_take_nth_drop)

lemma mem_write_mem_write_next:
  assumes "off + length xs + length ys \<le> length buf"
  shows "mem_write (mem_write buf (off + length xs) ys) off xs = mem_write buf off (xs @ ys)"
  using assms by (simp add: mem_write_def min_def add.commute add.left_commute)

section \<open>Masks on octets\<close>

named_theorems octet_simps \<open>masks and shifts read as arithmetic\<close>

lemma octet_and_7f [octet_simps]: "unat ((b :: u8) AND 0x7f) = unat b mod 128"
proof -
  have "(0x7f :: u8) = mask 7" by (simp add: mask_eq_exp_minus_1)
  then have "unat (b AND 0x7f) = unat (take_bit 7 b)" by (simp only: take_bit_eq_mask)
  also have "\<dots> = unat b mod 128" by (simp add: take_bit_eq_mod unat_mod_distrib)
  finally show ?thesis .
qed

lemma octet_and_1f [octet_simps]: "unat ((b :: u8) AND 0x1f) = unat b mod 32"
proof -
  have "(0x1f :: u8) = mask 5" by (simp add: mask_eq_exp_minus_1)
  then have "unat (b AND 0x1f) = unat (take_bit 5 b)" by (simp only: take_bit_eq_mask)
  also have "\<dots> = unat b mod 32" by (simp add: take_bit_eq_mod unat_mod_distrib)
  finally show ?thesis .
qed

lemma octet_high_bit [octet_simps]: "(b :: u8) AND 0x80 = 0 \<longleftrightarrow> unat b < 128"
proof -
  have "b AND 0x80 = 0 \<longleftrightarrow> \<not> bit b 7"
    using and_exp_eq_0_iff_not_bit [of b 7] by simp
  also have "\<dots> \<longleftrightarrow> \<not> bit (unat b) 7"
    by (simp add: bit_unsigned_iff)
  also have "\<dots> \<longleftrightarrow> even (unat b div 128)"
    by (simp add: bit_iff_odd)
  also have "\<dots> \<longleftrightarrow> unat b < 128"
  proof -
    have "unat b div 128 = 0 \<or> unat b div 128 = 1" using unat_u8_lt [of b] by linarith
    then show ?thesis by (auto simp: div_eq_0_iff)
  qed
  finally show ?thesis .
qed

lemma drop_bit_eq_0_iff [octet_simps]:
  "drop_bit n (w :: 'a::len word) = 0 \<longleftrightarrow> unat w < 2 ^ n"
proof -
  have "drop_bit n w = 0 \<longleftrightarrow> unat w div 2 ^ n = 0"
    by (metis drop_bit_eq_div unat_0 unat_drop_bit_eq unsigned_eq_0_iff)
  then show ?thesis by (auto simp: div_eq_0_iff)
qed

lemma octet_high: "\<not> unat (b :: u8) < 128 \<Longrightarrow> unat b = 128 + unat b mod 128"
proof -
  assume "\<not> unat b < 128"
  then have "unat b div 128 = 1" using unat_u8_lt [of b] by linarith
  then show ?thesis using div_mult_mod_eq [of "unat b" 128] by linarith
qed

lemma octet_of_nat_unat [simp]: "(word_of_nat (unat (b :: u8)) :: u8) = b"
  by simp

text \<open>Two 32-bit halves put together.\<close>

lemma unat_join_u32:
  "unat (push_bit 32 (ucast (a :: u32)) OR ucast (b :: u32) :: u64) = unat a * 2 ^ 32 + unat b"
proof -
  have disj: "push_bit 32 (ucast a) AND ucast b = (0 :: u64)"
    by (rule bit_word_eqI) (auto simp: bit_simps dest: bit_imp_le_length)
  have a: "unat (ucast a :: u64) = unat a" and b: "unat (ucast b :: u64) = unat b"
    using unat_u32_lt [of a] unat_u32_lt [of b]
    by (simp_all add: unsigned_ucast_eq take_bit_nat_eq_self_iff del: unat_u32_lt)
  have lt: "unat a * 2 ^ 32 + unat b < 2 ^ 64"
    using unat_u32_lt [of a] unat_u32_lt [of b] by (simp del: unat_u32_lt)
  have "unat (push_bit 32 (ucast a :: u64)) = take_bit LENGTH(64) (push_bit 32 (unat a))"
    by (simp only: unsigned_push_bit_eq a)
  also have "\<dots> = unat a * 2 ^ 32"
    using lt by (simp add: push_bit_eq_mult take_bit_nat_eq_self_iff)
  finally have p: "unat (push_bit 32 (ucast a :: u64)) = unat a * 2 ^ 32" .
  have "push_bit 32 (ucast a) OR ucast b = push_bit 32 (ucast a) + (ucast b :: u64)"
    using disj by (simp add: disjunctive_add_eq_or)
  then have "unat (push_bit 32 (ucast a) OR ucast b :: u64)
      = (unat (push_bit 32 (ucast a :: u64)) + unat (ucast b :: u64)) mod 2 ^ 64"
    by (simp add: unat_word_ariths)
  then show ?thesis using lt by (simp only: p b mod_less)
qed

lemma unat_split_u64:
  "unat (ucast (drop_bit 32 (v :: u64)) :: u32) = unat v div 2 ^ 32"
  "unat (ucast (v AND 0xffffffff) :: u32) = unat v mod 2 ^ 32"
proof -
  have "unat (drop_bit 32 v) = unat v div 2 ^ 32" unfolding unat_drop_bit_eq by (simp only: drop_bit_eq_div)
  moreover have "unat v div 2 ^ 32 < 2 ^ 32" using unat_u64_lt [of v] by (simp add: less_mult_imp_div_less del: unat_u64_lt)
  ultimately show "unat (ucast (drop_bit 32 v) :: u32) = unat v div 2 ^ 32"
    by (simp only: unsigned_ucast_eq take_bit_nat_eq_self_iff) (simp add: take_bit_nat_eq_self_iff)
  have "(0xffffffff :: u64) = mask 32" by (simp add: mask_eq_exp_minus_1)
  then have "v AND 0xffffffff = take_bit 32 v" by (simp only: take_bit_eq_mask)
  then have "unat (v AND 0xffffffff) = take_bit 32 (unat v)" by (simp only: unsigned_take_bit_eq)
  then show "unat (ucast (v AND 0xffffffff) :: u32) = unat v mod 2 ^ 32"
    by (simp add: unsigned_ucast_eq take_bit_eq_mod)
qed

end
