(* ===== verification/Bs_cbs.thy ===== *)
theory Bs_cbs
  imports LS_Prelude
begin

unbundle bit_operations_syntax

text \<open>
  The byte string reader of \<^verbatim>\<open>crypto/bytestring/bs_cbs.c\<close>.  A \<^verbatim>\<open>CBS\<close> is a pointer into a
  byte array and a length; the pointer is modelled by the bytes that can be addressed from
  it, so advancing the pointer by \<open>n\<close> drops \<open>n\<close> bytes.  The part a reader may look at is
  \<open>cbs_view\<close>, the first \<open>cbs_len\<close> bytes; \<open>cbs_ok\<close> says that this part lies inside the array.
  A function that returns 0 gives \<open>None\<close>, and the \<^verbatim>\<open>CBS\<close> it leaves behind is part of the
  result in both cases.  What an out parameter holds after a return of 0 is not modelled:
  no caller in the modelled code reads it.
\<close>

section \<open>The structure\<close>

record cbs =
  cbs_data :: bytes
  cbs_initial_len :: nat
  cbs_len :: nat

definition CBS_ASN1_CONSTRUCTED :: u32 where "CBS_ASN1_CONSTRUCTED = 0x20"
definition CBS_ASN1_BOOLEAN :: u32 where "CBS_ASN1_BOOLEAN = 0x01"
definition CBS_ASN1_INTEGER :: u32 where "CBS_ASN1_INTEGER = 0x02"
definition CBS_ASN1_OCTETSTRING :: u32 where "CBS_ASN1_OCTETSTRING = 0x04"
definition CBS_ASN1_SEQUENCE :: u32 where "CBS_ASN1_SEQUENCE = 0x30"
definition CBS_ASN1_SET :: u32 where "CBS_ASN1_SET = 0x31"

definition CBS_init :: "bytes \<Rightarrow> nat \<Rightarrow> cbs" where
  "CBS_init data len = \<lparr>cbs_data = data, cbs_initial_len = len, cbs_len = len\<rparr>"

definition CBS_data :: "cbs \<Rightarrow> bytes" where
  "CBS_data c = cbs_data c"

definition CBS_len :: "cbs \<Rightarrow> nat" where
  "CBS_len c = cbs_len c"

definition CBS_dup :: "cbs \<Rightarrow> cbs" where
  "CBS_dup c = (CBS_init (CBS_data c) (CBS_len c))\<lparr>cbs_initial_len := cbs_initial_len c\<rparr>"

definition CBS_offset :: "cbs \<Rightarrow> nat" where
  "CBS_offset c = cbs_initial_len c - cbs_len c"

section \<open>Taking and looking at bytes\<close>

text \<open>\<^verbatim>\<open>cbs_get\<close> hands out the pointer at which the taken bytes start.\<close>

definition cbs_get :: "nat \<Rightarrow> (cbs, bytes) step" where
  "cbs_get n c =
     (if cbs_len c < n then (None, c)
      else (Some (cbs_data c), c\<lparr>cbs_data := drop n (cbs_data c), cbs_len := cbs_len c - n\<rparr>))"

definition cbs_peek :: "nat \<Rightarrow> cbs \<Rightarrow> bytes option" where
  "cbs_peek n c = (if cbs_len c < n then None else Some (cbs_data c))"

definition CBS_skip :: "nat \<Rightarrow> (cbs, unit) step" where
  "CBS_skip len c = (case cbs_get len c of (None, c') \<Rightarrow> (None, c') | (Some _, c') \<Rightarrow> (Some (), c'))"

text \<open>Copies out of a \<^verbatim>\<open>CBS\<close>; \<open>alloc n\<close> says whether \<^verbatim>\<open>malloc(n)\<close> succeeds.  The result of
  \<open>CBS_stow\<close> is the pointer (\<open>None\<close> for \<^verbatim>\<open>NULL\<close>) and the length.\<close>

definition CBS_stow :: "(nat \<Rightarrow> bool) \<Rightarrow> cbs \<Rightarrow> (bytes option \<times> nat) option" where
  "CBS_stow alloc c =
     (if cbs_len c = 0 then Some (None, 0)
      else if \<not> alloc (cbs_len c) then None
      else Some (Some (take (cbs_len c) (cbs_data c)), cbs_len c))"

definition CBS_contains_zero_byte :: "cbs \<Rightarrow> bool" where
  "CBS_contains_zero_byte c \<longleftrightarrow> 0 \<in> set (take (cbs_len c) (cbs_data c))"

definition CBS_strdup :: "(nat \<Rightarrow> bool) \<Rightarrow> cbs \<Rightarrow> bytes option" where
  "CBS_strdup alloc c =
     (if CBS_contains_zero_byte c then None
      else if \<not> alloc (cbs_len c + 1) then None
      else Some (take (cbs_len c) (cbs_data c) @ [0]))"

definition CBS_write_bytes :: "cbs \<Rightarrow> bytes \<Rightarrow> nat \<Rightarrow> (bytes \<times> nat) option" where
  "CBS_write_bytes c dst dst_len =
     (if dst_len < cbs_len c then None
      else Some (mem_write dst 0 (take (cbs_len c) (cbs_data c)), cbs_len c))"

definition CBS_mem_equal :: "cbs \<Rightarrow> bytes \<Rightarrow> nat \<Rightarrow> bool" where
  "CBS_mem_equal c data len \<longleftrightarrow>
     (if len \<noteq> cbs_len c then False else take len (cbs_data c) = take len data)"

section \<open>Integers\<close>

definition cbs_get_u :: "nat \<Rightarrow> (cbs, u32) step" where
  "cbs_get_u len c =
     (if len < 1 \<or> 4 < len then (None, c)
      else case cbs_get len c of
        (None, c') \<Rightarrow> (None, c')
      | (Some data, c') \<Rightarrow> (Some (shift_in 0 (take len data)), c'))"

definition CBS_get_u8 :: "(cbs, u8) step" where
  "CBS_get_u8 c = (case cbs_get 1 c of (None, c') \<Rightarrow> (None, c') | (Some v, c') \<Rightarrow> (Some (v ! 0), c'))"

definition CBS_get_u16 :: "(cbs, u16) step" where
  "CBS_get_u16 c = (case cbs_get_u 2 c of (None, c') \<Rightarrow> (None, c') | (Some v, c') \<Rightarrow> (Some (ucast v), c'))"

definition CBS_get_u24 :: "(cbs, u32) step" where
  "CBS_get_u24 c = cbs_get_u 3 c"

definition CBS_get_u32 :: "(cbs, u32) step" where
  "CBS_get_u32 c = cbs_get_u 4 c"

definition CBS_get_u64 :: "(cbs, u64) step" where
  "CBS_get_u64 c =
     (if cbs_len c < 8 then (None, c)
      else case CBS_get_u32 c of
        (None, c1) \<Rightarrow> (None, c1)
      | (Some a, c1) \<Rightarrow>
          (case CBS_get_u32 c1 of
             (None, c2) \<Rightarrow> (None, c2)
           | (Some b, c2) \<Rightarrow> (Some (push_bit 32 (ucast a) OR ucast b), c2)))"

definition CBS_get_last_u8 :: "(cbs, u8) step" where
  "CBS_get_last_u8 c =
     (if cbs_len c = 0 then (None, c)
      else (Some (cbs_data c ! (cbs_len c - 1)), c\<lparr>cbs_len := cbs_len c - 1\<rparr>))"

definition CBS_get_bytes :: "nat \<Rightarrow> (cbs, cbs) step" where
  "CBS_get_bytes len c =
     (case cbs_get len c of (None, c') \<Rightarrow> (None, c') | (Some v, c') \<Rightarrow> (Some (CBS_init v len), c'))"

definition cbs_get_length_prefixed :: "nat \<Rightarrow> (cbs, cbs) step" where
  "cbs_get_length_prefixed len_len c =
     (case cbs_get_u len_len c of
        (None, c') \<Rightarrow> (None, c')
      | (Some len, c') \<Rightarrow> CBS_get_bytes (unat len) c')"

definition CBS_get_u8_length_prefixed :: "(cbs, cbs) step" where
  "CBS_get_u8_length_prefixed c = cbs_get_length_prefixed 1 c"

definition CBS_get_u16_length_prefixed :: "(cbs, cbs) step" where
  "CBS_get_u16_length_prefixed c = cbs_get_length_prefixed 2 c"

definition CBS_get_u24_length_prefixed :: "(cbs, cbs) step" where
  "CBS_get_u24_length_prefixed c = cbs_get_length_prefixed 3 c"

definition cbs_peek_u :: "nat \<Rightarrow> cbs \<Rightarrow> u32 option" where
  "cbs_peek_u len c =
     (if len < 1 \<or> 4 < len then None
      else case cbs_peek len c of None \<Rightarrow> None | Some data \<Rightarrow> Some (shift_in 0 (take len data)))"

definition CBS_peek_u8 :: "cbs \<Rightarrow> u8 option" where
  "CBS_peek_u8 c = (case cbs_peek 1 c of None \<Rightarrow> None | Some v \<Rightarrow> Some (v ! 0))"

definition CBS_peek_u16 :: "cbs \<Rightarrow> u16 option" where
  "CBS_peek_u16 c = (case cbs_peek_u 2 c of None \<Rightarrow> None | Some v \<Rightarrow> Some (ucast v))"

definition CBS_peek_u24 :: "cbs \<Rightarrow> u32 option" where
  "CBS_peek_u24 c = cbs_peek_u 3 c"

definition CBS_peek_u32 :: "cbs \<Rightarrow> u32 option" where
  "CBS_peek_u32 c = cbs_peek_u 4 c"

definition CBS_peek_last_u8 :: "cbs \<Rightarrow> u8 option" where
  "CBS_peek_last_u8 c = (if cbs_len c = 0 then None else Some (cbs_data c ! (cbs_len c - 1)))"

section \<open>ASN.1 elements\<close>

text \<open>The result is the element with its header, the tag and the length of the header.  The
  header is read from a copy, so \<open>c\<close> only moves when the whole element is there.\<close>

definition cbs_get_any_asn1_element_internal :: "bool \<Rightarrow> (cbs, cbs \<times> u32 \<times> nat) step" where
  "cbs_get_any_asn1_element_internal strict c =
     (case CBS_get_u8 c of
        (None, header) \<Rightarrow> (None, c)
      | (Some tag, header) \<Rightarrow>
     (case CBS_get_u8 header of
        (None, header) \<Rightarrow> (None, c)
      | (Some length_byte, header) \<Rightarrow>
          if tag AND 0x1f = 0x1f then (None, c)
          else if length_byte AND 0x80 = 0 then
            (case CBS_get_bytes (unat length_byte + 2) c of
               (None, c') \<Rightarrow> (None, c')
             | (Some out, c') \<Rightarrow> (Some (out, ucast tag, 2), c'))
          else
            (let num_bytes = unat (length_byte AND 0x7f) in
             if num_bytes = 0x7f then (None, c)
             else if num_bytes = 0 then
               (if strict then (None, c)
                else if ucast tag AND CBS_ASN1_CONSTRUCTED = 0 then (None, c)
                else (case CBS_get_bytes 2 c of
                        (None, c') \<Rightarrow> (None, c')
                      | (Some out, c') \<Rightarrow> (Some (out, ucast tag, 2), c')))
             else if 4 < num_bytes then (None, c)
             else
               (case cbs_get_u num_bytes header of
                  (None, header) \<Rightarrow> (None, c)
                | (Some len32, header) \<Rightarrow>
                    if len32 < 128 then (None, c)
                    else if drop_bit ((num_bytes - 1) * 8) len32 = 0 then (None, c)
                    else
                      (let len = unat len32 in
                       if size_add (size_add len 2) num_bytes < len then (None, c)
                       else (case CBS_get_bytes (len + 2 + num_bytes) c of
                               (None, c') \<Rightarrow> (None, c')
                             | (Some out, c') \<Rightarrow> (Some (out, ucast tag, 2 + num_bytes), c')))))))"

definition CBS_get_any_asn1_element :: "(cbs, cbs \<times> u32 \<times> nat) step" where
  "CBS_get_any_asn1_element c = cbs_get_any_asn1_element_internal True c"

definition cbs_get_asn1 :: "u32 \<Rightarrow> bool \<Rightarrow> (cbs, cbs) step" where
  "cbs_get_asn1 tag_value skip_header c =
     (case CBS_get_any_asn1_element c of
        (None, c') \<Rightarrow> (None, c')
      | (Some (out, tag, header_len), c') \<Rightarrow>
          if tag \<noteq> tag_value then (None, c')
          else if skip_header then
            (case CBS_skip header_len out of
               (None, out') \<Rightarrow> (None, c')
             | (Some _, out') \<Rightarrow> (Some out', c'))
          else (Some out, c'))"

definition CBS_get_asn1 :: "u32 \<Rightarrow> (cbs, cbs) step" where
  "CBS_get_asn1 tag_value c = cbs_get_asn1 tag_value True c"

definition CBS_get_asn1_element :: "u32 \<Rightarrow> (cbs, cbs) step" where
  "CBS_get_asn1_element tag_value c = cbs_get_asn1 tag_value False c"

definition CBS_peek_asn1_tag :: "cbs \<Rightarrow> u32 \<Rightarrow> bool" where
  "CBS_peek_asn1_tag c tag_value =
     (if CBS_len c < 1 then False
      else if tag_value AND 0x1f = 0x1f then False
      else ucast (CBS_data c ! 0) = tag_value)"

text \<open>The loop of \<^verbatim>\<open>CBS_get_asn1_uint64\<close> over the content octets.\<close>

fun asn1_uint64_loop :: "u64 \<Rightarrow> bytes \<Rightarrow> u64 option" where
  "asn1_uint64_loop out [] = Some out"
| "asn1_uint64_loop out (d # ds) =
     (if drop_bit 56 out \<noteq> 0 then None
      else asn1_uint64_loop (push_bit 8 out OR ucast d) ds)"

definition CBS_get_asn1_uint64 :: "(cbs, u64) step" where
  "CBS_get_asn1_uint64 c =
     (case CBS_get_asn1 CBS_ASN1_INTEGER c of
        (None, c') \<Rightarrow> (None, c')
      | (Some bs, c') \<Rightarrow>
          (let data = CBS_data bs; len = CBS_len bs in
           if len = 0 then (None, c')
           else if data ! 0 AND 0x80 \<noteq> 0 then (None, c')
           else if data ! 0 = 0 \<and> 1 < len \<and> data ! 1 AND 0x80 = 0 then (None, c')
           else (asn1_uint64_loop 0 (take len data), c')))"

text \<open>Optional elements: \<open>Some None\<close> is a return of 1 with \<^verbatim>\<open>*out_present = 0\<close>.\<close>

definition CBS_get_optional_asn1 :: "u32 \<Rightarrow> (cbs, cbs option) step" where
  "CBS_get_optional_asn1 tag c =
     (if CBS_peek_asn1_tag c tag then
        (case CBS_get_asn1 tag c of
           (None, c') \<Rightarrow> (None, c')
         | (Some out, c') \<Rightarrow> (Some (Some out), c'))
      else (Some None, c))"

definition CBS_get_optional_asn1_octet_string :: "u32 \<Rightarrow> (cbs, cbs \<times> bool) step" where
  "CBS_get_optional_asn1_octet_string tag c =
     (case CBS_get_optional_asn1 tag c of
        (None, c') \<Rightarrow> (None, c')
      | (Some None, c') \<Rightarrow> (Some (CBS_init [] 0, False), c')
      | (Some (Some child), c') \<Rightarrow>
          (case CBS_get_asn1 CBS_ASN1_OCTETSTRING child of
             (None, child') \<Rightarrow> (None, c')
           | (Some out, child') \<Rightarrow>
               if CBS_len child' \<noteq> 0 then (None, c') else (Some (out, True), c')))"

definition CBS_get_optional_asn1_uint64 :: "u32 \<Rightarrow> u64 \<Rightarrow> (cbs, u64) step" where
  "CBS_get_optional_asn1_uint64 tag default_value c =
     (case CBS_get_optional_asn1 tag c of
        (None, c') \<Rightarrow> (None, c')
      | (Some None, c') \<Rightarrow> (Some default_value, c')
      | (Some (Some child), c') \<Rightarrow>
          (case CBS_get_asn1_uint64 child of
             (None, child') \<Rightarrow> (None, c')
           | (Some out, child') \<Rightarrow>
               if CBS_len child' \<noteq> 0 then (None, c') else (Some out, c')))"

definition CBS_get_optional_asn1_bool :: "u32 \<Rightarrow> int \<Rightarrow> (cbs, int) step" where
  "CBS_get_optional_asn1_bool tag default_value c =
     (case CBS_get_optional_asn1 tag c of
        (None, c') \<Rightarrow> (None, c')
      | (Some None, c') \<Rightarrow> (Some default_value, c')
      | (Some (Some child), c') \<Rightarrow>
          (case CBS_get_asn1 CBS_ASN1_BOOLEAN child of
             (None, child') \<Rightarrow> (None, c')
           | (Some child2, child') \<Rightarrow>
               if CBS_len child2 \<noteq> 1 \<or> CBS_len child' \<noteq> 0 then (None, c')
               else (let boolean = CBS_data child2 ! 0 in
                     if boolean = 0 then (Some 0, c')
                     else if boolean = 0xff then (Some 1, c')
                     else (None, c'))))"

section \<open>Well-formed readers\<close>

definition cbs_view :: "cbs \<Rightarrow> bytes" where
  "cbs_view c = take (cbs_len c) (cbs_data c)"

definition cbs_ok :: "cbs \<Rightarrow> bool" where
  "cbs_ok c \<longleftrightarrow> cbs_len c \<le> length (cbs_data c) \<and> cbs_len c \<le> cbs_initial_len c"

definition cbs_drop :: "nat \<Rightarrow> cbs \<Rightarrow> cbs" where
  "cbs_drop n c = c\<lparr>cbs_data := drop n (cbs_data c), cbs_len := cbs_len c - n\<rparr>"

text \<open>\<open>cbs_sub c' c\<close>: the view of \<open>c'\<close> lies inside the view of \<open>c\<close>, in the same array.\<close>

definition cbs_sub :: "cbs \<Rightarrow> cbs \<Rightarrow> bool" where
  "cbs_sub c' c \<longleftrightarrow>
     (\<exists>i. cbs_data c' = drop i (cbs_data c) \<and> i + cbs_len c' \<le> cbs_len c) \<and>
     cbs_len c' \<le> cbs_initial_len c'"

named_theorems cbs_simps \<open>the reader seen through its view\<close>

lemma length_cbs_view [cbs_simps]: "cbs_ok c \<Longrightarrow> length (cbs_view c) = cbs_len c"
  by (simp add: cbs_view_def cbs_ok_def)

lemma cbs_view_drop [cbs_simps]: "cbs_view (cbs_drop n c) = drop n (cbs_view c)"
  by (simp add: cbs_view_def cbs_drop_def drop_take)

lemma cbs_ok_drop [cbs_simps]: "cbs_ok c \<Longrightarrow> cbs_ok (cbs_drop n c)"
  by (auto simp: cbs_ok_def cbs_drop_def)

lemma cbs_len_drop [cbs_simps]: "cbs_len (cbs_drop n c) = cbs_len c - n"
  by (simp add: cbs_drop_def)

lemma cbs_data_drop [cbs_simps]: "cbs_data (cbs_drop n c) = drop n (cbs_data c)"
  by (simp add: cbs_drop_def)

lemma cbs_initial_len_drop [cbs_simps]: "cbs_initial_len (cbs_drop n c) = cbs_initial_len c"
  by (simp add: cbs_drop_def)

lemma cbs_drop_drop [cbs_simps]: "cbs_drop m (cbs_drop n c) = cbs_drop (n + m) c"
  by (simp add: cbs_drop_def add.commute)

lemma cbs_drop_0 [cbs_simps]: "cbs_drop 0 c = c"
  by (simp add: cbs_drop_def)

lemma cbs_init_simps [cbs_simps]:
  "cbs_data (CBS_init d n) = d" "cbs_len (CBS_init d n) = n" "cbs_initial_len (CBS_init d n) = n"
  "cbs_view (CBS_init d n) = take n d" "cbs_ok (CBS_init d n) = (n \<le> length d)"
  by (simp_all add: CBS_init_def cbs_view_def cbs_ok_def)

lemma cbs_data_take: "n \<le> cbs_len c \<Longrightarrow> take n (cbs_data c) = take n (cbs_view c)"
  by (simp add: cbs_view_def min_def)

lemma cbs_data_nth: "n < cbs_len c \<Longrightarrow> cbs_data c ! n = cbs_view c ! n"
  by (simp add: cbs_view_def)

lemma cbs_get_eq [cbs_simps]:
  "cbs_get n c = (if cbs_len c < n then (None, c) else (Some (cbs_data c), cbs_drop n c))"
  by (simp add: cbs_get_def cbs_drop_def)

lemma cbs_sub_refl: "cbs_ok c \<Longrightarrow> cbs_sub c c"
  by (auto simp: cbs_sub_def cbs_ok_def intro: exI [where x = 0])

lemma cbs_sub_trans: "cbs_sub a b \<Longrightarrow> cbs_sub b c \<Longrightarrow> cbs_sub a c"
proof -
  assume ab: "cbs_sub a b" and bc: "cbs_sub b c"
  then obtain i j where "cbs_data a = drop i (drop j (cbs_data c))"
    "i + cbs_len a \<le> cbs_len b" "j + cbs_len b \<le> cbs_len c"
    by (auto simp: cbs_sub_def)
  then have "cbs_data a = drop (i + j) (cbs_data c) \<and> (i + j) + cbs_len a \<le> cbs_len c" by simp
  with ab show ?thesis by (auto simp: cbs_sub_def)
qed

lemma cbs_sub_ok: "cbs_sub c' c \<Longrightarrow> cbs_ok c \<Longrightarrow> cbs_ok c'"
  by (auto simp: cbs_sub_def cbs_ok_def)

lemma cbs_sub_view:
  assumes "cbs_sub c' c"
  shows "\<exists>xs ys. cbs_view c = xs @ cbs_view c' @ ys"
proof -
  obtain i where d: "cbs_data c' = drop i (cbs_data c)" and l: "i + cbs_len c' \<le> cbs_len c"
    using assms by (auto simp: cbs_sub_def)
  have "cbs_view c = take i (cbs_view c) @ take (cbs_len c') (drop i (cbs_view c))
      @ drop (cbs_len c') (drop i (cbs_view c))" by (simp only: append_take_drop_id)
  moreover have "take (cbs_len c') (drop i (cbs_view c)) = cbs_view c'"
    using l by (simp add: cbs_view_def d drop_take min_def)
  ultimately show ?thesis by metis
qed

lemma cbs_sub_drop: "cbs_ok c \<Longrightarrow> n \<le> cbs_len c \<Longrightarrow> cbs_sub (cbs_drop n c) c"
  by (auto simp: cbs_sub_def cbs_simps cbs_ok_def intro!: exI [where x = n])

lemma cbs_sub_init: "n \<le> cbs_len c \<Longrightarrow> cbs_sub (CBS_init (cbs_data c) n) c"
  by (auto simp: cbs_sub_def cbs_simps intro: exI [where x = 0])

section \<open>Fixed-width readers\<close>

text \<open>
  The contract that the readers of a fixed number of bytes share: on a short view they fail
  and leave the reader alone, otherwise they decode the first \<open>width\<close> bytes of the view and
  advance over them.
\<close>

locale fixed_reader =
  fixes get :: "cbs \<Rightarrow> 'a option \<times> cbs"
    and width :: nat
    and dec :: "bytes \<Rightarrow> 'a"
  assumes get_short: "cbs_len c < width \<Longrightarrow> get c = (None, c)"
    and get_full: "cbs_ok c \<Longrightarrow> width \<le> cbs_len c \<Longrightarrow>
      get c = (Some (dec (take width (cbs_view c))), cbs_drop width c)"
begin

lemma get_eq: "cbs_ok c \<Longrightarrow> get c =
    (if length (cbs_view c) < width then (None, c)
     else (Some (dec (take width (cbs_view c))), cbs_drop width c))"
  by (simp add: get_short get_full cbs_simps)

lemma get_append:
  assumes "cbs_ok c" and "cbs_view c = bs @ rest" and "length bs = width"
  shows "get c = (Some (dec bs), cbs_drop width c)"
proof -
  have "width \<le> cbs_len c" using assms by (metis le_add1 length_append length_cbs_view)
  then show ?thesis using assms by (simp add: get_full)
qed

lemma get_SomeE:
  assumes "cbs_ok c" and "get c = (Some x, c')"
  obtains bs where "length bs = width" and "cbs_view c = bs @ cbs_view c'" and "x = dec bs"
    and "cbs_ok c'" and "c' = cbs_drop width c" and "width \<le> cbs_len c"
proof -
  have le: "width \<le> cbs_len c" using assms(2) get_short [of c] by (cases "cbs_len c < width") auto
  have c': "c' = cbs_drop width c" and x: "x = dec (take width (cbs_view c))"
    using get_full [OF assms(1) le] assms(2) by auto
  show thesis
    by (rule that [of "take width (cbs_view c)"])
      (use assms(1) le in \<open>simp_all add: c' x cbs_simps\<close>)
qed

lemma get_NoneD: "cbs_ok c \<Longrightarrow> get c = (None, c') \<Longrightarrow> c' = c \<and> length (cbs_view c) < width"
  by (auto simp: get_eq split: if_splits)

lemma get_sub: "cbs_ok c \<Longrightarrow> get c = (r, c') \<Longrightarrow> cbs_sub c' c"
  by (auto simp: get_eq cbs_simps intro: cbs_sub_refl cbs_sub_drop split: if_splits)

end

lemma cbs_get_u_reader:
  assumes "1 \<le> n" and "n \<le> 4"
  shows "fixed_reader (cbs_get_u n) n (shift_in 0)"
proof unfold_locales
  show "cbs_len c < n \<Longrightarrow> cbs_get_u n c = (None, c)" for c
    using assms by (simp add: cbs_get_u_def cbs_simps)
  show "cbs_ok c \<Longrightarrow> n \<le> cbs_len c \<Longrightarrow>
      cbs_get_u n c = (Some (shift_in 0 (take n (cbs_view c))), cbs_drop n c)" for c
    using assms by (simp add: cbs_get_u_def cbs_simps cbs_data_take)
qed

interpretation u8: fixed_reader CBS_get_u8 1 "\<lambda>bs. bs ! 0"
  by unfold_locales (simp_all add: CBS_get_u8_def cbs_simps cbs_data_nth)

interpretation u24: fixed_reader CBS_get_u24 3 "shift_in 0"
  using cbs_get_u_reader [of 3] by (simp add: CBS_get_u24_def [abs_def])

interpretation u32: fixed_reader CBS_get_u32 4 "shift_in 0"
  using cbs_get_u_reader [of 4] by (simp add: CBS_get_u32_def [abs_def])

interpretation u16_wide: fixed_reader "cbs_get_u 2" 2 "shift_in 0"
  by (rule cbs_get_u_reader) simp_all

interpretation u16: fixed_reader CBS_get_u16 2 "\<lambda>bs. ucast (shift_in 0 bs :: u32)"
  by unfold_locales (simp_all add: CBS_get_u16_def u16_wide.get_short u16_wide.get_full)

interpretation u64: fixed_reader CBS_get_u64 8
  "\<lambda>bs. push_bit 32 (ucast (shift_in 0 (take 4 bs) :: u32)) OR ucast (shift_in 0 (drop 4 bs) :: u32)"
proof unfold_locales
  fix c
  show "cbs_len c < 8 \<Longrightarrow> CBS_get_u64 c = (None, c)" by (simp add: CBS_get_u64_def)
  assume ok: "cbs_ok c" and len: "8 \<le> cbs_len c"
  have "CBS_get_u32 c = (Some (shift_in 0 (take 4 (cbs_view c))), cbs_drop 4 c)"
    using u32.get_full [OF ok] len by simp
  moreover have "CBS_get_u32 (cbs_drop 4 c)
      = (Some (shift_in 0 (take 4 (drop 4 (cbs_view c)))), cbs_drop 8 c)"
    using u32.get_full [of "cbs_drop 4 c"] ok len by (simp add: cbs_simps)
  ultimately show "CBS_get_u64 c =
     (Some (push_bit 32 (ucast (shift_in 0 (take 4 (take 8 (cbs_view c))) :: u32))
       OR ucast (shift_in 0 (drop 4 (take 8 (cbs_view c))) :: u32)), cbs_drop 8 c)"
    using len by (simp add: CBS_get_u64_def drop_take)
qed

lemma reader_sub_simps:
  "cbs_ok c \<Longrightarrow> cbs_sub (snd (CBS_get_u8 c)) c" "cbs_ok c \<Longrightarrow> cbs_sub (snd (CBS_get_u16 c)) c"
  "cbs_ok c \<Longrightarrow> cbs_sub (snd (CBS_get_u24 c)) c" "cbs_ok c \<Longrightarrow> cbs_sub (snd (CBS_get_u32 c)) c"
  "cbs_ok c \<Longrightarrow> cbs_sub (snd (CBS_get_u64 c)) c"
  by (metis prod.collapse u8.get_sub u16.get_sub u24.get_sub u32.get_sub u64.get_sub)+

text \<open>The values the readers deliver, as numbers.\<close>

lemma unat_shift_in_0:
  assumes "(256 :: nat) ^ length bs \<le> 2 ^ LENGTH('a::len)" and "8 \<le> LENGTH('a)"
  shows "unat (shift_in (0 :: 'a word) bs) = be_val bs"
proof -
  have "be_val bs < 2 ^ LENGTH('a)" using be_val_lt [of bs] assms(1) by linarith
  then show ?thesis using assms(2) unat_shift_in [of "0 :: 'a word" bs] by simp
qed

lemma unat_shift_in_u32: "length bs \<le> 4 \<Longrightarrow> unat (shift_in (0 :: u32) bs) = be_val bs"
proof -
  assume "length bs \<le> 4"
  then have "256 ^ length bs \<le> (256 :: nat) ^ 4" by (rule power_increasing) simp
  then show ?thesis by (intro unat_shift_in_0) simp_all
qed

lemma cbs_get_bytes_eq [cbs_simps]:
  "CBS_get_bytes n c = (if cbs_len c < n then (None, c) else (Some (CBS_init (cbs_data c) n), cbs_drop n c))"
  by (simp add: CBS_get_bytes_def cbs_simps)

lemma cbs_skip_eq [cbs_simps]:
  "CBS_skip n c = (if cbs_len c < n then (None, c) else (Some (), cbs_drop n c))"
  by (simp add: CBS_skip_def cbs_simps)

text \<open>A length prefix of \<open>k\<close> bytes followed by that many bytes of content.\<close>

lemma cbs_get_length_prefixed_append:
  assumes "cbs_ok c" and "1 \<le> k" and "k \<le> 4" and "length body < 256 ^ k"
    and "cbs_view c = be_bytes k (length body) @ body @ rest"
  shows "cbs_get_length_prefixed k c =
    (Some (CBS_init (drop k (cbs_data c)) (length body)), cbs_drop (k + length body) c)"
proof -
  have "cbs_get_u k c = (Some (shift_in 0 (be_bytes k (length body))), cbs_drop k c)"
    by (rule fixed_reader.get_append [OF cbs_get_u_reader [OF assms(2,3)] assms(1,5)]) simp
  moreover have "unat (shift_in (0 :: u32) (be_bytes k (length body))) = length body"
    using assms by (simp add: unat_shift_in_u32 be_simps)
  moreover have "cbs_len c = k + length body + length rest"
    using arg_cong [OF assms(5), of length] assms(1) by (simp add: cbs_simps)
  ultimately show ?thesis
    by (simp add: cbs_get_length_prefixed_def cbs_simps)
qed

section \<open>Reading an ASN.1 element, seen on the view\<close>

text \<open>The header of an element as a function of the bytes in view: the length of the whole
  element, the identifier octet and the length of the header.\<close>

fun asn1_header :: "bool \<Rightarrow> bytes \<Rightarrow> (nat \<times> u8 \<times> nat) option" where
  "asn1_header strict (t # lb # rest) =
     (if t AND 0x1f = 0x1f then None
      else if unat lb < 128 then Some (unat lb + 2, t, 2)
      else (let k = unat lb mod 128 in
        if k = 0 then (if strict \<or> ucast t AND CBS_ASN1_CONSTRUCTED = 0 then None else Some (2, t, 2))
        else if 4 < k \<or> length rest < k then None
        else (let len = be_val (take k rest) in
          if len < 128 \<or> len < 2 ^ ((k - 1) * 8) then None else Some (len + 2 + k, t, 2 + k))))"
| "asn1_header strict v = None"

lemma be_val_take_u32: "k \<le> 4 \<Longrightarrow> be_val (take k bs) < 2 ^ 32"
proof -
  assume "k \<le> 4"
  then have "(256 :: nat) ^ length (take k bs) \<le> 256 ^ 4" by (intro power_increasing) auto
  then show ?thesis using be_val_lt [of "take k bs"] by simp
qed

lemma get_any_asn1_element_header:
  assumes ok: "cbs_ok c"
  shows "cbs_get_any_asn1_element_internal strict c =
    (case asn1_header strict (cbs_view c) of
       None \<Rightarrow> (None, c)
     | Some (n, t, h) \<Rightarrow>
         if cbs_len c < n then (None, c)
         else (Some (CBS_init (cbs_data c) n, ucast t, h), cbs_drop n c))"
proof (cases "cbs_view c" rule: remdups_adj.cases)
  case 1
  then show ?thesis using ok by (simp add: cbs_get_any_asn1_element_internal_def u8.get_eq)
next
  case (2 t)
  then show ?thesis using ok
    by (simp add: cbs_get_any_asn1_element_internal_def u8.get_eq cbs_simps)
next
  case (3 t lb rest)
  define k where "k = unat lb mod 128"
  have g1: "CBS_get_u8 c = (Some t, cbs_drop 1 c)"
    using u8.get_append [OF ok, of "[t]" "lb # rest"] 3 by simp
  have g2: "CBS_get_u8 (cbs_drop 1 c) = (Some lb, cbs_drop 2 c)"
    using u8.get_append [of "cbs_drop 1 c" "[lb]" rest] ok 3 by (simp add: cbs_simps numeral_2_eq_2)
  have gk: "cbs_get_u k (cbs_drop 2 c) =
      (if length rest < k then (None, cbs_drop 2 c)
       else (Some (shift_in 0 (take k rest)), cbs_drop k (cbs_drop 2 c)))" if "k \<noteq> 0" "k \<le> 4"
    using fixed_reader.get_eq [OF cbs_get_u_reader, of k "cbs_drop 2 c"] that ok 3
    by (simp add: cbs_simps)
  have lb: "unat (lb AND 0x7f) = k" by (simp add: k_def octet_simps)
  have len32: "unat (shift_in (0 :: u32) (take k rest)) = be_val (take k rest)" if "k \<le> 4"
    using that by (intro unat_shift_in_u32) simp
  have small: "size_add (size_add (be_val (take k rest)) 2) k = be_val (take k rest) + 2 + k"
    if "k \<le> 4"
    using be_val_take_u32 [OF that, of rest] that by (simp add: size_add_small SIZE_MAX_def)
  have lt128: "shift_in (0 :: u32) (take k rest) < 128 \<longleftrightarrow> be_val (take k rest) < 128" if "k \<le> 4"
    using len32 [OF that] by (simp add: word_less_nat_alt)
  show ?thesis
    unfolding cbs_get_any_asn1_element_internal_def
    by (simp add: 3 g1 g2 [unfolded One_nat_def] gk lb len32 small lt128 octet_simps Let_def cbs_simps
        flip: k_def)
qed

section \<open>The distinguished encoding of an element\<close>

text \<open>X.690 section 8.1.3: the length octets, shortest form.\<close>

definition der_length :: "nat \<Rightarrow> bytes" where
  "der_length n =
     (if n < 0x80 then be_bytes 1 n
      else if n < 0x100 then 0x81 # be_bytes 1 n
      else if n < 0x10000 then 0x82 # be_bytes 2 n
      else if n < 0x1000000 then 0x83 # be_bytes 3 n
      else 0x84 # be_bytes 4 n)"

definition der_element :: "u8 \<Rightarrow> bytes \<Rightarrow> bytes" where
  "der_element t body = t # der_length (length body) @ body"

lemma octet_eq_iff: "(a :: u8) = b \<longleftrightarrow> unat a = unat b"
  by (rule word_unat_eq_iff)

lemma asn1_header_der_length:
  assumes "t AND 0x1f \<noteq> 0x1f" and "n < 2 ^ 32"
  shows "asn1_header strict (t # der_length n @ rest)
    = Some (1 + length (der_length n) + n, t, 1 + length (der_length n))"
proof -
  have long: "asn1_header strict (t # lb # be_bytes k n @ rest) = Some (n + 2 + k, t, 2 + k)"
    if "unat lb = 128 + k" "1 \<le> k" "k \<le> 4" "128 \<le> n" "2 ^ ((k - 1) * 8) \<le> n" "n < 256 ^ k" for k lb
    using that assms by (simp add: be_simps Let_def)
  show ?thesis
  proof (cases "n < 0x80")
    case True
    then have "unat (word_of_nat n :: u8) = n" by simp
    with True assms show ?thesis by (simp add: der_length_def)
  next
    case False
    then consider "n < 0x100" | "0x100 \<le> n" "n < 0x10000" | "0x10000 \<le> n" "n < 0x1000000"
      | "0x1000000 \<le> n" by linarith
    then show ?thesis
    proof cases
      case 1
      then show ?thesis using False long [of "0x81" 1] by (simp add: der_length_def)
    next
      case 2
      then show ?thesis using long [of "0x82" 2] by (simp add: der_length_def)
    next
      case 3
      then show ?thesis using long [of "0x83" 3] by (simp add: der_length_def)
    next
      case 4
      then show ?thesis using long [of "0x84" 4] assms by (simp add: der_length_def)
    qed
  qed
qed

text \<open>In strict mode a header is accepted only in that form.\<close>

lemma asn1_header_strictD:
  assumes "asn1_header True v = Some (n, t, h)" and "n \<le> length v"
  shows "\<exists>len rest. v = t # der_length len @ rest \<and> len < 2 ^ 32 \<and> t AND 0x1f \<noteq> 0x1f \<and>
    h = 1 + length (der_length len) \<and> n = h + len"
proof (cases v rule: remdups_adj.cases)
  case (3 t' lb rest)
  define k where "k = unat lb mod 128"
  show ?thesis
  proof (cases "unat lb < 128")
    case True
    have "der_length (unat lb) = [lb]" using True by (simp add: der_length_def)
    moreover have "n = unat lb + 2" "t = t'" "h = 2" "t AND 0x1f \<noteq> 0x1f"
      using assms True 3 by (auto split: if_splits)
    ultimately show ?thesis
      using 3 True by (intro exI [of _ "unat lb"] exI [of _ rest]) simp
  next
    case False
    then have lb: "unat lb = 128 + k" unfolding k_def by (rule octet_high)
    define len where "len = be_val (take k rest)"
    have k: "1 \<le> k" "k \<le> 4" "k \<le> length rest" and len: "128 \<le> len" "2 ^ ((k - 1) * 8) \<le> len"
      and res: "n = len + 2 + k" "t = t'" "h = 2 + k" "t AND 0x1f \<noteq> 0x1f"
      using assms(1) False 3 by (auto simp: Let_def len_def simp flip: k_def split: if_splits)
    have hi: "len < 256 ^ k" using be_val_lt [of "take k rest"] k by (simp add: len_def min.absorb2)
    have bytes: "be_bytes k len = take k rest" using k by (simp add: len_def be_simps)
    have "k = 1 \<or> k = 2 \<or> k = 3 \<or> k = 4" using k by linarith
    then have "der_length len = lb # take k rest"
      using lb len hi unfolding bytes [symmetric] by (auto simp: der_length_def octet_eq_iff)
    moreover have "len < 2 ^ 32" using be_val_take_u32 [OF k(2)] by (simp add: len_def)
    ultimately show ?thesis
      using 3 k res by (intro exI [of _ len] exI [of _ "drop k rest"]) simp
  qed
qed (use assms in auto)

lemma get_any_asn1_element_complete:
  assumes "cbs_ok c" and "cbs_view c = der_element t body @ rest"
    and "t AND 0x1f \<noteq> 0x1f" and "length body < 2 ^ 32"
  shows "CBS_get_any_asn1_element c =
    (Some (CBS_init (cbs_data c) (length (der_element t body)), ucast t,
           1 + length (der_length (length body))), cbs_drop (length (der_element t body)) c)"
proof -
  have "cbs_len c = length (der_element t body) + length rest"
    using assms(1,2) by (metis length_append length_cbs_view)
  then show ?thesis
    using asn1_header_der_length [OF assms(3,4), of True "body @ rest"] assms(1,2)
    by (simp add: CBS_get_any_asn1_element_def get_any_asn1_element_header der_element_def)
qed

lemma get_any_asn1_element_sound:
  assumes ok: "cbs_ok c" and res: "CBS_get_any_asn1_element c = (Some (out, tag, h), c')"
  obtains t body where "cbs_view c = der_element t body @ cbs_view c'" and "tag = ucast t"
    and "t AND 0x1f \<noteq> 0x1f" and "length body < 2 ^ 32" and "h = 1 + length (der_length (length body))"
    and "cbs_view out = der_element t body" and "cbs_ok out" and "cbs_ok c'" and "cbs_sub c' c"
    and "cbs_sub out c"
proof -
  obtain n t where hd: "asn1_header True (cbs_view c) = Some (n, t, h)" and n: "n \<le> cbs_len c"
    and out: "out = CBS_init (cbs_data c) n" and c': "c' = cbs_drop n c" and tag: "tag = ucast t"
    using res ok by (auto simp: CBS_get_any_asn1_element_def get_any_asn1_element_header
        split: option.splits if_splits)
  then obtain len rest where v: "cbs_view c = t # der_length len @ rest"
    and l: "len < 2 ^ 32" "t AND 0x1f \<noteq> 0x1f" "h = 1 + length (der_length len)" "n = h + len"
    using asn1_header_strictD [OF hd] ok by (auto simp: cbs_simps)
  define body where "body = take len rest"
  have "cbs_len c = h + length rest" using v ok l(3) by (metis length_cbs_view length_Cons
        length_append plus_1_eq_Suc add.assoc)
  then have lb: "length body = len" using n l(4) by (simp add: body_def)
  have v2: "cbs_view c = der_element t body @ drop len rest"
    by (simp add: v der_element_def lb) (simp add: body_def)
  have n2: "n = length (der_element t body)" using l lb by (simp add: der_element_def)
  have vc': "cbs_view c' = drop len rest" by (simp add: c' cbs_simps v2 n2)
  have vo: "cbs_view out = der_element t body"
    using n by (simp add: out cbs_simps cbs_data_take v2 n2)
  show thesis
  proof (rule that [of t body])
    show "cbs_ok out" using n ok by (simp add: out cbs_simps cbs_ok_def)
    show "cbs_ok c'" using ok by (simp add: c' cbs_simps)
    show "cbs_sub c' c" using n ok by (simp add: c' cbs_sub_drop)
    show "cbs_sub out c" using n by (simp add: out cbs_sub_init)
  qed (use v2 vc' vo tag l lb in simp_all)
qed

section \<open>No read leaves the view\<close>

lemma cbs_sub_dup: "cbs_ok c \<Longrightarrow> cbs_sub (CBS_dup c) c"
  by (auto simp: cbs_sub_def CBS_dup_def CBS_data_def CBS_len_def CBS_init_def cbs_ok_def
      intro: exI [where x = 0])

lemma cbs_sub_get_bytes: "cbs_ok c \<Longrightarrow> cbs_sub (snd (CBS_get_bytes n c)) c"
  by (auto simp: cbs_simps intro: cbs_sub_refl cbs_sub_drop)

lemma cbs_sub_get_bytes_out: "cbs_ok c \<Longrightarrow> CBS_get_bytes n c = (Some out, c') \<Longrightarrow> cbs_sub out c"
  by (auto simp: cbs_simps intro: cbs_sub_init split: if_splits)

lemma cbs_sub_skip: "cbs_ok c \<Longrightarrow> cbs_sub (snd (CBS_skip n c)) c"
  by (auto simp: cbs_simps intro: cbs_sub_refl cbs_sub_drop)

lemma cbs_sub_last: "cbs_ok c \<Longrightarrow> cbs_sub (snd (CBS_get_last_u8 c)) c"
  by (auto simp: CBS_get_last_u8_def cbs_sub_def cbs_ok_def intro: exI [where x = 0])

lemma cbs_sub_get_u: "cbs_ok c \<Longrightarrow> cbs_get_u n c = (r, c') \<Longrightarrow> cbs_sub c' c"
  by (auto simp: cbs_get_u_def cbs_simps intro: cbs_sub_refl cbs_sub_drop split: if_splits)

lemma cbs_sub_length_prefixed:
  assumes "cbs_ok c" and "cbs_get_length_prefixed n c = (r, c')"
  shows "cbs_sub c' c" and "r = Some out \<Longrightarrow> cbs_sub out c"
proof -
  obtain l d where d: "cbs_get_u n c = (l, d)" by fastforce
  have sub: "cbs_sub d c" by (rule cbs_sub_get_u [OF assms(1) d])
  then have ok: "cbs_ok d" using assms(1) by (rule cbs_sub_ok)
  show "cbs_sub c' c"
    using assms(2) d sub cbs_sub_trans [OF cbs_sub_get_bytes [OF ok] sub]
    by (auto simp: cbs_get_length_prefixed_def split: option.splits) (metis snd_conv)
  show "r = Some out \<Longrightarrow> cbs_sub out c"
    using assms(2) d sub cbs_sub_trans [OF cbs_sub_get_bytes_out [OF ok] sub]
    by (auto simp: cbs_get_length_prefixed_def split: option.splits)
qed

lemma cbs_sub_any_element:
  assumes "cbs_ok c" and "cbs_get_any_asn1_element_internal strict c = (r, c')"
  shows "cbs_sub c' c" and "r = Some (out, tag, h) \<Longrightarrow> cbs_sub out c"
  using assms by (auto simp: get_any_asn1_element_header cbs_sub_refl cbs_sub_drop cbs_sub_init
      split: option.splits if_splits)

lemma cbs_sub_asn1:
  assumes "cbs_ok c" and "cbs_get_asn1 tag_value skip c = (r, c')"
  shows "cbs_sub c' c" and "r = Some out \<Longrightarrow> cbs_sub out c"
proof -
  obtain x d where x: "cbs_get_any_asn1_element_internal True c = (x, d)" by fastforce
  have sub: "cbs_sub d c" by (rule cbs_sub_any_element [OF assms(1) x])
  show "cbs_sub c' c"
    using assms(2) sub x
    by (auto simp: cbs_get_asn1_def CBS_get_any_asn1_element_def split: option.splits prod.splits if_splits)
  assume r: "r = Some out"
  then obtain e tag h where e: "x = Some (e, tag, h)" and out: "out = e \<or> out = snd (CBS_skip h e)"
    using assms(2) x
    by (force simp: cbs_get_asn1_def CBS_get_any_asn1_element_def split: option.splits prod.splits if_splits)
  have es: "cbs_sub e c" by (rule cbs_sub_any_element(2) [OF assms(1) x e])
  then have "cbs_ok e" using assms(1) by (rule cbs_sub_ok)
  then show "cbs_sub out c" using out es cbs_sub_skip cbs_sub_trans by blast
qed

lemma cbs_sub_optional_asn1:
  assumes "cbs_ok c" and "CBS_get_optional_asn1 tag c = (r, c')"
  shows "cbs_sub c' c" and "r = Some (Some out) \<Longrightarrow> cbs_sub out c"
  using assms cbs_sub_asn1 [OF assms(1), of tag True "fst (CBS_get_asn1 tag c)" "snd (CBS_get_asn1 tag c)"]
  by (auto simp: CBS_get_optional_asn1_def CBS_get_asn1_def cbs_sub_refl split: option.splits prod.splits if_splits)

lemma cbs_sub_asn1_uint64:
  assumes "cbs_ok c" and "CBS_get_asn1_uint64 c = (r, c')"
  shows "cbs_sub c' c"
proof -
  obtain x d where x: "cbs_get_asn1 CBS_ASN1_INTEGER True c = (x, d)" by fastforce
  have "cbs_sub d c" by (rule cbs_sub_asn1 [OF assms(1) x])
  then show ?thesis using assms(2) x
    by (auto simp: CBS_get_asn1_uint64_def CBS_get_asn1_def Let_def split: option.splits if_splits)
qed

text \<open>Every reader a parser can obtain from \<open>c\<close>: what is left of a reader after a call, and
  the readers that calls hand out.\<close>

inductive cbs_reach :: "cbs \<Rightarrow> cbs \<Rightarrow> bool" for c where
  self: "cbs_reach c c"
| dup: "cbs_reach c d \<Longrightarrow> cbs_reach c (CBS_dup d)"
| skip: "cbs_reach c d \<Longrightarrow> CBS_skip n d = (r, d') \<Longrightarrow> cbs_reach c d'"
| u8: "cbs_reach c d \<Longrightarrow> CBS_get_u8 d = (r8, d') \<Longrightarrow> cbs_reach c d'"
| u16: "cbs_reach c d \<Longrightarrow> CBS_get_u16 d = (r16, d') \<Longrightarrow> cbs_reach c d'"
| u24: "cbs_reach c d \<Longrightarrow> CBS_get_u24 d = (r32, d') \<Longrightarrow> cbs_reach c d'"
| u32: "cbs_reach c d \<Longrightarrow> CBS_get_u32 d = (r32, d') \<Longrightarrow> cbs_reach c d'"
| u64: "cbs_reach c d \<Longrightarrow> CBS_get_u64 d = (r64, d') \<Longrightarrow> cbs_reach c d'"
| last: "cbs_reach c d \<Longrightarrow> CBS_get_last_u8 d = (r8, d') \<Longrightarrow> cbs_reach c d'"
| bytes: "cbs_reach c d \<Longrightarrow> CBS_get_bytes n d = (rc, d') \<Longrightarrow> cbs_reach c d'"
| bytes_out: "cbs_reach c d \<Longrightarrow> CBS_get_bytes n d = (Some out, d') \<Longrightarrow> cbs_reach c out"
| lp8: "cbs_reach c d \<Longrightarrow> CBS_get_u8_length_prefixed d = (rc, d') \<Longrightarrow> cbs_reach c d'"
| lp8_out: "cbs_reach c d \<Longrightarrow> CBS_get_u8_length_prefixed d = (Some out, d') \<Longrightarrow> cbs_reach c out"
| lp16: "cbs_reach c d \<Longrightarrow> CBS_get_u16_length_prefixed d = (rc, d') \<Longrightarrow> cbs_reach c d'"
| lp16_out: "cbs_reach c d \<Longrightarrow> CBS_get_u16_length_prefixed d = (Some out, d') \<Longrightarrow> cbs_reach c out"
| lp24: "cbs_reach c d \<Longrightarrow> CBS_get_u24_length_prefixed d = (rc, d') \<Longrightarrow> cbs_reach c d'"
| lp24_out: "cbs_reach c d \<Longrightarrow> CBS_get_u24_length_prefixed d = (Some out, d') \<Longrightarrow> cbs_reach c out"
| any: "cbs_reach c d \<Longrightarrow> cbs_get_any_asn1_element_internal strict d = (re, d') \<Longrightarrow> cbs_reach c d'"
| any_out: "cbs_reach c d \<Longrightarrow> cbs_get_any_asn1_element_internal strict d = (Some (out, tag, h), d')
    \<Longrightarrow> cbs_reach c out"
| asn1: "cbs_reach c d \<Longrightarrow> cbs_get_asn1 tag sk d = (rc, d') \<Longrightarrow> cbs_reach c d'"
| asn1_out: "cbs_reach c d \<Longrightarrow> cbs_get_asn1 tag sk d = (Some out, d') \<Longrightarrow> cbs_reach c out"
| opt: "cbs_reach c d \<Longrightarrow> CBS_get_optional_asn1 tag d = (ro, d') \<Longrightarrow> cbs_reach c d'"
| opt_out: "cbs_reach c d \<Longrightarrow> CBS_get_optional_asn1 tag d = (Some (Some out), d') \<Longrightarrow> cbs_reach c out"
| int64: "cbs_reach c d \<Longrightarrow> CBS_get_asn1_uint64 d = (r64, d') \<Longrightarrow> cbs_reach c d'"

lemma cbs_sub_step:
  "cbs_sub d c \<Longrightarrow> cbs_ok c \<Longrightarrow> (cbs_ok d \<Longrightarrow> cbs_sub d' d) \<Longrightarrow> cbs_sub d' c"
  using cbs_sub_ok cbs_sub_trans by blast

lemmas cbs_step_subs =
  u8.get_sub u16.get_sub u24.get_sub u32.get_sub u64.get_sub
  cbs_sub_length_prefixed [where n = 1, folded CBS_get_u8_length_prefixed_def]
  cbs_sub_length_prefixed [where n = 2, folded CBS_get_u16_length_prefixed_def]
  cbs_sub_length_prefixed [where n = 3, folded CBS_get_u24_length_prefixed_def]
  cbs_sub_any_element cbs_sub_asn1 cbs_sub_optional_asn1 cbs_sub_asn1_uint64
  cbs_sub_get_bytes_out

lemma cbs_reach_sub:
  assumes "cbs_ok c" and "cbs_reach c d"
  shows "cbs_sub d c"
  using assms(2)
proof induction
  case self
  show ?case using assms(1) by (rule cbs_sub_refl)
next
  case (dup d)
  from dup.IH show ?case by (rule cbs_sub_step [OF _ assms(1) cbs_sub_dup])
next
  case (skip d n r d')
  then show ?case using cbs_sub_skip [of d n] by (auto intro: cbs_sub_step [OF _ assms(1)])
next
  case (last d r8 d')
  then show ?case using cbs_sub_last [of d] by (auto intro: cbs_sub_step [OF _ assms(1)])
next
  case (bytes d n rc d')
  then show ?case using cbs_sub_get_bytes [of d n] by (auto intro: cbs_sub_step [OF _ assms(1)])
qed (erule cbs_sub_step [OF _ assms(1)], (rule cbs_step_subs, assumption, assumption, (rule refl)?))+

section \<open>INTEGER contents\<close>

text \<open>The loop fails exactly when the value does not fit in 64 bits.\<close>

lemma asn1_uint64_loop_eq:
  "asn1_uint64_loop acc ds =
    (if unat acc * 256 ^ length ds + be_val ds < 2 ^ 64
     then Some (word_of_nat (unat acc * 256 ^ length ds + be_val ds)) else None)"
proof (induction ds arbitrary: acc)
  case Nil
  then show ?case using unat_u64_lt [of acc] by simp
next
  case (Cons d ds)
  let ?n = "unat acc * 256 ^ length (d # ds) + be_val (d # ds)"
  have eq: "?n = (unat acc * 256 + unat d) * 256 ^ length ds + be_val ds"
    by (simp add: algebra_simps)
  show ?case
  proof (cases "unat acc < 2 ^ 56")
    case True
    have "unat acc < 72057594037927936" using True by simp
    then have "unat acc * 256 + unat d < 18446744073709551616" using unat_u8_lt [of d] by linarith
    then have small: "unat acc * 256 + unat d < 2 ^ 64" by simp
    have st: "unat (push_bit 8 acc OR ucast d) = unat acc * 256 + unat d"
      by (rule unat_shift_in_step) (use small in simp_all)
    then show ?thesis using True Cons [of "push_bit 8 acc OR ucast d"]
      by (simp only: asn1_uint64_loop.simps octet_simps eq st not_not if_False) simp
  next
    case False
    then have "2 ^ 56 * 256 \<le> unat acc * 256" by simp
    also have "\<dots> \<le> unat acc * 256 + unat d" by simp
    also have "\<dots> \<le> (unat acc * 256 + unat d) * 256 ^ length ds + be_val ds"
      by (rule trans_le_add1) simp
    finally have "\<not> ?n < 2 ^ 64" unfolding eq by simp
    then show ?thesis using False by (simp only: asn1_uint64_loop.simps octet_simps) simp
  qed
qed

text \<open>The content octets of a non-negative INTEGER in shortest form (X.690 section 8.3.2).\<close>

definition der_unsigned :: "bytes \<Rightarrow> bool" where
  "der_unsigned bs \<longleftrightarrow> bs \<noteq> [] \<and> unat (bs ! 0) < 128 \<and>
     (bs ! 0 = 0 \<and> 1 < length bs \<longrightarrow> 128 \<le> unat (bs ! 1))"

lemma get_asn1_complete:
  assumes "cbs_ok c" and "cbs_view c = der_element t body @ rest"
    and "t AND 0x1f \<noteq> 0x1f" and "length body < 2 ^ 32" and "tag = ucast t"
  shows "CBS_get_asn1 tag c =
    (Some (cbs_drop (1 + length (der_length (length body))) (CBS_init (cbs_data c) (length (der_element t body)))),
     cbs_drop (length (der_element t body)) c)"
  using get_any_asn1_element_complete [OF assms(1-4)] assms(5)
  by (simp add: CBS_get_asn1_def cbs_get_asn1_def cbs_simps der_element_def)

lemma get_asn1_complete_view:
  assumes "cbs_ok c" and "cbs_view c = der_element t body @ rest"
    and "t AND 0x1f \<noteq> 0x1f" and "length body < 2 ^ 32" and "tag = ucast t"
  obtains out c' where "CBS_get_asn1 tag c = (Some out, c')" and "cbs_view out = body"
    and "cbs_view c' = rest" and "cbs_ok out" and "cbs_ok c'"
proof -
  let ?n = "length (der_element t body)"
  have len: "cbs_len c = ?n + length rest"
    using assms(1,2) by (metis length_append length_cbs_view)
  have le: "?n \<le> length (cbs_data c)" using len assms(1) by (simp add: cbs_ok_def)
  have v: "cbs_view (CBS_init (cbs_data c) ?n) = der_element t body"
    using len by (simp add: cbs_simps cbs_data_take assms(2))
  show thesis
    by (rule that [OF get_asn1_complete [OF assms]])
      (use assms v le in \<open>simp_all add: cbs_simps der_element_def\<close>)
qed

lemma asn1_sound:
  assumes "cbs_ok c" and "CBS_get_asn1 tag c = (Some out, c')"
  obtains t where "cbs_view c = der_element t (cbs_view out) @ cbs_view c'" and "tag = ucast t"
    and "t AND 0x1f \<noteq> 0x1f" and "length (cbs_view out) < 2 ^ 32" and "cbs_ok out" and "cbs_ok c'"
proof -
  obtain e h where e: "CBS_get_any_asn1_element c = (Some (e, tag, h), c')"
    and out: "out = cbs_drop h e"
    using assms(2) by (auto simp: CBS_get_asn1_def cbs_get_asn1_def cbs_simps
        split: option.splits prod.splits if_splits)
  obtain t body where v: "cbs_view c = der_element t body @ cbs_view c'" "tag = ucast t"
    "t AND 0x1f \<noteq> 0x1f" "length body < 2 ^ 32" "h = 1 + length (der_length (length body))"
    "cbs_view e = der_element t body" "cbs_ok e" "cbs_ok c'"
    by (rule get_any_asn1_element_sound [OF assms(1) e])
  have "cbs_view out = body" by (simp add: out cbs_simps v(5,6)) (simp add: der_element_def)
  then show thesis using v out by (intro that [of t]) (simp_all add: cbs_simps)
qed

lemma ucast_u8_inj: "(ucast (a :: u8) :: u32) = ucast b \<longleftrightarrow> a = b"
  by (metis unat_ucast_u8_u32 word_unat_eq_iff)

section \<open>Properties of the reader\<close>

text \<open>C35: memory safety of parsing.  Whatever sequence of reader calls a parser makes, on the
  reader it was given and on the readers those calls hand out, every reader it can come to hold
  is well formed and its bytes are a contiguous part of the bytes of the original one.\<close>

theorem cbs_reader_confined:
  assumes "cbs_ok c" and "cbs_reach c d"
  shows "cbs_ok d \<and> (\<exists>xs ys. cbs_view c = xs @ cbs_view d @ ys)"
  using cbs_reach_sub [OF assms] cbs_sub_ok cbs_sub_view assms(1) by blast

theorem cbs_reader_confined_witness:
  "cbs_ok (CBS_init [0x30, 3, 2, 1, 7] 5) \<and>
   cbs_reach (CBS_init [0x30, 3, 2, 1, 7] 5) (snd (CBS_get_u8 (CBS_init [0x30, 3, 2, 1, 7] 5))) \<and>
   cbs_ok (snd (CBS_get_u8 (CBS_init [0x30, 3, 2, 1, 7] 5)))"
proof -
  let ?c = "CBS_init [0x30, 3, 2, 1, 7] 5"
  have ok: "cbs_ok ?c" by (simp add: CBS_init_def cbs_ok_def)
  have r: "cbs_reach ?c (snd (CBS_get_u8 ?c))"
    by (rule cbs_reach.u8 [OF cbs_reach.self]) (rule prod.collapse [symmetric])
  show ?thesis using cbs_reader_confined [OF ok r] ok r by blast
qed

text \<open>C39: \<open>CBS_get_any_asn1_element\<close> accepts exactly the DER elements (low tag numbers, a
  definite length in its shortest form, below \<open>2 ^ 32\<close>), hands out the whole element and
  leaves what follows it.\<close>

theorem get_any_asn1_element_iff:
  assumes "cbs_ok c"
  shows "(\<exists>out h c'. CBS_get_any_asn1_element c = (Some (out, ucast t, h), c') \<and>
      cbs_view out = e \<and> cbs_view c' = rest) \<longleftrightarrow>
    (\<exists>body. e = der_element t body \<and> cbs_view c = e @ rest \<and> t AND 0x1f \<noteq> 0x1f \<and> length body < 2 ^ 32)"
    (is "?L \<longleftrightarrow> ?R")
proof
  assume ?L
  then obtain out h c' where r: "CBS_get_any_asn1_element c = (Some (out, ucast t, h), c')"
    and v: "cbs_view out = e" "cbs_view c' = rest" by blast
  show ?R by (rule get_any_asn1_element_sound [OF assms r]) (use v ucast_u8_inj in auto)
next
  assume ?R
  then obtain body where b: "e = der_element t body" "cbs_view c = der_element t body @ rest"
    "t AND 0x1f \<noteq> 0x1f" "length body < 2 ^ 32" by blast
  have "length e \<le> cbs_len c"
    using arg_cong [OF b(2), of length] assms b(1) by (simp add: cbs_simps)
  then show ?L using get_any_asn1_element_complete [OF assms b(2-4)] b(1,2)
    by (simp add: cbs_simps cbs_data_take)
qed

theorem get_any_asn1_element_iff_witness:
  "\<exists>out h c'. CBS_get_any_asn1_element (CBS_init [4, 1, 7, 9] 4) = (Some (out, ucast (4 :: u8), h), c') \<and>
     cbs_view out = [4, 1, 7] \<and> cbs_view c' = [9]"
proof -
  have ok: "cbs_ok (CBS_init [4, 1, 7, 9] 4)" by (simp add: CBS_init_def cbs_ok_def)
  show ?thesis
    unfolding get_any_asn1_element_iff [OF ok]
    by (rule exI [of _ "[7]"]) (simp add: der_element_def der_length_def cbs_view_def CBS_init_def)
qed

text \<open>A length-prefixed string is read exactly when it is there: on success the reader held
  the prefix, the content handed out and what is left; a prefix followed by its content is
  always accepted.\<close>

theorem get_length_prefixed_iff:
  assumes "cbs_ok c" and "1 \<le> k" and "k \<le> 4"
  shows "(\<exists>out c'. cbs_get_length_prefixed k c = (Some out, c') \<and> cbs_view out = body \<and> cbs_view c' = rest) \<longleftrightarrow>
    length body < 256 ^ k \<and> cbs_view c = be_bytes k (length body) @ body @ rest"
    (is "?L \<longleftrightarrow> ?R")
proof
  assume ?L
  then obtain out c' where r: "cbs_get_length_prefixed k c = (Some out, c')"
    and v: "cbs_view out = body" "cbs_view c' = rest" by blast
  note fr = cbs_get_u_reader [OF assms(2,3)]
  obtain n c1 where n: "cbs_get_u k c = (Some n, c1)" and g: "CBS_get_bytes (unat n) c1 = (Some out, c')"
    using r by (auto simp: cbs_get_length_prefixed_def split: prod.splits option.splits)
  obtain bs r1 where b: "cbs_view c = bs @ cbs_view c1" "length bs = k" "n = shift_in 0 bs" and ok1: "cbs_ok c1"
    using fixed_reader.get_SomeE [OF fr assms(1) n] by metis
  have le: "unat n \<le> cbs_len c1" and c': "out = CBS_init (cbs_data c1) (unat n)" "c' = cbs_drop (unat n) c1"
    using g by (auto simp: cbs_simps split: if_splits)
  have body: "body = take (unat n) (cbs_view c1)" and rest: "rest = drop (unat n) (cbs_view c1)"
    using v le by (auto simp: c' cbs_simps cbs_data_take)
  have len: "length body = unat n" using le ok1 by (simp add: body cbs_simps)
  have val: "unat n = be_val bs" using b(2,3) assms(3) by (simp add: unat_shift_in_u32)
  have "be_bytes k (length body) = bs" using len val be_bytes_be_val [of bs] b(2) by simp
  moreover have "length body < 256 ^ k" using len val be_val_lt [of bs] b(2) by simp
  ultimately show ?R using b(1) body rest by simp
next
  assume R: ?R
  have len: "cbs_len c = k + length body + length rest"
    using arg_cong [OF conjunct2 [OF R], of length] assms(1) by (simp add: cbs_simps)
  have "cbs_data c = cbs_view c @ drop (cbs_len c) (cbs_data c)" by (simp add: cbs_view_def)
  then have "drop k (cbs_data c) = (body @ rest) @ drop (cbs_len c) (cbs_data c)" using R
    by (metis append_assoc append_eq_conv_conj length_be_bytes)
  then have "cbs_view (CBS_init (drop k (cbs_data c)) (length body)) = body"
    by (simp add: cbs_view_def CBS_init_def)
  then show ?L
    using cbs_get_length_prefixed_append [OF assms conjunct1 [OF R] conjunct2 [OF R]] R
    by (simp add: cbs_view_drop del: cbs_init_simps)
qed

theorem get_length_prefixed_iff_witness:
  "\<exists>out c'. cbs_get_length_prefixed 2 (CBS_init [0, 2, 7, 8, 9] 5) = (Some out, c') \<and>
     cbs_view out = [7, 8] \<and> cbs_view c' = [9]"
proof -
  have ok: "cbs_ok (CBS_init [0, 2, 7, 8, 9] 5)" by (simp add: CBS_init_def cbs_ok_def)
  show ?thesis
    unfolding get_length_prefixed_iff [OF ok one_le_numeral, of "num.Bit0 num.One", simplified]
    by (simp add: cbs_view_def CBS_init_def numeral_2_eq_2)
qed

end
