(* ===== verification/Bs_cbb.thy ===== *)
theory Bs_cbb
  imports Bs_cbs
begin

unbundle bit_operations_syntax

text \<open>
  The byte string builder of \<^verbatim>\<open>crypto/bytestring/bs_cbb.c\<close>.

  All \<^verbatim>\<open>CBB\<close>s of one builder share the buffer \<^verbatim>\<open>base\<close>.  A \<^verbatim>\<open>CBB\<close> has at most one pending
  child, so the \<^verbatim>\<open>CBB\<close>s whose \<^verbatim>\<open>base\<close> is not \<^verbatim>\<open>NULL\<close> form a chain from the top-level one
  down: the list \<open>cb_chain\<close>, in which the \<^verbatim>\<open>child\<close> of each entry is the next one.  An operation
  names the \<^verbatim>\<open>CBB\<close> it works on by its depth \<open>i\<close> in the chain; a depth past the end stands for a
  \<^verbatim>\<open>CBB\<close> that a flush has detached (\<^verbatim>\<open>child->base = NULL\<close>), on which every operation returns 0.
  The content \<^verbatim>\<open>CBB\<close> that \<open>CBB_add_u8_length_prefixed\<close> and its kin set up is the one at depth
  \<open>i + 1\<close>.  Only the top-level \<^verbatim>\<open>CBB\<close> (depth 0) is ever finished or cleaned up.

  \<open>alloc n\<close> says whether an allocation of \<open>n\<close> bytes succeeds.  A result is the return value
  and the state, which a failing call may have changed.
\<close>

section \<open>The structures\<close>

record cbb_buffer =
  cb_buf :: bytes
  cb_len :: nat
  cb_cap :: nat
  cb_can_resize :: bool

record cbb_frame =
  fr_offset :: nat
  fr_pending_len_len :: nat
  fr_pending_is_asn1 :: bool

record cbb =
  cb_base :: "cbb_buffer option"
  cb_chain :: "cbb_frame list"

type_synonym allocator = "nat \<Rightarrow> bool"

definition CBB_INITIAL_SIZE :: nat where "CBB_INITIAL_SIZE = 64"

text \<open>\<^verbatim>\<open>memset(cbb, 0, sizeof(*cbb))\<close>.\<close>

definition zero_frame :: cbb_frame where
  "zero_frame = \<lparr>fr_offset = 0, fr_pending_len_len = 0, fr_pending_is_asn1 = False\<rparr>"

section \<open>Creation, clean-up and growth\<close>

text \<open>\<open>base_size\<close> is \<^verbatim>\<open>sizeof(struct cbb_buffer_st)\<close>.\<close>

definition cbb_init :: "allocator \<Rightarrow> nat \<Rightarrow> bytes \<Rightarrow> nat \<Rightarrow> bool \<times> cbb" where
  "cbb_init alloc base_size buf cap =
     (if \<not> alloc base_size then (False, \<lparr>cb_base = None, cb_chain = []\<rparr>)
      else (True, \<lparr>cb_base = Some \<lparr>cb_buf = buf, cb_len = 0, cb_cap = cap, cb_can_resize = True\<rparr>,
                   cb_chain = [zero_frame]\<rparr>))"

definition CBB_init :: "allocator \<Rightarrow> nat \<Rightarrow> nat \<Rightarrow> bool \<times> cbb" where
  "CBB_init alloc base_size initial_capacity =
     (let cap = (if initial_capacity = 0 then CBB_INITIAL_SIZE else initial_capacity) in
      if \<not> alloc cap then (False, \<lparr>cb_base = None, cb_chain = []\<rparr>)
      else cbb_init alloc base_size (replicate cap 0) cap)"

definition CBB_init_fixed :: "allocator \<Rightarrow> nat \<Rightarrow> bytes \<Rightarrow> nat \<Rightarrow> bool \<times> cbb" where
  "CBB_init_fixed alloc base_size buf len =
     and_then (cbb_init alloc base_size buf len)
       (\<lambda>s. (True, s\<lparr>cb_base := map_option (\<lambda>b. b\<lparr>cb_can_resize := False\<rparr>) (cb_base s)\<rparr>))"

definition CBB_cleanup :: "cbb \<Rightarrow> cbb" where
  "CBB_cleanup s = s\<lparr>cb_base := None, cb_chain := take 1 (cb_chain s)\<rparr>"

text \<open>The out pointer is the position in the buffer at which the new bytes start.\<close>

definition cbb_buffer_add :: "allocator \<Rightarrow> nat \<Rightarrow> (cbb_buffer, nat) step" where
  "cbb_buffer_add alloc len base =
     (let newlen = size_add (cb_len base) len in
      if newlen < cb_len base then (None, base)
      else if cb_cap base < newlen then
        (if \<not> cb_can_resize base then (None, base)
         else
           (let newcap = (cb_cap base * 2) mod 2 ^ 64;
                newcap = (if newcap < cb_cap base \<or> newcap < newlen then newlen else newcap) in
            if \<not> alloc newcap then (None, base)
            else (Some (cb_len base),
                  base\<lparr>cb_buf := cb_buf base @ replicate (newcap - cb_cap base) 0,
                       cb_cap := newcap, cb_len := newlen\<rparr>)))
      else (Some (cb_len base), base\<lparr>cb_len := newlen\<rparr>))"

section \<open>Flushing\<close>

text \<open>The loop \<^verbatim>\<open>for (i = n - 1; i < n; i--) { buf[off + i] = v; v >>= 8; }\<close> with what is
  left of \<open>v\<close>.\<close>

fun put_be :: "nat \<Rightarrow> nat \<Rightarrow> bytes \<Rightarrow> nat \<Rightarrow> bytes \<times> nat" where
  "put_be 0 off buf v = (buf, v)"
| "put_be (Suc i) off buf v = put_be i off (buf[off + i := word_of_nat v]) (v div 256)"

definition asn1_len_len :: "nat \<Rightarrow> nat" where
  "asn1_len_len len =
     (if 0xffffff < len then 5 else if 0xffff < len then 4
      else if 0xff < len then 3 else if 0x7f < len then 2 else 1)"

text \<open>\<^verbatim>\<open>CBB_flush\<close> on the head of a chain: flush the child, then write the pending prefix.\<close>

fun cbb_flush_chain :: "allocator \<Rightarrow> cbb_buffer \<Rightarrow> cbb_frame list \<Rightarrow> bool \<times> cbb_buffer \<times> cbb_frame list" where
  "cbb_flush_chain alloc base [] = (False, base, [])"
| "cbb_flush_chain alloc base (c # cs) =
     (if cs = [] \<or> fr_pending_len_len c = 0 then (True, base, c # cs)
      else
        (let child_start = size_add (fr_offset c) (fr_pending_len_len c);
             (ok, base, cs) = cbb_flush_chain alloc base cs in
         if \<not> ok \<or> child_start < fr_offset c \<or> cb_len base < child_start then (False, base, c # cs)
         else
           (let len = cb_len base - child_start in
            if fr_pending_is_asn1 c then
              (if fr_pending_len_len c \<noteq> 1 then (False, base, c # cs)
               else if 0xfffffffe < len then (False, base, c # cs)
               else
                 (let len_len = asn1_len_len len in
                  if len_len = 1 then
                    (True, base\<lparr>cb_buf := (cb_buf base)[fr_offset c := word_of_nat len]\<rparr>, [zero_frame])
                  else
                    (case cbb_buffer_add alloc (len_len - 1) base of
                       (None, base) \<Rightarrow> (False, base, c # cs)
                     | (Some _, base) \<Rightarrow>
                         (let buf = mem_write (cb_buf base) (child_start + (len_len - 1))
                                      (take len (drop child_start (cb_buf base)));
                              buf = buf[fr_offset c := 0x80 OR word_of_nat (len_len - 1)];
                              (buf, rest) = put_be (len_len - 1) (fr_offset c + 1) buf len in
                          if rest \<noteq> 0 then
                            (False, base\<lparr>cb_buf := buf\<rparr>,
                             c\<lparr>fr_offset := fr_offset c + 1, fr_pending_len_len := len_len - 1\<rparr> # cs)
                          else (True, base\<lparr>cb_buf := buf\<rparr>, [zero_frame])))))
            else
              (let (buf, rest) = put_be (fr_pending_len_len c) (fr_offset c) (cb_buf base) len in
               if rest \<noteq> 0 then (False, base\<lparr>cb_buf := buf\<rparr>, c # cs)
               else (True, base\<lparr>cb_buf := buf\<rparr>, [zero_frame])))))"

definition CBB_flush :: "allocator \<Rightarrow> nat \<Rightarrow> cbb \<Rightarrow> bool \<times> cbb" where
  "CBB_flush alloc i s =
     (case cb_base s of
        None \<Rightarrow> (False, s)
      | Some base \<Rightarrow>
          if length (cb_chain s) \<le> i then (False, s)
          else (let (ok, base, cs) = cbb_flush_chain alloc base (drop i (cb_chain s)) in
                (ok, s\<lparr>cb_base := Some base, cb_chain := take i (cb_chain s) @ cs\<rparr>)))"

text \<open>\<open>cbb_buffer_add\<close> on the shared buffer, followed by stores into the new bytes.\<close>

definition cbb_append :: "allocator \<Rightarrow> nat \<Rightarrow> (nat \<Rightarrow> bytes \<Rightarrow> bytes) \<Rightarrow> cbb \<Rightarrow> bool \<times> cbb" where
  "cbb_append alloc len store s =
     (case cb_base s of
        None \<Rightarrow> (False, s)
      | Some base \<Rightarrow>
          (case cbb_buffer_add alloc len base of
             (None, base) \<Rightarrow> (False, s\<lparr>cb_base := Some base\<rparr>)
           | (Some pos, base) \<Rightarrow>
               (True, s\<lparr>cb_base := Some (base\<lparr>cb_buf := store pos (cb_buf base)\<rparr>)\<rparr>)))"

definition set_frame :: "nat \<Rightarrow> (cbb_frame \<Rightarrow> cbb_frame) \<Rightarrow> cbb \<Rightarrow> cbb" where
  "set_frame i f s = s\<lparr>cb_chain := (cb_chain s)[i := f (cb_chain s ! i)]\<rparr>"

definition base_len :: "cbb \<Rightarrow> nat" where
  "base_len s = (case cb_base s of None \<Rightarrow> 0 | Some base \<Rightarrow> cb_len base)"

section \<open>Adding data\<close>

definition cbb_add_u :: "allocator \<Rightarrow> nat \<Rightarrow> u32 \<Rightarrow> nat \<Rightarrow> cbb \<Rightarrow> bool \<times> cbb" where
  "cbb_add_u alloc i v len_len s =
     (if len_len = 0 then (True, s)
      else if 4 < len_len then (False, s)
      else and_then (CBB_flush alloc i s)
             (cbb_append alloc len_len (\<lambda>pos buf. fst (put_be len_len pos buf (unat v)))))"

definition CBB_add_u8 :: "allocator \<Rightarrow> nat \<Rightarrow> nat \<Rightarrow> cbb \<Rightarrow> bool \<times> cbb" where
  "CBB_add_u8 alloc i v s =
     (if 0xff < v then (False, s) else cbb_add_u alloc i (word_of_nat v) 1 s)"

definition CBB_add_u16 :: "allocator \<Rightarrow> nat \<Rightarrow> nat \<Rightarrow> cbb \<Rightarrow> bool \<times> cbb" where
  "CBB_add_u16 alloc i v s =
     (if 0xffff < v then (False, s) else cbb_add_u alloc i (word_of_nat v) 2 s)"

definition CBB_add_u24 :: "allocator \<Rightarrow> nat \<Rightarrow> nat \<Rightarrow> cbb \<Rightarrow> bool \<times> cbb" where
  "CBB_add_u24 alloc i v s =
     (if 0xffffff < v then (False, s) else cbb_add_u alloc i (word_of_nat v) 3 s)"

definition CBB_add_u32 :: "allocator \<Rightarrow> nat \<Rightarrow> nat \<Rightarrow> cbb \<Rightarrow> bool \<times> cbb" where
  "CBB_add_u32 alloc i v s =
     (if 0xffffffff < v then (False, s) else cbb_add_u alloc i (word_of_nat v) 4 s)"

definition CBB_add_u64 :: "allocator \<Rightarrow> nat \<Rightarrow> u64 \<Rightarrow> cbb \<Rightarrow> bool \<times> cbb" where
  "CBB_add_u64 alloc i v s =
     (let a = ucast (drop_bit 32 v) :: u32; b = ucast (v AND 0xffffffff) :: u32 in
      and_then (CBB_add_u32 alloc i (unat a) s) (CBB_add_u32 alloc i (unat b)))"

definition CBB_add_bytes :: "allocator \<Rightarrow> nat \<Rightarrow> bytes \<Rightarrow> nat \<Rightarrow> cbb \<Rightarrow> bool \<times> cbb" where
  "CBB_add_bytes alloc i data len s =
     and_then (CBB_flush alloc i s)
       (cbb_append alloc len (\<lambda>pos buf. mem_write buf pos (take len data)))"

definition CBB_add_space :: "allocator \<Rightarrow> nat \<Rightarrow> nat \<Rightarrow> cbb \<Rightarrow> bool \<times> cbb" where
  "CBB_add_space alloc i len s =
     and_then (CBB_flush alloc i s)
       (cbb_append alloc len (\<lambda>pos buf. mem_write buf pos (replicate len 0)))"

text \<open>After these succeed the child \<^verbatim>\<open>CBB\<close> is at depth \<open>i + 1\<close>.\<close>

definition cbb_add_length_prefixed :: "allocator \<Rightarrow> nat \<Rightarrow> nat \<Rightarrow> cbb \<Rightarrow> bool \<times> cbb" where
  "cbb_add_length_prefixed alloc i len_len s =
     and_then (CBB_flush alloc i s) (\<lambda>s.
       let s = set_frame i (\<lambda>f. f\<lparr>fr_offset := base_len s\<rparr>) s in
       and_then (cbb_append alloc len_len (\<lambda>pos buf. mem_write buf pos (replicate len_len 0)) s) (\<lambda>s.
         let s = set_frame i (\<lambda>f. f\<lparr>fr_pending_len_len := len_len, fr_pending_is_asn1 := False\<rparr>) s in
         (True, s\<lparr>cb_chain := take (Suc i) (cb_chain s) @ [zero_frame]\<rparr>)))"

definition CBB_add_u8_length_prefixed :: "allocator \<Rightarrow> nat \<Rightarrow> cbb \<Rightarrow> bool \<times> cbb" where
  "CBB_add_u8_length_prefixed alloc i s = cbb_add_length_prefixed alloc i 1 s"

definition CBB_add_u16_length_prefixed :: "allocator \<Rightarrow> nat \<Rightarrow> cbb \<Rightarrow> bool \<times> cbb" where
  "CBB_add_u16_length_prefixed alloc i s = cbb_add_length_prefixed alloc i 2 s"

definition CBB_add_u24_length_prefixed :: "allocator \<Rightarrow> nat \<Rightarrow> cbb \<Rightarrow> bool \<times> cbb" where
  "CBB_add_u24_length_prefixed alloc i s = cbb_add_length_prefixed alloc i 3 s"

definition CBB_add_u32_length_prefixed :: "allocator \<Rightarrow> nat \<Rightarrow> cbb \<Rightarrow> bool \<times> cbb" where
  "CBB_add_u32_length_prefixed alloc i s = cbb_add_length_prefixed alloc i 4 s"

definition CBB_add_asn1 :: "allocator \<Rightarrow> nat \<Rightarrow> u32 \<Rightarrow> cbb \<Rightarrow> bool \<times> cbb" where
  "CBB_add_asn1 alloc i tag s =
     (if 0xff < unat tag then (False, s)
      else if tag AND 0x1f = 0x1f then (False, s)
      else
        and_then (CBB_flush alloc i s) (\<lambda>s.
        and_then (CBB_add_u8 alloc i (unat tag) s) (\<lambda>s.
          let s = set_frame i (\<lambda>f. f\<lparr>fr_offset := base_len s\<rparr>) s in
          and_then (CBB_add_u8 alloc i 0 s) (\<lambda>s.
            let s = set_frame i (\<lambda>f. f\<lparr>fr_pending_len_len := 1, fr_pending_is_asn1 := True\<rparr>) s in
            (True, s\<lparr>cb_chain := take (Suc i) (cb_chain s) @ [zero_frame]\<rparr>)))))"

definition CBB_discard_child :: "nat \<Rightarrow> cbb \<Rightarrow> cbb" where
  "CBB_discard_child i s =
     (if length (cb_chain s) \<le> Suc i then s
      else s\<lparr>cb_base := map_option (\<lambda>b. b\<lparr>cb_len := fr_offset (cb_chain s ! i)\<rparr>) (cb_base s),
             cb_chain := take i (cb_chain s) @ [zero_frame]\<rparr>)"

text \<open>The loop of \<^verbatim>\<open>CBB_add_asn1_uint64\<close> over the octets of the value, most significant
  first; the state carries \<^verbatim>\<open>started\<close>.\<close>

fun add_uint64_octets :: "allocator \<Rightarrow> nat \<Rightarrow> bytes \<Rightarrow> bool \<Rightarrow> cbb \<Rightarrow> bool \<times> bool \<times> cbb" where
  "add_uint64_octets alloc child [] started s = (True, started, s)"
| "add_uint64_octets alloc child (b # bs) started s =
     (if \<not> started \<and> b = 0 then add_uint64_octets alloc child bs started s
      else
        (let (ok, s) = (if \<not> started \<and> b AND 0x80 \<noteq> 0 then CBB_add_u8 alloc child 0 s else (True, s)) in
         if \<not> ok then (False, started, s)
         else
           (let (ok, s) = CBB_add_u8 alloc child (unat b) s in
            if \<not> ok then (False, True, s)
            else add_uint64_octets alloc child bs True s)))"

definition uint64_octets :: "u64 \<Rightarrow> bytes" where
  "uint64_octets value = map (\<lambda>i. ucast (drop_bit (8 * (7 - i)) value AND 0xff)) [0..<8]"

definition CBB_add_asn1_uint64 :: "allocator \<Rightarrow> nat \<Rightarrow> u64 \<Rightarrow> cbb \<Rightarrow> bool \<times> cbb" where
  "CBB_add_asn1_uint64 alloc i value s =
     and_then (CBB_add_asn1 alloc i CBS_ASN1_INTEGER s) (\<lambda>s.
       let (ok, started, s) = add_uint64_octets alloc (Suc i) (uint64_octets value) False s in
       if \<not> ok then (False, s)
       else and_then (if \<not> started then CBB_add_u8 alloc (Suc i) 0 s else (True, s))
              (CBB_flush alloc i))"

text \<open>\<open>out_data\<close> is \<open>None\<close> for a \<^verbatim>\<open>NULL\<close> argument, otherwise what \<^verbatim>\<open>*out_data\<close> holds before
  the call; the result holds the finished buffer and the number of bytes in it.\<close>

definition CBB_finish :: "allocator \<Rightarrow> nat \<Rightarrow> bytes option option \<Rightarrow> bool \<Rightarrow> (cbb, bytes \<times> nat) step" where
  "CBB_finish alloc i out_data have_out_len s =
     (if i \<noteq> 0 then (None, s)
      else (case CBB_flush alloc i s of
        (False, s) \<Rightarrow> (None, s)
      | (True, s) \<Rightarrow>
          (case cb_base s of
             None \<Rightarrow> (None, s)
           | Some base \<Rightarrow>
               if cb_can_resize base \<and> (out_data = None \<or> \<not> have_out_len) then (None, s)
               else if out_data \<noteq> None \<and> out_data \<noteq> Some None then (None, s)
               else (Some (cb_buf base, cb_len base), CBB_cleanup s))))"

section \<open>The encodings a flush produces\<close>

datatype cbb_prefix = Length_prefix nat | Asn1_length

fun prefix_len :: "cbb_prefix \<Rightarrow> nat" where
  "prefix_len (Length_prefix n) = n"
| "prefix_len Asn1_length = 1"

fun prefix_ok :: "cbb_prefix \<Rightarrow> bool" where
  "prefix_ok (Length_prefix n) = (1 \<le> n \<and> n \<le> 4)"
| "prefix_ok Asn1_length = True"

fun cbb_encode :: "cbb_prefix \<Rightarrow> bytes \<Rightarrow> bytes option" where
  "cbb_encode (Length_prefix n) c =
     (if length c < 256 ^ n then Some (be_bytes n (length c) @ c) else None)"
| "cbb_encode Asn1_length c =
     (if length c \<le> 0xfffffffe then Some (der_length (length c) @ c) else None)"

text \<open>A builder with pending children, abstractly: the finished bytes and, for every pending
  child from the outermost on, the kind of its prefix and the bytes added to it so far.
  Closing all of them gives the bytes of the finished encoding, if every length fits.\<close>

type_synonym cbb_open = "(cbb_prefix \<times> bytes) list"

fun cbb_close :: "bytes \<Rightarrow> cbb_open \<Rightarrow> bytes option" where
  "cbb_close pre [] = Some pre"
| "cbb_close pre ((k, c) # ks) =
     (case cbb_close c ks of
        None \<Rightarrow> None
      | Some c' \<Rightarrow> map_option (\<lambda>e. pre @ e) (cbb_encode k c'))"

fun cbb_layout :: "bytes \<Rightarrow> cbb_open \<Rightarrow> bytes" where
  "cbb_layout pre [] = pre"
| "cbb_layout pre ((k, c) # ks) = pre @ replicate (prefix_len k) 0 @ cbb_layout c ks"

fun chain_ok :: "nat \<Rightarrow> bytes \<Rightarrow> cbb_open \<Rightarrow> cbb_frame list \<Rightarrow> bool" where
  "chain_ok st pre [] [f] = True"
| "chain_ok st pre ((k, c) # ks) (f # fs) =
     (prefix_ok k \<and> fr_offset f = st + length pre \<and> fr_pending_len_len f = prefix_len k \<and>
      fr_pending_is_asn1 f = (k = Asn1_length) \<and> chain_ok (st + length pre + prefix_len k) c ks fs)"
| "chain_ok st pre _ _ = False"

definition buffer_ok :: "cbb_buffer \<Rightarrow> bool" where
  "buffer_ok b \<longleftrightarrow> length (cb_buf b) = cb_cap b \<and> cb_len b \<le> cb_cap b \<and> cb_cap b \<le> SIZE_MAX"

definition cb_content :: "cbb_buffer \<Rightarrow> bytes" where
  "cb_content b = take (cb_len b) (cb_buf b)"

definition roomy :: "allocator \<Rightarrow> cbb_buffer \<Rightarrow> bool" where
  "roomy alloc b \<longleftrightarrow> cb_can_resize b \<and> (\<forall>n. alloc n)"

lemma length_cb_content: "buffer_ok b \<Longrightarrow> length (cb_content b) = cb_len b"
  by (simp add: buffer_ok_def cb_content_def)

lemma length_der_length: "length (der_length n) = (if n < 0x80 then 1 else if n < 0x100 then 2
    else if n < 0x10000 then 3 else if n < 0x1000000 then 4 else 5)"
  by (simp add: der_length_def)

lemma length_der_length_le: "1 \<le> length (der_length n)" "length (der_length n) \<le> 5"
  by (auto simp: length_der_length)

lemma asn1_len_len_eq: "asn1_len_len n = length (der_length n)"
  by (auto simp: asn1_len_len_def length_der_length)

lemma length_cbb_encode: "prefix_ok k \<Longrightarrow> cbb_encode k c = Some e \<Longrightarrow> prefix_len k + length c \<le> length e"
  using length_der_length_le [of "length c"] by (cases k) (auto split: if_splits)

lemma put_be_eq:
  "off + n \<le> length buf \<Longrightarrow> put_be n off buf v = (mem_write buf off (be_bytes n v), v div 256 ^ n)"
proof (induction n arbitrary: buf v)
  case (Suc n)
  have "put_be (Suc n) off buf v
      = (mem_write (buf[off + n := word_of_nat v]) off (be_bytes n (v div 256)), v div 256 div 256 ^ n)"
    using Suc by simp
  also have "mem_write (buf[off + n := word_of_nat v]) off (be_bytes n (v div 256))
      = mem_write buf off (be_bytes n (v div 256) @ [word_of_nat v])"
    using Suc.prems mem_write_mem_write_next [of off "be_bytes n (v div 256)" "[word_of_nat v]" buf]
    by (simp add: list_update_mem_write)
  also have "v div 256 div 256 ^ n = v div 256 ^ Suc n" by (simp add: div_mult2_eq)
  finally show ?case by simp
qed simp

text \<open>Growing the buffer keeps what is in it.\<close>

lemma cbb_buffer_add_SomeD:
  assumes "buffer_ok b" and "cbb_buffer_add alloc n b = (Some pos, b')" and "n \<le> SIZE_MAX"
  shows "buffer_ok b' \<and> pos = cb_len b \<and> cb_len b' = cb_len b + n \<and>
    take (cb_len b) (cb_buf b') = cb_content b \<and> cb_can_resize b' = cb_can_resize b"
proof -
  have nw: "\<not> size_add (cb_len b) n < cb_len b"
    using assms(2) by (auto simp: cbb_buffer_add_def Let_def split: if_splits)
  then have sum: "size_add (cb_len b) n = cb_len b + n" "cb_len b + n \<le> SIZE_MAX"
    using assms(1,3) size_add_wraps_iff [of "cb_len b" n] size_add_small [of "cb_len b" n]
    by (auto simp: buffer_ok_def)
  have cap: "(cb_cap b * 2) mod 2 ^ 64 \<le> SIZE_MAX" by (simp add: SIZE_MAX_def)
  show ?thesis
    using assms(1,2) nw sum cap
    by (auto simp: cbb_buffer_add_def Let_def buffer_ok_def cb_content_def split: if_splits)
qed

lemma cbb_buffer_add_NoneD:
  "cbb_buffer_add alloc n b = (None, b') \<Longrightarrow> b' = b"
  by (auto simp: cbb_buffer_add_def Let_def split: if_splits)

lemma cbb_buffer_add_roomy:
  assumes "buffer_ok b" and "roomy alloc b" and "cb_len b + n \<le> SIZE_MAX"
  shows "fst (cbb_buffer_add alloc n b) \<noteq> None"
  using assms by (auto simp: cbb_buffer_add_def Let_def roomy_def size_add_small)

section \<open>Flush closes what is pending\<close>

text \<open>Writing the prefix of one child whose content is complete.\<close>

lemma content_overwrite:
  assumes "buffer_ok b" and "cb_content b = X @ Z @ Y" and "length bs = length Z"
  shows "cb_content (b\<lparr>cb_buf := mem_write (cb_buf b) (length X) bs\<rparr>) = X @ bs @ Y"
    and "buffer_ok (b\<lparr>cb_buf := mem_write (cb_buf b) (length X) bs\<rparr>)"
proof -
  have len: "cb_len b = length X + length Z + length Y"
    using assms(2) length_cb_content [OF assms(1)] by simp
  show "cb_content (b\<lparr>cb_buf := mem_write (cb_buf b) (length X) bs\<rparr>) = X @ bs @ Y"
    using take_mem_write_mid [of "cb_len b" "cb_buf b" X Z Y bs] assms
    by (simp add: cb_content_def buffer_ok_def)
  show "buffer_ok (b\<lparr>cb_buf := mem_write (cb_buf b) (length X) bs\<rparr>)"
    using assms len by (simp add: buffer_ok_def)
qed

lemma flush_length_prefix:
  assumes b: "buffer_ok b" and c: "cb_content b = X @ replicate n 0 @ Y"
    and p: "put_be n (length X) (cb_buf b) (length Y) = (buf, rest)"
  shows "rest = 0 \<longleftrightarrow> length Y < 256 ^ n"
    and "cb_content (b\<lparr>cb_buf := buf\<rparr>) = X @ be_bytes n (length Y) @ Y"
    and "buffer_ok (b\<lparr>cb_buf := buf\<rparr>)"
proof -
  have len: "length X + n + length Y = cb_len b" using c length_cb_content [OF b] by simp
  then have "length X + n \<le> length (cb_buf b)" using b by (simp add: buffer_ok_def)
  from put_be_eq [OF this, of "length Y"] p
  have buf: "buf = mem_write (cb_buf b) (length X) (be_bytes n (length Y))"
    and rest: "rest = length Y div 256 ^ n" by auto
  show "rest = 0 \<longleftrightarrow> length Y < 256 ^ n" by (simp add: rest div_eq_0_iff)
  show "cb_content (b\<lparr>cb_buf := buf\<rparr>) = X @ be_bytes n (length Y) @ Y"
    "buffer_ok (b\<lparr>cb_buf := buf\<rparr>)"
    using content_overwrite [OF b c, of "be_bytes n (length Y)"] by (simp_all add: buf)
qed

lemma der_length_long:
  assumes "1 < length (der_length n)"
  shows "der_length n = (0x80 OR word_of_nat (length (der_length n) - 1)) # be_bytes (length (der_length n) - 1) n"
  using assms by (auto simp: der_length_def)

lemma der_length_long_fits:
  "n \<le> 0xfffffffe \<Longrightarrow> 1 < length (der_length n) \<Longrightarrow> n div 256 ^ (length (der_length n) - 1) = 0"
  by (auto simp: der_length_def div_eq_0_iff)

lemma flush_asn1_long:
  assumes b: "buffer_ok b" and c: "cb_content b = X @ [z] @ Y" and Y: "length Y \<le> 0xfffffffe"
    and l: "1 < length (der_length (length Y))" and m: "m = length (der_length (length Y)) - 1"
    and add: "cbb_buffer_add alloc m b = (Some pos, b1)"
    and buf1: "buf1 = (mem_write (cb_buf b1) (length X + 1 + m) (take (length Y) (drop (length X + 1) (cb_buf b1))))
      [length X := 0x80 OR word_of_nat m]"
    and p: "put_be m (length X + 1) buf1 (length Y) = (buf, rest)"
  shows "rest = 0" and "cb_content (b1\<lparr>cb_buf := buf\<rparr>) = X @ der_length (length Y) @ Y"
    and "buffer_ok (b1\<lparr>cb_buf := buf\<rparr>)" and "cb_can_resize b1 = cb_can_resize b"
proof -
  have m4: "m \<le> SIZE_MAX" using length_der_length_le [of "length Y"] m by (simp add: SIZE_MAX_def)
  have b1: "buffer_ok b1" "cb_len b1 = cb_len b + m" "take (cb_len b) (cb_buf b1) = X @ z # Y"
    "cb_can_resize b1 = cb_can_resize b"
    using cbb_buffer_add_SomeD [OF b add m4] c by auto
  have len: "cb_len b = length X + 1 + length Y" using c length_cb_content [OF b] by simp
  have lb1: "length (cb_buf b1) \<ge> cb_len b + m" using b1(1,2) by (simp add: buffer_ok_def)
  define R where "R = drop (cb_len b) (cb_buf b1)"
  have buf0: "cb_buf b1 = X @ z # Y @ R"
    using append_take_drop_id [of "cb_len b" "cb_buf b1"] b1(3) by (simp add: R_def)
  have R: "m \<le> length R" using lb1 by (simp add: R_def)
  obtain W where W: "length W = m" "mem_write (cb_buf b1) (length X + 1 + m)
      (take (length Y) (drop (length X + 1) (cb_buf b1))) = X @ z # W @ Y @ drop m R"
  proof
    show "length (take m (Y @ R)) = m" using R by simp
    show "mem_write (cb_buf b1) (length X + 1 + m) (take (length Y) (drop (length X + 1) (cb_buf b1)))
        = X @ z # take m (Y @ R) @ Y @ drop m R"
      by (simp add: buf0 mem_write_def)
  qed
  have buf1': "buf1 = X @ (0x80 OR word_of_nat m) # W @ Y @ drop m R"
    by (simp only: buf1 W(2)) (simp add: list_update_append)
  have "length X + 1 + m \<le> length buf1" using W(1) by (simp add: buf1')
  from put_be_eq [OF this, of "length Y"] p
  have buf: "buf = mem_write buf1 (length X + 1) (be_bytes m (length Y))"
    and rest: "rest = length Y div 256 ^ m" by auto
  show "rest = 0" using rest m der_length_long_fits [OF Y l] by simp
  have buf': "buf = X @ (0x80 OR word_of_nat m) # be_bytes m (length Y) @ Y @ drop m R"
    using W(1) by (simp add: buf buf1' mem_write_def)
  have dl: "der_length (length Y) = (0x80 OR word_of_nat m) # be_bytes m (length Y)"
    using der_length_long [OF l] m by simp
  show "cb_content (b1\<lparr>cb_buf := buf\<rparr>) = X @ der_length (length Y) @ Y"
    by (simp add: cb_content_def buf' dl b1(2) len)
  show "buffer_ok (b1\<lparr>cb_buf := buf\<rparr>)"
    using b1(1) R by (simp add: buffer_ok_def buf' buf0)
  show "cb_can_resize b1 = cb_can_resize b" by (rule b1(4))
qed

lemma chain_ok_ne: "chain_ok st pre ks chain \<Longrightarrow> chain \<noteq> []"
  by (cases ks; cases chain) auto

text \<open>One pending child of kind \<open>k\<close> whose own children are closed already: the content \<open>Y\<close>
  follows the zeroed prefix, and the flush turns both into the encoding of \<open>Y\<close>.\<close>

definition flush_done :: "cbb_buffer \<Rightarrow> bytes \<Rightarrow> bytes option \<Rightarrow> bool \<times> cbb_buffer \<times> cbb_frame list \<Rightarrow> bool" where
  "flush_done b P e r \<longleftrightarrow>
     (case r of (ok, b', cs) \<Rightarrow>
        buffer_ok b' \<and> cb_can_resize b' = cb_can_resize b \<and>
        (ok \<longrightarrow> (\<exists>e'. e = Some e' \<and> cb_content b' = P @ e') \<and> length cs = 1))"

lemma flush_done_I:
  "buffer_ok b' \<Longrightarrow> cb_can_resize b' = cb_can_resize b \<Longrightarrow>
   (ok \<Longrightarrow> \<exists>e'. e = Some e' \<and> cb_content b' = P @ e') \<Longrightarrow> (ok \<Longrightarrow> length cs = 1) \<Longrightarrow>
   flush_done b P e (ok, b', cs)"
  by (auto simp: flush_done_def)

text \<open>What flushing a frame with a pending length of kind \<open>k\<close> does: \<open>X\<close> is what precedes the length, of which
  \<open>P\<close> belongs to the frames below, and \<open>Y\<close> is the content that the length counts.\<close>

definition flush_step :: "allocator \<Rightarrow> cbb_buffer \<Rightarrow> bytes \<Rightarrow> bytes \<Rightarrow> cbb_prefix \<Rightarrow> bytes \<Rightarrow> bool \<times> cbb_buffer \<times> cbb_frame list \<Rightarrow> bool" where
  "flush_step alloc b1 P pre k Y res \<longleftrightarrow>
     flush_done b1 P (map_option (\<lambda>e. pre @ e) (cbb_encode k Y)) res \<and>
     (cbb_encode k Y \<noteq> None \<longrightarrow> roomy alloc b1 \<longrightarrow>
        length (P @ pre) + length (the (cbb_encode k Y)) \<le> SIZE_MAX \<longrightarrow> fst res)"

lemma flush_step_prefix:
  assumes f: "fr_offset f = length X" "fr_pending_len_len f = n" "\<not> fr_pending_is_asn1 f" and n: "prefix_ok (Length_prefix n)"
    and ne: "fs \<noteq> []" and rec: "cbb_flush_chain alloc b fs = (True, b1, fs1)"
    and b1: "buffer_ok b1" and c1: "cb_content b1 = X @ replicate n 0 @ Y" and P: "X = P @ pre"
    and cs: "size_add (length X) n = length X + n"
  shows "flush_step alloc b1 P pre (Length_prefix n) Y (cbb_flush_chain alloc b (f # fs))"
proof -
  obtain buf rest where p: "put_be n (length X) (cb_buf b1) (length Y) = (buf, rest)" by fastforce
  have len: "cb_len b1 = length X + n + length Y" using c1 length_cb_content [OF b1] by simp
  show ?thesis
    using flush_length_prefix [OF b1 c1 p] f rec ne n cs len p P
    by (auto simp: Let_def flush_step_def intro!: flush_done_I)
qed

lemma flush_step_asn1_long:
  assumes f: "fr_offset f = length X" "fr_pending_len_len f = 1" "fr_pending_is_asn1 f"
    and ne: "fs \<noteq> []" and rec: "cbb_flush_chain alloc b fs = (True, b1, fs1)"
    and b1: "buffer_ok b1" and c1: "cb_content b1 = X @ [0] @ Y" and P: "X = P @ pre"
    and cs: "size_add (length X) 1 = length X + 1" and fits: "length Y \<le> 0xfffffffe"
    and long: "length (der_length (length Y)) \<noteq> 1"
  shows "flush_step alloc b1 P pre Asn1_length Y (cbb_flush_chain alloc b (f # fs))"
proof -
  have len: "cb_len b1 = length X + 1 + length Y" using c1 length_cb_content [OF b1] by simp
  define m where "m = length (der_length (length Y)) - 1"
  have l: "1 < length (der_length (length Y))" using long length_der_length_le [of "length Y"] by linarith
  obtain r b2 where add: "cbb_buffer_add alloc m b1 = (r, b2)" by fastforce
  show ?thesis
  proof (cases r)
    case None
    have sum: "cb_len b1 + m = length X + length (der_length (length Y)) + length Y" using len l by (simp add: m_def)
    have nr: "\<not> (roomy alloc b1 \<and> length X + length (der_length (length Y)) + length Y \<le> SIZE_MAX)"
      using cbb_buffer_add_roomy [OF b1, of alloc m] add None unfolding sum by auto
    show ?thesis
      using add None long fits f rec ne cs len b1 cbb_buffer_add_NoneD [of alloc m b1 b2] nr P
      by (auto simp: Let_def asn1_len_len_eq m_def [symmetric] flush_step_def simp del: One_nat_def intro!: flush_done_I)
  next
    case (Some pos)
    define buf1 where "buf1 = (mem_write (cb_buf b2) (length X + 1 + m)
        (take (length Y) (drop (length X + 1) (cb_buf b2))))[length X := 0x80 OR word_of_nat m]"
    obtain buf rest where p: "put_be m (length X + 1) buf1 (length Y) = (buf, rest)" by fastforce
    show ?thesis
      using flush_asn1_long [OF b1 c1 fits l m_def add [unfolded Some] buf1_def p] p Some add long fits f rec ne cs len P
      by (auto simp: Let_def asn1_len_len_eq m_def [symmetric] buf1_def [unfolded P length_append, symmetric] flush_step_def
          simp del: One_nat_def intro!: flush_done_I)
  qed
qed

lemma flush_step_asn1:
  assumes f: "fr_offset f = length X" "fr_pending_len_len f = 1" "fr_pending_is_asn1 f"
    and ne: "fs \<noteq> []" and rec: "cbb_flush_chain alloc b fs = (True, b1, fs1)"
    and b1: "buffer_ok b1" and c1: "cb_content b1 = X @ [0] @ Y" and P: "X = P @ pre"
    and cs: "size_add (length X) 1 = length X + 1"
  shows "flush_step alloc b1 P pre Asn1_length Y (cbb_flush_chain alloc b (f # fs))"
proof (cases "length Y \<le> 0xfffffffe")
  case fits: True
  have len: "cb_len b1 = length X + 1 + length Y" using c1 length_cb_content [OF b1] by simp
  show ?thesis
  proof (cases "length (der_length (length Y)) = 1")
    case True
    then have dl: "der_length (length Y) = [word_of_nat (length Y)]"
      by (auto simp: der_length_def split: if_splits)
    have up: "(cb_buf b1)[length X := word_of_nat (length Y)]
        = mem_write (cb_buf b1) (length X) [word_of_nat (length Y)]"
      by (rule list_update_mem_write) (use len b1 in \<open>simp add: buffer_ok_def\<close>)
    show ?thesis
      using content_overwrite [OF b1 c1, of "der_length (length Y)"] True fits f rec ne cs len P
      by (auto simp: Let_def asn1_len_len_eq up [unfolded P length_append] dl flush_step_def intro!: flush_done_I)
  next
    case False
    then show ?thesis by (rule flush_step_asn1_long [OF assms fits])
  qed
next
  case False
  moreover have "cb_len b1 = length X + 1 + length Y" using c1 length_cb_content [OF b1] by simp
  ultimately show ?thesis using f rec ne cs b1 by (auto simp: Let_def flush_step_def intro!: flush_done_I)
qed

lemma cbb_flush_chain_step:
  assumes f: "fr_offset f = length X" "fr_pending_len_len f = prefix_len k"
      "fr_pending_is_asn1 f = (k = Asn1_length)" and k: "prefix_ok k" and ne: "fs \<noteq> []"
    and rec: "cbb_flush_chain alloc b fs = (True, b1, fs1)"
    and b1: "buffer_ok b1" and c1: "cb_content b1 = X @ replicate (prefix_len k) 0 @ Y"
    and P: "X = P @ pre"
  shows "flush_done b1 P (map_option (\<lambda>e. pre @ e) (cbb_encode k Y)) (cbb_flush_chain alloc b (f # fs))"
    and "cbb_encode k Y \<noteq> None \<Longrightarrow> roomy alloc b1 \<Longrightarrow> length X + length (the (cbb_encode k Y)) \<le> SIZE_MAX
      \<Longrightarrow> fst (cbb_flush_chain alloc b (f # fs))"
proof -
  have "cb_len b1 = length X + prefix_len k + length Y" using c1 length_cb_content [OF b1] by simp
  then have "length X + prefix_len k \<le> SIZE_MAX" using b1 by (simp add: buffer_ok_def)
  then have cs: "size_add (length X) (prefix_len k) = length X + prefix_len k" by (rule size_add_small)
  have "flush_step alloc b1 P pre k Y (cbb_flush_chain alloc b (f # fs))"
    using assms cs by (cases k) (auto simp del: cbb_flush_chain.simps intro!: flush_step_prefix flush_step_asn1)
  then show "flush_done b1 P (map_option (\<lambda>e. pre @ e) (cbb_encode k Y)) (cbb_flush_chain alloc b (f # fs))"
    and "cbb_encode k Y \<noteq> None \<Longrightarrow> roomy alloc b1 \<Longrightarrow> length X + length (the (cbb_encode k Y)) \<le> SIZE_MAX
      \<Longrightarrow> fst (cbb_flush_chain alloc b (f # fs))"
    using P by (auto simp: flush_step_def simp del: cbb_flush_chain.simps)
qed

lemma cbb_flush_chain_fail:
  assumes "cbb_flush_chain alloc b fs = (False, b1, fs1)" and "fs \<noteq> []" and "fr_pending_len_len f \<noteq> 0"
  shows "cbb_flush_chain alloc b (f # fs) = (False, b1, f # fs1)"
  using assms by (simp add: Let_def)

lemma cbb_flush_chain_spec:
  assumes "buffer_ok b" and "chain_ok (length P) pre ks chain" and "cb_content b = P @ cbb_layout pre ks"
  shows "flush_done b P (cbb_close pre ks) (cbb_flush_chain alloc b chain)"
    and "cbb_close pre ks = Some e \<Longrightarrow> roomy alloc b \<Longrightarrow> length P + length e \<le> SIZE_MAX
      \<Longrightarrow> fst (cbb_flush_chain alloc b chain)"
proof -
  have "flush_done b P (cbb_close pre ks) (cbb_flush_chain alloc b chain) \<and>
    (\<forall>e. cbb_close pre ks = Some e \<longrightarrow> roomy alloc b \<longrightarrow> length P + length e \<le> SIZE_MAX
      \<longrightarrow> fst (cbb_flush_chain alloc b chain))"
    using assms
  proof (induction ks arbitrary: P pre chain)
    case Nil
    then obtain f where "chain = [f]" by (cases chain; cases "tl chain") auto
    then show ?case using Nil by (simp add: flush_done_def)
  next
    case (Cons kc ks)
    obtain k c where kc: "kc = (k, c)" by fastforce
    obtain f fs where chain: "chain = f # fs" using Cons.prems(2) kc by (cases chain) auto
    have f: "prefix_ok k" "fr_offset f = length (P @ pre)" "fr_pending_len_len f = prefix_len k"
      "fr_pending_is_asn1 f = (k = Asn1_length)"
      and ch: "chain_ok (length (P @ pre @ replicate (prefix_len k) 0)) c ks fs"
      using Cons.prems(2) by (auto simp: kc chain add.assoc)
    have ne: "fs \<noteq> []" using ch by (rule chain_ok_ne)
    have pl: "fr_pending_len_len f \<noteq> 0" using f(1,3) by (cases k) auto
    obtain ok b1 fs1 where rec: "cbb_flush_chain alloc b fs = (ok, b1, fs1)" by (cases "cbb_flush_chain alloc b fs") auto
    note IH = Cons.IH [OF Cons.prems(1) ch]
    have cont: "cb_content b = (P @ pre @ replicate (prefix_len k) 0) @ cbb_layout c ks"
      using Cons.prems(3) by (simp add: kc)
    have b1: "buffer_ok b1" "cb_can_resize b1 = cb_can_resize b"
      and closed: "ok \<Longrightarrow> \<exists>Y. cbb_close c ks = Some Y \<and> cb_content b1 = (P @ pre) @ replicate (prefix_len k) 0 @ Y"
      using IH [OF cont] rec by (auto simp: flush_done_def)
    have rm: "roomy alloc b1 = roomy alloc b" using b1(2) by (simp add: roomy_def)
    show ?case
    proof (cases ok)
      case False
      have "cbb_flush_chain alloc b chain = (False, b1, f # fs1)"
        unfolding chain using rec False ne pl by (intro cbb_flush_chain_fail) simp_all
      moreover have "\<not> (roomy alloc b \<and> length P + length e \<le> SIZE_MAX)" if close: "cbb_close pre (kc # ks) = Some e" for e
      proof -
        obtain Y e' where Y: "cbb_close c ks = Some Y" "cbb_encode k Y = Some e'" "e = pre @ e'"
          using close by (auto simp: kc split: option.splits)
        then have "length (P @ pre @ replicate (prefix_len k) 0) + length Y \<le> length P + length e"
          using length_cbb_encode [OF f(1) Y(2)] by simp
        then show ?thesis using IH [OF cont] rec False Y(1) by force
      qed
      ultimately show ?thesis using b1 by (auto simp: flush_done_def)
    next
      case True
      then obtain Y where Y: "cbb_close c ks = Some Y" "cb_content b1 = (P @ pre) @ replicate (prefix_len k) 0 @ Y"
        using closed by blast
      have rec': "cbb_flush_chain alloc b fs = (True, b1, fs1)" using rec True by simp
      note st = cbb_flush_chain_step [OF f(2-4,1) ne rec' b1(1) Y(2) refl, folded chain]
      have "flush_done b P (cbb_close pre (kc # ks)) (cbb_flush_chain alloc b chain)"
        using st(1) b1(2) by (simp add: kc Y(1) flush_done_def)
      moreover have "fst (cbb_flush_chain alloc b chain)"
        if "cbb_close pre (kc # ks) = Some e" "roomy alloc b" "length P + length e \<le> SIZE_MAX" for e
        using that by (intro st(2)) (auto simp: kc Y(1) rm)
      ultimately show ?thesis by blast
    qed
  qed
  then show "flush_done b P (cbb_close pre ks) (cbb_flush_chain alloc b chain)"
    and "cbb_close pre ks = Some e \<Longrightarrow> roomy alloc b \<Longrightarrow> length P + length e \<le> SIZE_MAX
      \<Longrightarrow> fst (cbb_flush_chain alloc b chain)" by blast+
qed

section \<open>The abstract builder\<close>

text \<open>The operations on the abstract state: closing everything below depth \<open>i\<close>, adding bytes
  to the innermost open level, opening a new level.\<close>

type_synonym cbb_abs = "bytes \<times> cbb_open"

fun abs_flush :: "nat \<Rightarrow> cbb_abs \<Rightarrow> cbb_abs option" where
  "abs_flush 0 (pre, ks) = map_option (\<lambda>e. (e, [])) (cbb_close pre ks)"
| "abs_flush (Suc i) (pre, []) = None"
| "abs_flush (Suc i) (pre, (k, c) # ks) =
     map_option (\<lambda>(c', ks'). (pre, (k, c') # ks')) (abs_flush i (c, ks))"

fun abs_append :: "bytes \<Rightarrow> cbb_abs \<Rightarrow> cbb_abs" where
  "abs_append d (pre, []) = (pre @ d, [])"
| "abs_append d (pre, (k, c) # ks) = (case abs_append d (c, ks) of (c', ks') \<Rightarrow> (pre, (k, c') # ks'))"

definition abs_open :: "cbb_prefix \<Rightarrow> cbb_abs \<Rightarrow> cbb_abs" where
  "abs_open k a = (fst a, snd a @ [(k, [])])"

definition abs_bytes :: "cbb_abs \<Rightarrow> bytes" where
  "abs_bytes a = cbb_layout (fst a) (snd a)"

definition cbb_rel :: "cbb \<Rightarrow> cbb_abs \<Rightarrow> bool" where
  "cbb_rel s a \<longleftrightarrow> (\<exists>b. cb_base s = Some b \<and> buffer_ok b \<and> cb_content b = abs_bytes a \<and>
     chain_ok 0 (fst a) (snd a) (cb_chain s))"

definition roomy_cbb :: "allocator \<Rightarrow> cbb \<Rightarrow> bool" where
  "roomy_cbb alloc s \<longleftrightarrow> (\<exists>b. cb_base s = Some b \<and> roomy alloc b)"

text \<open>The concrete result \<open>r\<close> of a call on \<open>s\<close> against the abstract result: success means the
  abstract operation succeeded with a related state; with enough memory failure means that
  the abstract operation failed.\<close>

definition cbb_refines :: "allocator \<Rightarrow> cbb \<Rightarrow> cbb_abs option \<Rightarrow> bool \<times> cbb \<Rightarrow> bool" where
  "cbb_refines alloc s ao r \<longleftrightarrow>
     (fst r \<longrightarrow> (\<exists>a. ao = Some a \<and> cbb_rel (snd r) a \<and> roomy_cbb alloc (snd r) = roomy_cbb alloc s)) \<and>
     (\<not> fst r \<longrightarrow> roomy_cbb alloc s \<longrightarrow> (\<forall>a. ao = Some a \<longrightarrow> SIZE_MAX < length (abs_bytes a)))"

lemma length_chain: "chain_ok st pre ks chain \<Longrightarrow> length chain = Suc (length ks)"
  by (induction st pre ks chain rule: chain_ok.induct) auto

lemma abs_flush_None: "length (snd a) < i \<Longrightarrow> abs_flush i a = None"
  by (induction i a rule: abs_flush.induct) auto

lemma abs_flush_length: "abs_flush i a = Some a' \<Longrightarrow> length (snd a') = i"
  by (induction i a arbitrary: a' rule: abs_flush.induct) auto

lemma flush_at_spec:
  assumes "buffer_ok b" and "chain_ok (length P) pre ks chain" and "cb_content b = P @ cbb_layout pre ks"
    and "i \<le> length ks" and "cbb_flush_chain alloc b (drop i chain) = (ok, b', cs)"
  shows "buffer_ok b' \<and> cb_can_resize b' = cb_can_resize b \<and>
    (ok \<longrightarrow> (\<exists>pre' ks'. abs_flush i (pre, ks) = Some (pre', ks') \<and>
       cb_content b' = P @ cbb_layout pre' ks' \<and> chain_ok (length P) pre' ks' (take i chain @ cs))) \<and>
    (\<not> ok \<longrightarrow> roomy alloc b \<longrightarrow> (\<forall>a. abs_flush i (pre, ks) = Some a \<longrightarrow>
       SIZE_MAX < length P + length (abs_bytes a)))"
  using assms
proof (induction i arbitrary: P pre ks chain)
  case 0
  have len1: "chain_ok (length P) e [] cs" if "length cs = Suc 0" for e using that by (cases cs) auto
  show ?case
    using cbb_flush_chain_spec(1) [OF 0(1-3), of alloc] cbb_flush_chain_spec(2) [OF 0(1-3), of _ alloc] 0(5)
    by (auto simp: flush_done_def abs_bytes_def len1 not_le [symmetric])
next
  case (Suc i)
  obtain k c ks1 where ks: "ks = (k, c) # ks1" using Suc.prems(4) by (cases ks) auto
  obtain f fs where chain: "chain = f # fs" using Suc.prems(2) ks by (cases chain) auto
  have ch: "chain_ok (length (P @ pre @ replicate (prefix_len k) 0)) c ks1 fs"
    using Suc.prems(2) by (simp add: ks chain add.assoc)
  show ?case
    using Suc.IH [OF Suc.prems(1) ch] Suc.prems(2-5)
    by (auto simp: ks chain abs_bytes_def add.assoc)
qed

lemma CBB_flush_refines:
  assumes "cbb_rel s a"
  shows "cbb_refines alloc s (abs_flush i a) (CBB_flush alloc i s)"
proof -
  obtain b where b: "cb_base s = Some b" "buffer_ok b" "cb_content b = cbb_layout (fst a) (snd a)"
    and ch: "chain_ok 0 (fst a) (snd a) (cb_chain s)"
    using assms by (auto simp: cbb_rel_def abs_bytes_def)
  show ?thesis
  proof (cases "i \<le> length (snd a)")
    case False
    then show ?thesis using b(1) length_chain [OF ch] abs_flush_None [of a i]
      by (simp add: CBB_flush_def cbb_refines_def)
  next
    case True
    obtain ok b' cs where fl: "cbb_flush_chain alloc b (drop i (cb_chain s)) = (ok, b', cs)"
      by (cases "cbb_flush_chain alloc b (drop i (cb_chain s))") auto
    note spec = flush_at_spec [OF b(2), of "[]" "fst a" "snd a" "cb_chain s" i alloc ok b' cs]
    show ?thesis
      using spec ch b True fl length_chain [OF ch]
      by (auto simp: CBB_flush_def cbb_refines_def cbb_rel_def roomy_cbb_def roomy_def abs_bytes_def)
  qed
qed

section \<open>The operations refine the abstract builder\<close>

definition abs_add :: "nat \<Rightarrow> bytes \<Rightarrow> cbb_abs \<Rightarrow> cbb_abs option" where
  "abs_add i d a = map_option (abs_append d) (abs_flush i a)"

definition abs_add_prefixed :: "nat \<Rightarrow> nat \<Rightarrow> cbb_abs \<Rightarrow> cbb_abs option" where
  "abs_add_prefixed i n a = map_option (abs_open (Length_prefix n)) (abs_flush i a)"

definition abs_add_asn1 :: "nat \<Rightarrow> u8 \<Rightarrow> cbb_abs \<Rightarrow> cbb_abs option" where
  "abs_add_asn1 i t a = map_option (\<lambda>a. abs_open Asn1_length (abs_append [t] a)) (abs_flush i a)"

lemma abs_bytes_append [simp]: "abs_bytes (abs_append d a) = abs_bytes a @ d"
  by (induction d a rule: abs_append.induct) (auto simp: abs_bytes_def split: prod.splits)

lemma length_abs_append [simp]: "length (snd (abs_append d a)) = length (snd a)"
  by (induction d a rule: abs_append.induct) (auto split: prod.splits)

lemma layout_open: "cbb_layout pre (ks @ [(k, [])]) = cbb_layout pre ks @ replicate (prefix_len k) 0"
  by (induction pre ks rule: cbb_layout.induct) auto

lemma abs_bytes_open [simp]: "abs_bytes (abs_open k a) = abs_bytes a @ replicate (prefix_len k) 0"
  by (simp add: abs_bytes_def abs_open_def layout_open)

lemma chain_ok_append: "chain_ok st (fst (abs_append d a)) (snd (abs_append d a)) chain
    \<longleftrightarrow> chain_ok st (fst a) (snd a) chain"
proof (induction d a arbitrary: st chain rule: abs_append.induct)
  case (1 d pre)
  then show ?case by (cases "(st, pre, [] :: cbb_open, chain)" rule: chain_ok.cases) auto
next
  case (2 d pre k c ks)
  show ?case by (cases chain) (auto simp: 2 split: prod.splits, (metis "2" fst_conv snd_conv)+)
qed

lemma chain_ok_open:
  assumes "chain_ok st pre ks chain" and "prefix_ok k"
    and "fr_offset f = st + length (cbb_layout pre ks)" and "fr_pending_len_len f = prefix_len k"
    and "fr_pending_is_asn1 f = (k = Asn1_length)"
  shows "chain_ok st pre (ks @ [(k, [])]) (take (length ks) chain @ [f, g])"
  using assms by (induction st pre ks chain rule: chain_ok.induct) (auto simp: add.assoc)

lemma cbb_append_base:
  assumes "cb_base s = Some b" and "buffer_ok b" and "n \<le> SIZE_MAX" and "length d = n"
    and "\<And>pos buf. pos + n \<le> length buf \<Longrightarrow> store pos buf = mem_write buf pos d"
  obtains ok b' where "cbb_append alloc n store s = (ok, s\<lparr>cb_base := Some b'\<rparr>)" and "buffer_ok b'"
    and "cb_can_resize b' = cb_can_resize b" and "ok \<Longrightarrow> cb_content b' = cb_content b @ d"
    and "\<not> ok \<Longrightarrow> roomy alloc b \<Longrightarrow> SIZE_MAX < length (cb_content b) + n"
proof (cases "cbb_buffer_add alloc n b")
  case (Pair r b1)
  show thesis
  proof (cases r)
    case None
    then have "b1 = b" using Pair cbb_buffer_add_NoneD by simp
    then show thesis
      using Pair None assms(1,2) cbb_buffer_add_roomy [OF assms(2), of alloc n] length_cb_content [OF assms(2)]
      by (intro that [of False b]) (auto simp: cbb_append_def not_le [symmetric])
  next
    case (Some pos)
    have b1: "buffer_ok b1" "pos = cb_len b" "cb_len b1 = cb_len b + n"
      "take (cb_len b) (cb_buf b1) = cb_content b" "cb_can_resize b1 = cb_can_resize b"
      using cbb_buffer_add_SomeD [OF assms(2) Pair [unfolded Some] assms(3)] by auto
    let ?b = "b1\<lparr>cb_buf := mem_write (cb_buf b1) pos d\<rparr>"
    have fit: "pos + n \<le> length (cb_buf b1)" using b1 by (simp add: buffer_ok_def)
    have ok: "buffer_ok ?b" using b1(1) fit assms(4) by (simp add: buffer_ok_def)
    have "cb_content ?b = cb_content b @ d"
      using take_mem_write [of pos d "cb_buf b1"] fit assms(4) b1 by (simp add: cb_content_def)
    moreover have "cbb_append alloc n store s = (True, s\<lparr>cb_base := Some ?b\<rparr>)"
      using Pair Some assms(1) assms(5) [OF fit] by (simp add: cbb_append_def)
    ultimately show thesis using ok b1(5) by (intro that [of True ?b]) simp_all
  qed
qed

lemma cbb_append_refines:
  assumes "cbb_rel s a" and "n \<le> SIZE_MAX" and "length d = n"
    and "\<And>pos buf. pos + n \<le> length buf \<Longrightarrow> store pos buf = mem_write buf pos d"
  shows "cbb_refines alloc s (Some (abs_append d a)) (cbb_append alloc n store s)"
proof -
  obtain b where b: "cb_base s = Some b" "buffer_ok b" "cb_content b = abs_bytes a"
    "chain_ok 0 (fst a) (snd a) (cb_chain s)" using assms(1) by (auto simp: cbb_rel_def)
  obtain ok b' where r: "cbb_append alloc n store s = (ok, s\<lparr>cb_base := Some b'\<rparr>)" "buffer_ok b'"
    "cb_can_resize b' = cb_can_resize b" "ok \<Longrightarrow> cb_content b' = cb_content b @ d"
    "\<not> ok \<Longrightarrow> roomy alloc b \<Longrightarrow> SIZE_MAX < length (cb_content b) + n"
    using cbb_append_base [OF b(1,2) assms(2-4), where alloc = alloc] by blast
  then show ?thesis using b assms(3)
    by (auto simp: cbb_refines_def cbb_rel_def roomy_cbb_def roomy_def chain_ok_append)
qed

lemma cbb_refines_and_then:
  assumes r: "cbb_refines alloc s ao r"
    and g: "\<And>s1 a1. cbb_rel s1 a1 \<Longrightarrow> ao = Some a1 \<Longrightarrow> r = (True, s1) \<Longrightarrow> cbb_refines alloc s1 (f a1) (g s1)"
    and mono: "\<And>a1 a2. ao = Some a1 \<Longrightarrow> f a1 = Some a2 \<Longrightarrow> length (abs_bytes a1) \<le> length (abs_bytes a2)"
  shows "cbb_refines alloc s (Option.bind ao f) (and_then r g)"
proof (cases r)
  case (Pair ok s1)
  show ?thesis
  proof (cases ok)
    case False
    have "SIZE_MAX < length (abs_bytes a)" if rm: "roomy_cbb alloc s" and bd: "Option.bind ao f = Some a" for a
    proof -
      obtain a1 where a1: "ao = Some a1" "f a1 = Some a" using bd by (cases ao) auto
      then have "SIZE_MAX < length (abs_bytes a1)" using r Pair False rm by (simp add: cbb_refines_def)
      then show ?thesis using mono [OF a1] by simp
    qed
    then show ?thesis using Pair False by (auto simp: cbb_refines_def)
  next
    case True
    then obtain a1 where a1: "ao = Some a1" "cbb_rel s1 a1" "roomy_cbb alloc s1 = roomy_cbb alloc s"
      using r Pair by (auto simp: cbb_refines_def)
    show ?thesis using g [OF a1(2,1)] Pair True a1 by (auto simp: cbb_refines_def)
  qed
qed

lemma map_option_bind: "map_option f x = Option.bind x (\<lambda>a. Some (f a))"
  by (cases x) auto

lemma abs_append_grows: "ao = Some a1 \<Longrightarrow> Some (abs_append d a1) = Some a2 \<Longrightarrow> length (abs_bytes a1) \<le> length (abs_bytes a2)"
  using abs_bytes_append [of d a1] by simp

lemma cbb_flush_append_refines:
  assumes "cbb_rel s a" and "n \<le> SIZE_MAX" and "length d = n"
    and "\<And>pos buf. pos + n \<le> length buf \<Longrightarrow> store pos buf = mem_write buf pos d"
  shows "cbb_refines alloc s (abs_add i d a) (and_then (CBB_flush alloc i s) (cbb_append alloc n store))"
  unfolding abs_add_def map_option_bind
  by (rule cbb_refines_and_then [OF CBB_flush_refines [OF assms(1)] cbb_append_refines [OF _ assms(2-4)]
        abs_append_grows])

lemma be_bytes_le_SIZE_MAX: "n \<le> 4 \<Longrightarrow> n \<le> SIZE_MAX"
  by (simp add: SIZE_MAX_def)

lemma cbb_add_u_refines:
  assumes "cbb_rel s a" and "1 \<le> n" and "n \<le> 4"
  shows "cbb_refines alloc s (abs_add i (be_bytes n (unat v)) a) (cbb_add_u alloc i v n s)"
  using assms cbb_flush_append_refines [OF assms(1), of n "be_bytes n (unat v)"]
  by (simp add: cbb_add_u_def be_bytes_le_SIZE_MAX put_be_eq)

lemma CBB_add_bytes_refines:
  assumes "cbb_rel s a" and "len \<le> length data" and "len \<le> SIZE_MAX"
  shows "cbb_refines alloc s (abs_add i (take len data) a) (CBB_add_bytes alloc i data len s)"
  using assms cbb_flush_append_refines [OF assms(1), of len "take len data"]
  by (simp add: CBB_add_bytes_def)

lemma CBB_add_space_refines:
  assumes "cbb_rel s a" and "len \<le> SIZE_MAX"
  shows "cbb_refines alloc s (abs_add i (replicate len 0) a) (CBB_add_space alloc i len s)"
  using assms cbb_flush_append_refines [OF assms(1), of len "replicate len 0"]
  by (simp add: CBB_add_space_def)

lemma abs_open_grows: "ao = Some a1 \<Longrightarrow> Some (abs_open k a1) = Some a2 \<Longrightarrow> length (abs_bytes a1) \<le> length (abs_bytes a2)"
  using abs_bytes_open [of k a1] by simp

lemma open_tail_refines:
  assumes "cbb_rel s a" and len: "length (snd a) = i" and k: "prefix_ok k"
    and store: "\<And>pos buf. pos + prefix_len k \<le> length buf \<Longrightarrow>
      store pos buf = mem_write buf pos (replicate (prefix_len k) 0)"
    and s1: "s1 = set_frame i (\<lambda>f. f\<lparr>fr_offset := base_len s\<rparr>) s"
    and g: "\<And>s. g s = (True, set_frame i (\<lambda>f. f\<lparr>fr_pending_len_len := prefix_len k,
      fr_pending_is_asn1 := (k = Asn1_length)\<rparr>) s\<lparr>cb_chain := take (Suc i) (cb_chain
        (set_frame i (\<lambda>f. f\<lparr>fr_pending_len_len := prefix_len k,
           fr_pending_is_asn1 := (k = Asn1_length)\<rparr>) s)) @ [zero_frame]\<rparr>)"
  shows "cbb_refines alloc s (Some (abs_open k a)) (and_then (cbb_append alloc (prefix_len k) store s1) g)"
proof -
  obtain b where b: "cb_base s = Some b" "buffer_ok b" "cb_content b = abs_bytes a"
    and ch: "chain_ok 0 (fst a) (snd a) (cb_chain s)" using assms(1) by (auto simp: cbb_rel_def)
  have b1: "cb_base s1 = Some b" using b(1) by (simp add: s1 set_frame_def)
  have lch: "length (cb_chain s) = Suc i" using length_chain [OF ch] len by simp
  have pm: "prefix_len k \<le> SIZE_MAX" using k by (cases k) (auto simp: SIZE_MAX_def)
  have bl: "base_len s = length (cbb_layout (fst a) (snd a))"
    using b length_cb_content [OF b(2)] by (simp add: base_len_def abs_bytes_def)
  define f2 where "f2 = (cb_chain s ! i)\<lparr>fr_offset := base_len s, fr_pending_len_len := prefix_len k,
      fr_pending_is_asn1 := (k = Asn1_length)\<rparr>"
  have ch2: "chain_ok 0 (fst a) (snd a @ [(k, [])]) (take i (cb_chain s) @ [f2, zero_frame])"
    using chain_ok_open [OF ch k, of f2 zero_frame] len by (simp add: f2_def bl)
  obtain ok b' where r: "cbb_append alloc (prefix_len k) store s1 = (ok, s1\<lparr>cb_base := Some b'\<rparr>)" "buffer_ok b'"
    "cb_can_resize b' = cb_can_resize b" "ok \<Longrightarrow> cb_content b' = cb_content b @ replicate (prefix_len k) 0"
    "\<not> ok \<Longrightarrow> roomy alloc b \<Longrightarrow> SIZE_MAX < length (cb_content b) + prefix_len k"
    using cbb_append_base [OF b1 b(2) pm length_replicate store, where alloc = alloc] by blast
  have chain2: "cb_chain (snd (g (s1\<lparr>cb_base := Some b'\<rparr>))) = take i (cb_chain s) @ [f2, zero_frame]"
    using lch by (simp add: g s1 set_frame_def f2_def upd_conv_take_nth_drop nth_append)
  have base2: "cb_base (snd (g (s1\<lparr>cb_base := Some b'\<rparr>))) = Some b'"
    by (simp add: g set_frame_def)
  show ?thesis
  proof (cases ok)
    case True
    have "cbb_rel (snd (g (s1\<lparr>cb_base := Some b'\<rparr>))) (abs_open k a)"
      using True r(2,4) b(3) ch2 by (simp add: cbb_rel_def base2 chain2) (simp add: abs_open_def)
    then show ?thesis using True r(1,3) b(1) base2
      by (simp add: cbb_refines_def roomy_cbb_def roomy_def) (simp add: g)
  next
    case False
    then show ?thesis using r b by (auto simp: cbb_refines_def roomy_cbb_def)
  qed
qed

lemma cbb_add_length_prefixed_refines:
  assumes "cbb_rel s a" and "1 \<le> n" and "n \<le> 4"
  shows "cbb_refines alloc s (abs_add_prefixed i n a) (cbb_add_length_prefixed alloc i n s)"
  unfolding abs_add_prefixed_def map_option_bind cbb_add_length_prefixed_def Let_def
  by (rule cbb_refines_and_then [OF CBB_flush_refines [OF assms(1)] _ abs_open_grows],
      rule open_tail_refines [where k = "Length_prefix n", unfolded prefix_len.simps])
    (use assms in \<open>auto dest: abs_flush_length\<close>)

lemma CBB_flush_flushed:
  assumes "cb_base s = Some b" and "length (cb_chain s) = Suc i"
  shows "CBB_flush alloc i s = (True, s)"
proof -
  obtain f where "drop i (cb_chain s) = [f]"
    using assms(2) by (cases "drop i (cb_chain s)") (auto dest: arg_cong [where f = length])
  then show ?thesis using assms append_take_drop_id [of i "cb_chain s"] by (simp add: CBB_flush_def)
qed

lemma CBB_add_u8_flushed:
  assumes "cb_base s = Some b" and "length (cb_chain s) = Suc i" and "v \<le> 0xff"
  shows "CBB_add_u8 alloc i v s = cbb_append alloc 1 (\<lambda>pos buf. fst (put_be 1 pos buf v)) s"
proof -
  have "unat (word_of_nat v :: u32) = v" using assms(3) by (simp add: unat_of_nat)
  then show ?thesis using assms(3)
    by (simp add: CBB_add_u8_def cbb_add_u_def CBB_flush_flushed [OF assms(1,2)] del: put_be.simps)
qed

lemma cbb_rel_flushed:
  "cbb_rel s a \<Longrightarrow> length (snd a) = i \<Longrightarrow> (\<exists>b. cb_base s = Some b) \<and> length (cb_chain s) = Suc i"
  by (auto simp: cbb_rel_def dest: length_chain)

lemma CBB_add_u8_flushed_refines:
  assumes "cbb_rel s a" and "length (snd a) = i" and "v \<le> 0xff"
  shows "cbb_refines alloc s (Some (abs_append [word_of_nat v] a)) (CBB_add_u8 alloc i v s)"
proof -
  have st: "fst (put_be 1 pos buf v) = mem_write buf pos [word_of_nat v]" if "pos + 1 \<le> length buf" for pos buf
    using put_be_eq [OF that] by simp
  show ?thesis
    using cbb_rel_flushed [OF assms(1,2)] assms(3)
      cbb_append_refines [OF assms(1), where n = 1 and d = "[word_of_nat v]", OF _ _ st]
    by (auto simp: CBB_add_u8_flushed SIZE_MAX_def simp del: put_be.simps One_nat_def)
qed

lemma CBB_add_asn1_refines:
  assumes "cbb_rel s a"
  shows "cbb_refines alloc s
    (if tag AND 0x1f = 0x1f \<or> 0xff < unat tag then None else abs_add_asn1 i (ucast tag) a)
    (CBB_add_asn1 alloc i tag s)"
proof (cases "tag AND 0x1f = 0x1f \<or> 0xff < unat tag")
  case True
  then show ?thesis by (auto simp: CBB_add_asn1_def cbb_refines_def)
next
  case False
  then have tag: "unat tag \<le> 0xff" by simp
  have st: "fst (put_be 1 pos buf 0) = mem_write buf pos (replicate 1 0)" if "pos + 1 \<le> length buf" for pos buf
    using put_be_eq [OF that, of 0] by simp
  define g where "g = (\<lambda>s. let s = set_frame i (\<lambda>f. f\<lparr>fr_pending_len_len := 1, fr_pending_is_asn1 := True\<rparr>) s in
            (True, s\<lparr>cb_chain := take (Suc i) (cb_chain s) @ [zero_frame]\<rparr>))"
  define h where "h = (\<lambda>s. let s = set_frame i (\<lambda>f. f\<lparr>fr_offset := base_len s\<rparr>) s in
          and_then (CBB_add_u8 alloc i 0 s) g)"
  have h: "cbb_refines alloc s2 (Some (abs_open Asn1_length a2)) (h s2)"
    if rel: "cbb_rel s2 a2" and len: "length (snd a2) = i" for s2 a2
  proof -
    define s3 where "s3 = set_frame i (\<lambda>f. f\<lparr>fr_offset := base_len s2\<rparr>) s2"
    obtain b where "cb_base s3 = Some b" "length (cb_chain s3) = Suc i"
      using cbb_rel_flushed [OF rel len] by (auto simp: s3_def set_frame_def)
    then have "h s2 = and_then (cbb_append alloc 1 (\<lambda>pos buf. fst (put_be 1 pos buf 0)) s3) g"
      by (simp add: h_def s3_def [symmetric] CBB_add_u8_flushed del: put_be.simps One_nat_def)
    then show ?thesis
      using open_tail_refines [OF rel len, where k = Asn1_length and g = g, unfolded prefix_len.simps, OF _ st s3_def]
      by (simp add: g_def Let_def del: put_be.simps One_nat_def)
  qed
  have "cbb_refines alloc s (Option.bind (abs_flush i a)
      (\<lambda>a. Option.bind (Some (abs_append [ucast tag] a)) (\<lambda>a. Some (abs_open Asn1_length a))))
      (and_then (CBB_flush alloc i s) (\<lambda>s. and_then (CBB_add_u8 alloc i (unat tag) s) h))"
  proof (rule cbb_refines_and_then [OF CBB_flush_refines [OF assms]])
    fix s1 a1
    assume rel: "cbb_rel s1 a1" and "abs_flush i a = Some a1"
    then have len: "length (snd a1) = i" by (simp add: abs_flush_length)
    have "cbb_refines alloc s1 (Some (abs_append [ucast tag] a1)) (CBB_add_u8 alloc i (unat tag) s1)"
      using CBB_add_u8_flushed_refines [OF rel len tag] by simp
    then show "cbb_refines alloc s1 (Option.bind (Some (abs_append [ucast tag] a1)) (\<lambda>a. Some (abs_open Asn1_length a)))
        (and_then (CBB_add_u8 alloc i (unat tag) s1) h)"
    proof (rule cbb_refines_and_then [OF _ _ abs_open_grows])
      fix s2 a2
      assume "cbb_rel s2 a2" and "Some (abs_append [ucast tag] a1) = Some a2"
      then show "cbb_refines alloc s2 (Some (abs_open Asn1_length a2)) (h s2)"
        using len length_abs_append [of "[ucast tag]" a1] by (intro h) (simp_all only: option.inject)
    qed
  next
    fix a1 a2
    assume "Option.bind (Some (abs_append [ucast tag] a1)) (\<lambda>a. Some (abs_open Asn1_length a)) = Some a2"
    then have a2: "a2 = abs_open Asn1_length (abs_append [ucast tag] a1)" by simp
    show "length (abs_bytes a1) \<le> length (abs_bytes a2)"
      by (simp only: a2 abs_bytes_open abs_bytes_append length_append)
  qed
  moreover have "CBB_add_asn1 alloc i tag s
      = and_then (CBB_flush alloc i s) (\<lambda>s. and_then (CBB_add_u8 alloc i (unat tag) s) h)"
    unfolding CBB_add_asn1_def h_def g_def using False by simp
  ultimately show ?thesis using False by (simp add: abs_add_asn1_def map_option_bind)
qed

section \<open>Programs over the builder\<close>

text \<open>What a client writes: bytes, integers and length-prefixed or ASN.1 elements whose
  contents are written through the child.  A child is not flushed by hand: the next operation
  on its parent does that.\<close>

datatype cbb_width = W8 | W16 | W24 | W32

fun width_len :: "cbb_width \<Rightarrow> nat" where
  "width_len W8 = 1" | "width_len W16 = 2" | "width_len W24 = 3" | "width_len W32 = 4"

datatype cbb_item =
    Bytes_item bytes
  | Uint_item cbb_width nat
  | Prefixed_item cbb_width "cbb_item list"
  | Asn1_item u32 "cbb_item list"

fun add_uint :: "cbb_width \<Rightarrow> allocator \<Rightarrow> nat \<Rightarrow> nat \<Rightarrow> cbb \<Rightarrow> bool \<times> cbb" where
  "add_uint W8 = CBB_add_u8" | "add_uint W16 = CBB_add_u16"
| "add_uint W24 = CBB_add_u24" | "add_uint W32 = CBB_add_u32"

fun add_prefixed :: "cbb_width \<Rightarrow> allocator \<Rightarrow> nat \<Rightarrow> cbb \<Rightarrow> bool \<times> cbb" where
  "add_prefixed W8 = CBB_add_u8_length_prefixed" | "add_prefixed W16 = CBB_add_u16_length_prefixed"
| "add_prefixed W24 = CBB_add_u24_length_prefixed" | "add_prefixed W32 = CBB_add_u32_length_prefixed"

fun cbb_build :: "allocator \<Rightarrow> nat \<Rightarrow> cbb_item list \<Rightarrow> cbb \<Rightarrow> bool \<times> cbb" where
  "cbb_build alloc i [] s = (True, s)"
| "cbb_build alloc i (Bytes_item b # r) s =
     and_then (CBB_add_bytes alloc i b (length b) s) (cbb_build alloc i r)"
| "cbb_build alloc i (Uint_item w v # r) s =
     and_then (add_uint w alloc i v s) (cbb_build alloc i r)"
| "cbb_build alloc i (Prefixed_item w its # r) s =
     and_then (add_prefixed w alloc i s) (\<lambda>s.
     and_then (cbb_build alloc (Suc i) its s) (cbb_build alloc i r))"
| "cbb_build alloc i (Asn1_item t its # r) s =
     and_then (CBB_add_asn1 alloc i t s) (\<lambda>s.
     and_then (cbb_build alloc (Suc i) its s) (cbb_build alloc i r))"

text \<open>The encoding the program asks for, if every value and length fits.\<close>

fun items_bytes :: "cbb_item list \<Rightarrow> bytes option" where
  "items_bytes [] = Some []"
| "items_bytes (Bytes_item b # r) = map_option (\<lambda>e. b @ e) (items_bytes r)"
| "items_bytes (Uint_item w v # r) =
     (if v < 256 ^ width_len w then map_option (\<lambda>e. be_bytes (width_len w) v @ e) (items_bytes r) else None)"
| "items_bytes (Prefixed_item w its # r) =
     Option.bind (items_bytes its) (\<lambda>c.
     Option.bind (cbb_encode (Length_prefix (width_len w)) c) (\<lambda>p.
     map_option (\<lambda>e. p @ e) (items_bytes r)))"
| "items_bytes (Asn1_item t its # r) =
     (if t AND 0x1f = 0x1f \<or> 0xff < unat t then None
      else Option.bind (items_bytes its) (\<lambda>c.
           Option.bind (cbb_encode Asn1_length c) (\<lambda>p.
           map_option (\<lambda>e. ucast t # p @ e) (items_bytes r))))"

fun abs_build :: "nat \<Rightarrow> cbb_item list \<Rightarrow> cbb_abs \<Rightarrow> cbb_abs option" where
  "abs_build i [] a = Some a"
| "abs_build i (Bytes_item b # r) a = Option.bind (abs_add i b a) (abs_build i r)"
| "abs_build i (Uint_item w v # r) a =
     Option.bind (if v < 256 ^ width_len w then abs_add i (be_bytes (width_len w) v) a else None) (abs_build i r)"
| "abs_build i (Prefixed_item w its # r) a =
     Option.bind (abs_add_prefixed i (width_len w) a) (\<lambda>a.
     Option.bind (abs_build (Suc i) its a) (abs_build i r))"
| "abs_build i (Asn1_item t its # r) a =
     Option.bind (if t AND 0x1f = 0x1f \<or> 0xff < unat t then None else abs_add_asn1 i (ucast t) a) (\<lambda>a.
     Option.bind (abs_build (Suc i) its a) (abs_build i r))"

lemma add_uint_refines:
  assumes "cbb_rel s a"
  shows "cbb_refines alloc s
    (if v < 256 ^ width_len w then abs_add i (be_bytes (width_len w) v) a else None) (add_uint w alloc i v s)"
proof -
  have u: "unat (word_of_nat v :: u32) = v" if "v < 4294967296" using that by (simp add: unat_of_nat)
  show ?thesis
    using cbb_add_u_refines [OF assms, of "width_len w" alloc i "word_of_nat v"] u
    by (cases w) (auto simp: CBB_add_u8_def CBB_add_u16_def CBB_add_u24_def CBB_add_u32_def
        cbb_refines_def simp del: be_bytes.simps One_nat_def)
qed

lemma add_prefixed_refines:
  assumes "cbb_rel s a"
  shows "cbb_refines alloc s (abs_add_prefixed i (width_len w) a) (add_prefixed w alloc i s)"
  using cbb_add_length_prefixed_refines [OF assms, of "width_len w"]
  by (cases w) (simp_all add: CBB_add_u8_length_prefixed_def CBB_add_u16_length_prefixed_def
      CBB_add_u24_length_prefixed_def CBB_add_u32_length_prefixed_def del: One_nat_def)

text \<open>No operation shortens the buffer, so an intermediate overflow is an overflow of the
  result.\<close>

definition abs_ok :: "cbb_abs \<Rightarrow> bool" where
  "abs_ok a \<longleftrightarrow> (\<forall>(k, c) \<in> set (snd a). prefix_ok k)"

lemma cbb_rel_abs_ok: "cbb_rel s a \<Longrightarrow> abs_ok a"
proof -
  have "chain_ok st pre ks chain \<Longrightarrow> abs_ok (pre, ks)" for st pre ks chain
    by (induction st pre ks chain rule: chain_ok.induct) (auto simp: abs_ok_def)
  then show "cbb_rel s a \<Longrightarrow> abs_ok a" by (cases a) (auto simp: cbb_rel_def)
qed

lemma close_grows:
  "abs_ok (pre, ks) \<Longrightarrow> cbb_close pre ks = Some e \<Longrightarrow> length (cbb_layout pre ks) \<le> length e"
proof (induction pre ks arbitrary: e rule: cbb_close.induct)
  case (2 pre k c ks)
  then obtain c' p where "cbb_close c ks = Some c'" "cbb_encode k c' = Some p" "e = pre @ p"
    by (auto split: option.splits)
  then show ?case using 2 length_cbb_encode [of k c' p] by (fastforce simp: abs_ok_def)
qed auto

lemma abs_flush_grows:
  "abs_ok a \<Longrightarrow> abs_flush i a = Some a' \<Longrightarrow> abs_ok a' \<and> length (abs_bytes a) \<le> length (abs_bytes a')"
proof (induction i a arbitrary: a' rule: abs_flush.induct)
  case (1 pre ks)
  then show ?case by (auto simp: abs_bytes_def dest: close_grows) (simp add: abs_ok_def)
next
  case (3 i pre k c ks)
  then obtain c' ks' where a': "abs_flush i (c, ks) = Some (c', ks')" "a' = (pre, (k, c') # ks')" by auto
  have "abs_ok (c, ks)" using 3(2) by (simp add: abs_ok_def)
  from 3(1) [OF this a'(1)] show ?case using 3(2) by (auto simp: a'(2) abs_bytes_def abs_ok_def)
qed auto

lemma abs_ok_append [simp]: "abs_ok (abs_append d a) = abs_ok a"
  by (induction d a rule: abs_append.induct) (auto simp: abs_ok_def split: prod.splits)

lemma abs_ok_open [simp]: "abs_ok (abs_open k a) \<longleftrightarrow> abs_ok a \<and> prefix_ok k"
  by (auto simp: abs_ok_def abs_open_def)

lemma abs_add_grows: "abs_ok a \<Longrightarrow> abs_add i d a = Some a' \<Longrightarrow>
    abs_ok a' \<and> length (abs_bytes a) \<le> length (abs_bytes a')"
  by (auto simp: abs_add_def dest: abs_flush_grows simp del: split_paired_All split_paired_Ex)

lemma abs_add_prefixed_grows: "abs_ok a \<Longrightarrow> abs_add_prefixed i (width_len w) a = Some a' \<Longrightarrow>
    abs_ok a' \<and> length (abs_bytes a) \<le> length (abs_bytes a')"
  by (cases w) (auto simp: abs_add_prefixed_def dest: abs_flush_grows)

lemma abs_add_asn1_grows: "abs_ok a \<Longrightarrow> abs_add_asn1 i t a = Some a' \<Longrightarrow>
    abs_ok a' \<and> length (abs_bytes a) \<le> length (abs_bytes a')"
  by (auto simp: abs_add_asn1_def dest: abs_flush_grows)

lemma abs_build_grows: "abs_ok a \<Longrightarrow> abs_build i its a = Some a' \<Longrightarrow>
    abs_ok a' \<and> length (abs_bytes a) \<le> length (abs_bytes a')"
proof (induction i its a arbitrary: a' rule: abs_build.induct)
  case (1 i a)
  then show ?case by simp
next
  case (2 i b r a)
  then obtain a1 where a1: "abs_add i b a = Some a1" "abs_build i r a1 = Some a'"
    by (cases "abs_add i b a") auto
  note g = abs_add_grows [OF 2(2) a1(1)]
  show ?case using 2(1) [OF a1(1) conjunct1 [OF g] a1(2)] g by linarith
next
  case (3 i w v r a)
  then obtain a1 where a1: "abs_add i (be_bytes (width_len w) v) a = Some a1" "abs_build i r a1 = Some a'"
    and v: "v < 256 ^ width_len w"
    by (cases "abs_add i (be_bytes (width_len w) v) a") (auto split: if_splits)
  note g = abs_add_grows [OF 3(2) a1(1)]
  show ?case using 3(1) [OF _ conjunct1 [OF g] a1(2)] a1(1) v g by fastforce
next
  case (4 i w its r a)
  then obtain a1 a2 where a1: "abs_add_prefixed i (width_len w) a = Some a1"
    and a2: "abs_build (Suc i) its a1 = Some a2" and a': "abs_build i r a2 = Some a'"
    by (auto simp: Option.bind_eq_Some_conv)
  note g1 = abs_add_prefixed_grows [OF 4(3) a1]
  note g2 = 4(1) [OF a1 conjunct1 [OF g1] a2]
  show ?case using 4(2) [OF a1 a2 conjunct1 [OF g2] a'] g1 g2 by linarith
next
  case (5 i t its r a)
  then obtain a1 a2 where t: "\<not> (t AND 0x1f = 0x1f \<or> 0xff < unat t)" and a1: "abs_add_asn1 i (ucast t) a = Some a1"
    and a2: "abs_build (Suc i) its a1 = Some a2" and a': "abs_build i r a2 = Some a'"
    by (auto simp: Option.bind_eq_Some_conv split: if_splits)
  have a1': "(if t AND 0x1f = 0x1f \<or> 0xff < unat t then None else abs_add_asn1 i (ucast t) a) = Some a1"
    using t a1 by simp
  note g1 = abs_add_asn1_grows [OF 5(3) a1]
  note g2 = 5(1) [OF a1' conjunct1 [OF g1] a2]
  show ?case using 5(2) [OF a1' a2 conjunct1 [OF g2] a'] g1 g2 by linarith
qed

lemma cbb_refines_then:
  assumes "cbb_refines alloc s ao r"
    and "\<And>s1 a1. cbb_rel s1 a1 \<Longrightarrow> ao = Some a1 \<Longrightarrow> cbb_refines alloc s1 (f a1) (g s1)"
    and "\<And>a1 a2. abs_ok a1 \<Longrightarrow> f a1 = Some a2 \<Longrightarrow> abs_ok a2 \<and> length (abs_bytes a1) \<le> length (abs_bytes a2)"
    and "\<And>a1. ao = Some a1 \<Longrightarrow> abs_ok a1"
  shows "cbb_refines alloc s (Option.bind ao f) (and_then r g)"
  using assms by (intro cbb_refines_and_then) blast+

text \<open>A byte string has a \<^verbatim>\<open>size_t\<close> length.\<close>

fun items_sized :: "cbb_item list \<Rightarrow> bool" where
  "items_sized [] = True"
| "items_sized (Bytes_item b # r) = (length b \<le> SIZE_MAX \<and> items_sized r)"
| "items_sized (Uint_item w v # r) = items_sized r"
| "items_sized (Prefixed_item w its # r) = (items_sized its \<and> items_sized r)"
| "items_sized (Asn1_item t its # r) = (items_sized its \<and> items_sized r)"

lemma bind_build_grows:
  "abs_ok a1 \<Longrightarrow> Option.bind (abs_build i its a1) (abs_build j r) = Some a2 \<Longrightarrow>
    abs_ok a2 \<and> length (abs_bytes a1) \<le> length (abs_bytes a2)"
proof -
  assume ok: "abs_ok a1" and "Option.bind (abs_build i its a1) (abs_build j r) = Some a2"
  then obtain b where b: "abs_build i its a1 = Some b" "abs_build j r b = Some a2"
    by (auto simp: Option.bind_eq_Some_conv)
  note g = abs_build_grows [OF ok b(1)]
  show ?thesis using abs_build_grows [OF conjunct1 [OF g] b(2)] g by linarith
qed

lemma cbb_build_refines:
  "cbb_rel s a \<Longrightarrow> items_sized its \<Longrightarrow> cbb_refines alloc s (abs_build i its a) (cbb_build alloc i its s)"
proof (induction i its a arbitrary: s rule: abs_build.induct)
  case (1 i a)
  then show ?case by (simp add: cbb_refines_def)
next
  case (2 i b r a)
  note ok = cbb_rel_abs_ok [OF 2(2)]
  have "cbb_refines alloc s (abs_add i b a) (CBB_add_bytes alloc i b (length b) s)"
    using CBB_add_bytes_refines [OF 2(2), of "length b" b] 2(3) by simp
  then show ?case
    unfolding abs_build.simps cbb_build.simps
    by (rule cbb_refines_then) (use 2(1,3) abs_add_grows [OF ok] abs_build_grows in auto)
next
  case (3 i w v r a)
  note ok = cbb_rel_abs_ok [OF 3(2)]
  show ?case
    unfolding abs_build.simps cbb_build.simps
    by (rule cbb_refines_then [OF add_uint_refines [OF 3(2)] 3(1) abs_build_grows])
      (use 3(3) in \<open>auto split: if_splits dest: abs_add_grows [OF ok]\<close>)
next
  case (4 i w its r a)
  note ok = cbb_rel_abs_ok [OF 4(3)]
  have sz: "items_sized its" "items_sized r" using 4(4) by auto
  show ?case
    unfolding abs_build.simps cbb_build.simps
  proof (rule cbb_refines_then [OF add_prefixed_refines [OF 4(3)] _ bind_build_grows])
    fix s1 a1
    assume rel: "cbb_rel s1 a1" and a1: "abs_add_prefixed i (width_len w) a = Some a1"
    show "cbb_refines alloc s1 (Option.bind (abs_build (Suc i) its a1) (abs_build i r))
        (and_then (cbb_build alloc (Suc i) its s1) (cbb_build alloc i r))"
      by (rule cbb_refines_then [OF 4(1) [OF a1 rel sz(1)] 4(2) [OF a1 _ _ sz(2)] abs_build_grows])
        (use abs_build_grows [OF cbb_rel_abs_ok [OF rel]] in auto)
  qed (use abs_add_prefixed_grows [OF ok] in auto)
next
  case (5 i t its r a)
  note ok = cbb_rel_abs_ok [OF 5(3)]
  have sz: "items_sized its" "items_sized r" using 5(4) by auto
  show ?case
    unfolding abs_build.simps cbb_build.simps
  proof (rule cbb_refines_then [OF CBB_add_asn1_refines [OF 5(3)] _ bind_build_grows])
    fix s1 a1
    assume rel: "cbb_rel s1 a1"
      and a1: "(if t AND 0x1f = 0x1f \<or> 0xff < unat t then None else abs_add_asn1 i (ucast t) a) = Some a1"
    show "cbb_refines alloc s1 (Option.bind (abs_build (Suc i) its a1) (abs_build i r))
        (and_then (cbb_build alloc (Suc i) its s1) (cbb_build alloc i r))"
      by (rule cbb_refines_then [OF 5(1) [OF a1 rel sz(1)] 5(2) [OF a1 _ _ sz(2)] abs_build_grows])
        (use abs_build_grows [OF cbb_rel_abs_ok [OF rel]] in auto)
  qed (use abs_add_asn1_grows [OF ok] in \<open>auto split: if_splits\<close>)
qed

text \<open>Closing after the program ran gives the encoding the program asks for.\<close>

lemma abs_flush_flush: "abs_flush i a = Some a' \<Longrightarrow> abs_flush i a' = Some a'"
  by (induction i a arbitrary: a' rule: abs_flush.induct) auto

lemma abs_flush_append: "length (snd a) = i \<Longrightarrow> abs_flush i (abs_append d a) = Some (abs_append d a)"
proof (induction d a arbitrary: i rule: abs_append.induct)
  case (2 d pre k c ks)
  obtain j where j: "i = Suc j" "length ks = j" using 2(2) by (cases i) auto
  then show ?case using 2(1) [of j] by (auto split: prod.splits)
qed auto

lemma abs_append_append [simp]: "abs_append e (abs_append d a) = abs_append (d @ e) a"
  by (induction d a rule: abs_append.induct) (auto split: prod.splits)

lemma abs_append_Nil [simp]: "abs_append [] a = a"
  by (induction "[] :: bytes" a rule: abs_append.induct) auto

lemma abs_flush_Suc_open:
  "length (snd a) = i \<Longrightarrow> abs_flush (Suc i) (abs_append d (abs_open k a)) = Some (abs_append d (abs_open k a))"
  by (rule abs_flush_append) (simp add: abs_open_def)

lemma abs_flush_open:
  "length (snd a) = i \<Longrightarrow> abs_flush i (abs_append d (abs_open k a))
    = map_option (\<lambda>p. abs_append p a) (cbb_encode k d)"
proof (induction d a arbitrary: i rule: abs_append.induct)
  case (1 d pre)
  then show ?case by (cases "cbb_encode k d") (auto simp: abs_open_def)
next
  case (2 d pre k' c ks)
  obtain j where j: "i = Suc j" "length ks = j" using 2(2) by (cases i) auto
  have "abs_append d (abs_open k (pre, (k', c) # ks))
      = (pre, (k', fst (abs_append d (abs_open k (c, ks)))) # snd (abs_append d (abs_open k (c, ks))))"
    by (simp add: abs_open_def split: prod.splits)
  then show ?case using 2(1) [of j] j
    by (cases "cbb_encode k d") (auto split: prod.splits)
qed

lemma abs_flush_nested:
  "i < length (snd x) \<Longrightarrow> Option.bind (abs_flush (Suc i) x) (abs_flush i) = abs_flush i x"
proof (induction i arbitrary: x)
  case 0
  obtain pre k c ks where "x = (pre, (k, c) # ks)" using 0 by (cases x; cases "snd x") auto
  then show ?case by (auto split: option.splits)
next
  case (Suc i)
  obtain pre k c ks where x: "x = (pre, (k, c) # ks)" using Suc.prems by (cases x; cases "snd x") auto
  then have "Option.bind (abs_flush (Suc i) (c, ks)) (abs_flush i) = abs_flush i (c, ks)"
    using Suc.prems by (intro Suc.IH) simp
  then show ?case by (cases "abs_flush (Suc i) (c, ks)") (auto simp: x split: prod.splits)
qed

lemma abs_flush_depth: "abs_flush i a = Some a' \<Longrightarrow> i \<le> length (snd a)"
  using abs_flush_None [of a i] by (cases "i \<le> length (snd a)") auto

lemma abs_add_length: "abs_add i d a = Some a' \<Longrightarrow> length (snd a') = i"
  by (auto simp: abs_add_def simp del: split_paired_Ex dest: abs_flush_length)

lemma abs_add_prefixed_length: "abs_add_prefixed i n a = Some a' \<Longrightarrow> length (snd a') = Suc i"
  by (auto simp: abs_add_prefixed_def abs_open_def dest: abs_flush_length)

lemma abs_add_asn1_length: "abs_add_asn1 i t a = Some a' \<Longrightarrow> length (snd a') = Suc i"
  by (auto simp: abs_add_asn1_def abs_open_def dest: abs_flush_length)

lemma abs_build_depth: "abs_build i its a = Some a' \<Longrightarrow> i \<le> length (snd a) \<Longrightarrow> i \<le> length (snd a')"
proof (induction i its a arbitrary: a' rule: abs_build.induct)
  case (1 i a)
  then show ?case by simp
next
  case (2 i b r a)
  then obtain a1 where a1: "abs_add i b a = Some a1" "abs_build i r a1 = Some a'"
    by (cases "abs_add i b a") auto
  show ?case using 2(1) [OF a1] abs_add_length [OF a1(1)] by simp
next
  case (3 i w v r a)
  then obtain a1 where a1: "(if v < 256 ^ width_len w then abs_add i (be_bytes (width_len w) v) a else None) = Some a1"
    "abs_build i r a1 = Some a'"
    by (cases "if v < 256 ^ width_len w then abs_add i (be_bytes (width_len w) v) a else None") auto
  show ?case using 3(1) [OF a1] a1(1) abs_add_length [of i "be_bytes (width_len w) v" a a1]
    by (simp split: if_splits)
next
  case (4 i w its r a)
  then obtain a1 a2 where a1: "abs_add_prefixed i (width_len w) a = Some a1"
    and a2: "abs_build (Suc i) its a1 = Some a2" and a': "abs_build i r a2 = Some a'"
    by (auto simp: Option.bind_eq_Some_conv)
  have "Suc i \<le> length (snd a2)"
    by (rule 4(1) [OF a1 a2]) (simp add: abs_add_prefixed_length [OF a1])
  then show ?case by (intro 4(2) [OF a1 a2 a']) simp
next
  case (5 i t its r a)
  then obtain a1 a2 where t: "\<not> (t AND 0x1f = 0x1f \<or> 0xff < unat t)" and a1: "abs_add_asn1 i (ucast t) a = Some a1"
    and a2: "abs_build (Suc i) its a1 = Some a2" and a': "abs_build i r a2 = Some a'"
    by (auto simp: Option.bind_eq_Some_conv split: if_splits)
  have a1': "(if t AND 0x1f = 0x1f \<or> 0xff < unat t then None else abs_add_asn1 i (ucast t) a) = Some a1"
    using t a1 by simp
  have "Suc i \<le> length (snd a2)"
    by (rule 5(1) [OF a1' a2]) (simp add: abs_add_asn1_length [OF a1])
  then show ?case by (intro 5(2) [OF a1' a2 a']) simp
qed

lemma abs_build_child:
  assumes a1: "length (snd a1) = i" and IHr: "\<And>a. Option.bind (abs_build i r a) (abs_flush i)
      = Option.bind (abs_flush i a) (\<lambda>a. map_option (\<lambda>e. abs_append e a) (items_bytes r))"
    and IHc: "Option.bind (abs_build (Suc i) its (abs_open k a1)) (abs_flush (Suc i))
      = Option.bind (abs_flush (Suc i) (abs_open k a1)) (\<lambda>a. map_option (\<lambda>e. abs_append e a) (items_bytes its))"
  shows "Option.bind (Option.bind (abs_build (Suc i) its (abs_open k a1)) (abs_build i r)) (abs_flush i)
    = Option.bind (items_bytes its) (\<lambda>c. Option.bind (cbb_encode k c)
        (\<lambda>p. map_option (\<lambda>e. abs_append (p @ e) a1) (items_bytes r)))"
proof -
  let ?X = "abs_build (Suc i) its (abs_open k a1)"
  have open': "abs_flush (Suc i) (abs_open k a1) = Some (abs_open k a1)"
    using abs_flush_Suc_open [OF a1, of "[]" k] by simp
  have X: "Option.bind ?X (abs_flush (Suc i)) = map_option (\<lambda>e. abs_append e (abs_open k a1)) (items_bytes its)"
    using IHc by (simp add: open')
  have "Option.bind ?X (abs_flush i) = Option.bind (Option.bind ?X (abs_flush (Suc i))) (abs_flush i)"
  proof (cases ?X)
    case (Some x)
    then have "Suc i \<le> length (snd x)" by (rule abs_build_depth) (simp add: abs_open_def a1)
    then show ?thesis using Some abs_flush_nested [of i x] by simp
  qed simp
  also have "\<dots> = Option.bind (items_bytes its) (\<lambda>c. map_option (\<lambda>p. abs_append p a1) (cbb_encode k c))"
    unfolding X by (cases "items_bytes its") (simp_all add: abs_flush_open [OF a1])
  finally have flush: "Option.bind ?X (abs_flush i) = \<dots>" .
  have "Option.bind (Option.bind ?X (abs_build i r)) (abs_flush i)
      = Option.bind (Option.bind ?X (abs_flush i)) (\<lambda>a. map_option (\<lambda>e. abs_append e a) (items_bytes r))"
    by (cases ?X) (simp_all add: IHr)
  also have "\<dots> = Option.bind (items_bytes its) (\<lambda>c. Option.bind (cbb_encode k c)
        (\<lambda>p. map_option (\<lambda>e. abs_append (p @ e) a1) (items_bytes r)))"
    unfolding flush by (cases "items_bytes its"; cases "items_bytes r") (auto split: option.splits
        simp: Option.bind_eq_Some_conv map_option_bind)
  finally show ?thesis .
qed

lemma abs_build_flush:
  "Option.bind (abs_build i its a) (abs_flush i)
    = Option.bind (abs_flush i a) (\<lambda>a. map_option (\<lambda>e. abs_append e a) (items_bytes its))"
proof (induction "size_list size its" arbitrary: its i a rule: less_induct)
  case less
  show ?case
  proof (cases its)
    case Nil
    then show ?thesis by (cases "abs_flush i a") simp_all
  next
    case (Cons it r)
    have IHr: "Option.bind (abs_build i r a) (abs_flush i)
        = Option.bind (abs_flush i a) (\<lambda>a. map_option (\<lambda>e. abs_append e a) (items_bytes r))" for i a
      by (rule less) (simp add: Cons)
    have add: "Option.bind (Option.bind (abs_add i d a) (abs_build i r)) (abs_flush i)
        = Option.bind (abs_flush i a) (\<lambda>a. map_option (\<lambda>e. abs_append (d @ e) a) (items_bytes r))" for d
    proof (cases "abs_flush i a")
      case (Some a1)
      then show ?thesis
        using IHr [of i "abs_append d a1"] abs_flush_append [OF abs_flush_length [OF Some], of d]
        by (cases "items_bytes r") (simp_all add: abs_add_def)
    qed (simp add: abs_add_def)
    show ?thesis
    proof (cases it)
      case (Bytes_item b)
      then show ?thesis using add [of b] by (simp add: Cons option.map_comp o_def)
    next
      case (Uint_item w v)
      then show ?thesis using add [of "be_bytes (width_len w) v"]
        by (cases "abs_flush i a") (simp_all add: Cons option.map_comp o_def)
    next
      case (Prefixed_item w js)
      show ?thesis
      proof (cases "abs_flush i a")
        case (Some a1)
        note len = abs_flush_length [OF Some]
        have IHc: "Option.bind (abs_build (Suc i) js x) (abs_flush (Suc i))
            = Option.bind (abs_flush (Suc i) x) (\<lambda>a. map_option (\<lambda>e. abs_append e a) (items_bytes js))" for x
          by (rule less) (simp add: Cons Prefixed_item)
        show ?thesis
          using abs_build_child [OF len IHr IHc, of "Length_prefix (width_len w)"]
          by (cases "items_bytes js"; cases "items_bytes r")
            (simp_all add: Cons Prefixed_item abs_add_prefixed_def Some map_option_bind split: bind_splits)
      qed (simp add: Cons Prefixed_item abs_add_prefixed_def)
    next
      case (Asn1_item t js)
      show ?thesis
      proof (cases "abs_flush i a")
        case (Some a1)
        note len = abs_flush_length [OF Some]
        have len': "length (snd (abs_append [ucast t] a1)) = i" using len by simp
        have IHc: "Option.bind (abs_build (Suc i) js x) (abs_flush (Suc i))
            = Option.bind (abs_flush (Suc i) x) (\<lambda>a. map_option (\<lambda>e. abs_append e a) (items_bytes js))" for x
          by (rule less) (simp add: Cons Asn1_item)
        show ?thesis
          using abs_build_child [OF len' IHr IHc, of Asn1_length]
          by (cases "items_bytes js"; cases "items_bytes r")
            (simp_all add: Cons Asn1_item abs_add_asn1_def Some map_option_bind split: bind_splits)
      qed (simp add: Cons Asn1_item abs_add_asn1_def)
    qed
  qed
qed

section \<open>From an empty builder to the finished bytes\<close>

lemma CBB_init_rel:
  assumes "CBB_init alloc base_size cap = (True, s)" and "cap \<le> SIZE_MAX"
  shows "cbb_rel s ([], [])" and "roomy_cbb alloc s \<longleftrightarrow> (\<forall>n. alloc n)"
  using assms by (auto simp: CBB_init_def cbb_init_def Let_def cbb_rel_def buffer_ok_def cb_content_def
      abs_bytes_def CBB_INITIAL_SIZE_def SIZE_MAX_def roomy_cbb_def roomy_def split: if_splits)

lemma CBB_finish_refines:
  assumes "cbb_rel s a"
  shows "CBB_finish alloc 0 (Some None) True s = (Some (buf, n), s') \<Longrightarrow>
      cbb_close (fst a) (snd a) = Some (take n buf) \<and> n \<le> length buf"
    and "roomy_cbb alloc s \<Longrightarrow> cbb_close (fst a) (snd a) = Some e \<Longrightarrow> length e \<le> SIZE_MAX \<Longrightarrow>
      \<exists>buf s'. CBB_finish alloc 0 (Some None) True s = (Some (buf, length e), s') \<and> take (length e) buf = e"
proof -
  obtain pre ks where a: "a = (pre, ks)" by fastforce
  obtain ok s1 where fl: "CBB_flush alloc 0 s = (ok, s1)" by fastforce
  note r = CBB_flush_refines [OF assms, of alloc 0, unfolded fl cbb_refines_def fst_conv snd_conv]
  { assume ok
    then obtain e where e: "cbb_close pre ks = Some e" "cbb_rel s1 (e, [])" using r by (auto simp: a)
    then obtain b where b: "cb_base s1 = Some b" "buffer_ok b" "take (cb_len b) (cb_buf b) = e"
      by (auto simp: cbb_rel_def cb_content_def abs_bytes_def)
    have "\<exists>b :: cbb_buffer. CBB_finish alloc 0 (Some None) True s = (Some (cb_buf b, cb_len b), CBB_cleanup s1) \<and>
      cbb_close pre ks = Some (take (cb_len b) (cb_buf b)) \<and> cb_len b \<le> length (cb_buf b)"
      using \<open>ok\<close> fl b e(1) by (intro exI [of _ b]) (simp add: CBB_finish_def buffer_ok_def) }
  note fin = this
  show "CBB_finish alloc 0 (Some None) True s = (Some (buf, n), s') \<Longrightarrow>
      cbb_close (fst a) (snd a) = Some (take n buf) \<and> n \<le> length buf"
    using fin fl by (cases ok) (auto simp: a CBB_finish_def)
  show "\<exists>buf s'. CBB_finish alloc 0 (Some None) True s = (Some (buf, length e), s') \<and> take (length e) buf = e"
    if rm: "roomy_cbb alloc s" and cl: "cbb_close (fst a) (snd a) = Some e" and sz: "length e \<le> SIZE_MAX"
  proof -
    have ok using rm cl sz r by (auto simp: a abs_bytes_def)
    then obtain b :: cbb_buffer where "CBB_finish alloc 0 (Some None) True s = (Some (cb_buf b, cb_len b), CBB_cleanup s1)"
      "e = take (cb_len b) (cb_buf b)" "cb_len b \<le> length (cb_buf b)" using fin cl by (auto simp: a)
    then show ?thesis by (auto simp: min_def)
  qed
qed

definition cbb_run :: "allocator \<Rightarrow> nat \<Rightarrow> nat \<Rightarrow> cbb_item list \<Rightarrow> (bytes \<times> nat) option" where
  "cbb_run alloc base_size cap its =
     (case CBB_init alloc base_size cap of
        (False, s) \<Rightarrow> None
      | (True, s) \<Rightarrow>
          (case cbb_build alloc 0 its s of
             (False, s) \<Rightarrow> None
           | (True, s) \<Rightarrow> fst (CBB_finish alloc 0 (Some None) True s)))"

lemma abs_build_close:
  "abs_build 0 its ([], []) = Some a \<Longrightarrow> cbb_close (fst a) (snd a) = items_bytes its"
  using abs_build_flush [of 0 its "([], [])"]
  by (cases a; cases "cbb_close (fst a) (snd a)"; cases "items_bytes its") auto

lemma abs_build_total: "items_bytes its = Some e \<Longrightarrow> \<exists>a. abs_build 0 its ([], []) = Some a"
  using abs_build_flush [of 0 its "([], [])"] by (cases "abs_build 0 its ([], [])") auto

lemma cbb_run_sound:
  assumes "cbb_run alloc base_size cap its = Some (buf, n)" and "items_sized its" and "cap \<le> SIZE_MAX"
  shows "items_bytes its = Some (take n buf) \<and> n \<le> length buf"
proof -
  obtain s where s: "CBB_init alloc base_size cap = (True, s)"
    using assms(1) by (auto simp: cbb_run_def split: prod.splits bool.splits)
  obtain s1 where s1: "cbb_build alloc 0 its s = (True, s1)"
    using assms(1) s by (auto simp: cbb_run_def split: prod.splits bool.splits)
  obtain s2 where s2: "CBB_finish alloc 0 (Some None) True s1 = (Some (buf, n), s2)"
    using assms(1) s s1 by (cases "CBB_finish alloc 0 (Some None) True s1") (auto simp: cbb_run_def)
  obtain a where a: "abs_build 0 its ([], []) = Some a" "cbb_rel s1 a"
    using cbb_build_refines [OF CBB_init_rel(1) [OF s assms(3)] assms(2), of alloc 0] s1
    by (auto simp: cbb_refines_def)
  show ?thesis using CBB_finish_refines(1) [OF a(2) s2] abs_build_close [OF a(1)] by simp
qed

lemma cbb_run_complete:
  assumes "items_bytes its = Some e" and "length e \<le> SIZE_MAX" and "\<And>n. alloc n"
    and "items_sized its" and "cap \<le> SIZE_MAX"
  shows "\<exists>buf. cbb_run alloc base_size cap its = Some (buf, length e) \<and> take (length e) buf = e"
proof -
  obtain s where s: "CBB_init alloc base_size cap = (True, s)"
    using assms(3) by (simp add: CBB_init_def cbb_init_def Let_def)
  note rel = CBB_init_rel [OF s assms(5)]
  obtain ok s1 where s1: "cbb_build alloc 0 its s = (ok, s1)" by fastforce
  obtain a where a: "abs_build 0 its ([], []) = Some a" using abs_build_total [OF assms(1)] by blast
  have cl: "abs_flush 0 a = Some (e, [])" using abs_build_close [OF a] assms(1) by (cases a) simp
  have "abs_ok a" using abs_build_grows [OF _ a] by (simp add: abs_ok_def)
  then have "length (abs_bytes a) \<le> SIZE_MAX"
    using abs_flush_grows [OF _ cl] assms(2) by (simp add: abs_bytes_def)
  then have ok: "ok" and s1rel: "cbb_rel s1 a" "roomy_cbb alloc s1"
    using cbb_build_refines [OF rel(1) assms(4), of alloc 0] a s1 rel(2) assms(3)
    by (auto simp: cbb_refines_def)
  obtain buf s2 where "CBB_finish alloc 0 (Some None) True s1 = (Some (buf, length e), s2)"
    "take (length e) buf = e"
    using CBB_finish_refines(2) [OF s1rel] cl assms(2) by (cases a) auto
  then show ?thesis using s s1 ok by (intro exI [of _ buf]) (simp add: cbb_run_def)
qed

section \<open>INTEGERs written and read back\<close>

text \<open>The octets \<open>CBB_add_asn1_uint64\<close> adds: the value without leading zero octets, with a
  zero octet in front when the high bit is set.\<close>

fun strip_octets :: "bytes \<Rightarrow> bool \<Rightarrow> bytes" where
  "strip_octets [] started = []"
| "strip_octets (b # bs) started =
     (if \<not> started \<and> b = 0 then strip_octets bs started
      else (if \<not> started \<and> 128 \<le> unat b then [0] else []) @ b # strip_octets bs True)"

definition der_uint :: "u64 \<Rightarrow> bytes" where
  "der_uint v = (let bs = strip_octets (uint64_octets v) False in if bs = [] then [0] else bs)"

lemma strip_started: "strip_octets bs True = bs"
  by (induction bs) auto

lemma be_val_strip: "be_val (strip_octets bs started) = be_val bs"
  by (induction bs started rule: strip_octets.induct) (auto simp: strip_started)

lemma strip_length: "length (strip_octets bs started) \<le> Suc (length bs)"
  by (induction bs started rule: strip_octets.induct) (auto simp: strip_started)

lemma strip_der_unsigned: "strip_octets bs False \<noteq> [] \<Longrightarrow> der_unsigned (strip_octets bs False)"
  by (induction bs) (auto simp: strip_started der_unsigned_def nth_Cons')

lemma unat_octet_of: "unat (ucast (w AND 0xff :: u64) :: u8) = unat w mod 256"
proof -
  have "(0xff :: u64) = mask 8" by (simp add: mask_eq_exp_minus_1)
  then have "w AND 0xff = take_bit 8 w" by (simp only: take_bit_eq_mask)
  then have "unat (w AND 0xff) = take_bit 8 (unat w)" by (simp only: unsigned_take_bit_eq)
  then show ?thesis by (simp add: unsigned_ucast_eq take_bit_eq_mod)
qed

lemma be_bytes_nth: "i < n \<Longrightarrow> be_bytes n v ! i = word_of_nat (v div 256 ^ (n - 1 - i))"
proof (induction n arbitrary: v)
  case (Suc n)
  show ?case
  proof (cases "i = n")
    case False
    then have i: "i < n" using Suc.prems by simp
    then have e: "Suc (n - 1 - i) = n - i" by simp
    have "v div 256 div 256 ^ (n - 1 - i) = v div 256 ^ (n - i)"
      by (simp only: div_mult2_eq [symmetric] power_Suc [symmetric] e)
    then show ?thesis using Suc.IH [OF i, of "v div 256"] i by (simp add: nth_append)
  qed (simp add: nth_append)
qed simp

lemma uint64_octets_eq: "uint64_octets v = be_bytes 8 (unat v)"
proof (rule nth_equalityI)
  fix i assume "i < length (uint64_octets v)"
  then have i: "i < 8" by (simp add: uint64_octets_def)
  have p: "(2 :: nat) ^ (8 * (7 - i)) = 256 ^ (7 - i)" by (simp add: power_mult)
  have "unat (uint64_octets v ! i) = unat (drop_bit (8 * (7 - i)) v) mod 256"
    using i by (simp add: uint64_octets_def unat_octet_of del: upt_Suc upt_rec)
  also have "\<dots> = unat v div 256 ^ (7 - i) mod 256"
    unfolding unat_drop_bit_eq by (simp only: drop_bit_eq_div p)
  also have "\<dots> = unat (be_bytes 8 (unat v) ! i)" using i by (simp add: be_bytes_nth)
  finally show "uint64_octets v ! i = be_bytes 8 (unat v) ! i" by (simp add: octet_eq_iff)
qed (simp add: uint64_octets_def)

lemma be_val_uint64_octets: "be_val (uint64_octets v) = unat v"
proof -
  have "unat v < 256 ^ 8" using unat_u64_lt [of v] by (simp del: unat_u64_lt)
  then show ?thesis by (simp add: uint64_octets_eq be_simps)
qed

lemma der_uint: "der_unsigned (der_uint v)" "be_val (der_uint v) = unat v" "length (der_uint v) \<le> 9"
proof -
  have len: "length (strip_octets (uint64_octets v) False) \<le> 9"
    using strip_length [of "uint64_octets v" False] by (simp add: uint64_octets_def del: upt_rec)
  have v: "be_val (strip_octets (uint64_octets v) False) = unat v"
    by (simp add: be_val_strip be_val_uint64_octets)
  show "der_unsigned (der_uint v)"
    using strip_der_unsigned [of "uint64_octets v"] by (auto simp: der_uint_def Let_def der_unsigned_def)
  show "be_val (der_uint v) = unat v"
    using v by (auto simp: der_uint_def Let_def)
  show "length (der_uint v) \<le> 9" using len by (auto simp: der_uint_def Let_def)
qed

lemma cbb_refines_fail:
  "cbb_refines alloc s (Some a1) (False, s1) \<Longrightarrow> length (abs_bytes a1) \<le> length (abs_bytes a2) \<Longrightarrow>
    cbb_refines alloc s (Some a2) (False, s2)"
  by (auto simp: cbb_refines_def)

lemma cbb_refines_step:
  assumes "cbb_refines alloc s (Some a1) (True, s1)"
    and "cbb_rel s1 a1 \<Longrightarrow> cbb_refines alloc s1 (Some a2) r"
  shows "cbb_refines alloc s (Some a2) r"
  using assms by (auto simp: cbb_refines_def)

lemma add_uint64_octets_refines:
  assumes "cbb_rel s a" and "length (snd a) = j" and "add_uint64_octets alloc j bs started s = (ok, started', s')"
  shows "cbb_refines alloc s (Some (abs_append (strip_octets bs started) a)) (ok, s') \<and>
    (ok \<longrightarrow> started' = (started \<or> strip_octets bs started \<noteq> []))"
  using assms
proof (induction bs arbitrary: s a started)
  case Nil
  then show ?case by (auto simp: cbb_refines_def)
next
  case (Cons b bs)
  show ?case
  proof (cases "\<not> started \<and> b = 0")
    case True
    then show ?thesis using Cons.IH [OF Cons.prems(1,2)] Cons.prems(3) by auto
  next
    case go: False
    define z where "z = (if \<not> started \<and> 128 \<le> unat b then [0 :: u8] else [])"
    obtain ok1 s1 where r1: "(if \<not> started \<and> b AND 0x80 \<noteq> 0 then CBB_add_u8 alloc j 0 s else (True, s)) = (ok1, s1)"
      by fastforce
    have ref1: "cbb_refines alloc s (Some (abs_append z a)) (ok1, s1)"
      using CBB_add_u8_flushed_refines [OF Cons.prems(1,2), of 0 alloc] r1 Cons.prems(1)
      by (auto simp: z_def octet_simps cbb_refines_def split: if_splits)
    have strip: "strip_octets (b # bs) started = z @ b # bs"
      using go by (auto simp: z_def strip_started)
    show ?thesis
    proof (cases ok1)
      case False
      then have "ok = False" using Cons.prems(3) r1 go by auto
      then show ?thesis using cbb_refines_fail [of alloc s "abs_append z a" s1] ref1 False strip by auto
    next
      case True
      obtain ok2 s2 where r2: "CBB_add_u8 alloc j (unat b) s1 = (ok2, s2)" by fastforce
      have ref2: "cbb_refines alloc s1 (Some (abs_append (z @ [b]) a)) (ok2, s2)" if "cbb_rel s1 (abs_append z a)"
        using CBB_add_u8_flushed_refines [OF that, of j "unat b" alloc] Cons.prems(2) r2 unat_u8_lt [of b]
        by simp
      have ref12: "cbb_refines alloc s (Some (abs_append (z @ [b]) a)) (ok2, s2)"
        using ref1 ref2 True by (auto intro: cbb_refines_step)
      show ?thesis
      proof (cases ok2)
        case False
        then have "ok = False" using Cons.prems(3) r1 r2 go True by auto
        then show ?thesis
          using cbb_refines_fail [of alloc s "abs_append (z @ [b]) a" s2] ref12 False strip by auto
      next
        case ok2: True
        have rec: "add_uint64_octets alloc j bs True s2 = (ok, started', s')"
          using Cons.prems(3) r1 r2 go True ok2 by auto
        have "cbb_refines alloc s2 (Some (abs_append (z @ b # bs) a)) (ok, s') \<and> (ok \<longrightarrow> started')"
          if "cbb_rel s2 (abs_append (z @ [b]) a)"
          using Cons.IH [OF that _ rec] Cons.prems(2) by (auto simp: strip_started)
        moreover have "cbb_rel s2 (abs_append (z @ [b]) a)" using ref12 ok2 by (auto simp: cbb_refines_def)
        moreover have "cbb_refines alloc s (Some (abs_append (z @ [b]) a)) (True, s2)" using ref12 ok2 by simp
        ultimately show ?thesis using strip by (auto intro: cbb_refines_step)
      qed
    qed
  qed
qed

text \<open>The contents of the INTEGER: the octets of the value, or one zero octet.\<close>

lemma uint64_contents_refines:
  assumes "cbb_rel s a" and "length (snd a) = j" and "add_uint64_octets alloc j (uint64_octets v) False s = (ok, started, s')"
  shows "cbb_refines alloc s (Some (abs_append (der_uint v) a))
    (if \<not> ok then (False, s') else if \<not> started then CBB_add_u8 alloc j 0 s' else (True, s'))"
proof -
  let ?bs = "strip_octets (uint64_octets v) False"
  note oct = add_uint64_octets_refines [OF assms]
  consider (zero) "ok" "\<not> started" | (some) "ok" "started" | (fails) "\<not> ok" by blast
  then show ?thesis
  proof cases
    case zero
    then have "?bs = []" using oct by auto
    then show ?thesis
      using zero oct CBB_add_u8_flushed_refines [OF _ assms(2), of s' 0 alloc] by (auto simp: der_uint_def cbb_refines_def)
  next
    case some
    then show ?thesis using oct by (auto simp: der_uint_def Let_def)
  next
    case fails
    have grow: "length (abs_bytes (abs_append ?bs a)) \<le> length (abs_bytes (abs_append (der_uint v) a))"
      by (simp add: der_uint_def Let_def)
    show ?thesis using fails cbb_refines_fail [OF _ grow, of alloc s s' s'] oct by simp
  qed
qed

lemma CBB_add_asn1_uint64_refines:
  assumes "cbb_rel s a"
  shows "cbb_refines alloc s (abs_add i (der_element 2 (der_uint v)) a) (CBB_add_asn1_uint64 alloc i v s)"
proof -
  have t: "CBS_ASN1_INTEGER AND 0x1f \<noteq> 0x1f" "\<not> 0xff < unat CBS_ASN1_INTEGER" "ucast CBS_ASN1_INTEGER = (2 :: u8)"
    by (simp_all add: CBS_ASN1_INTEGER_def)
  note ok = cbb_rel_abs_ok [OF assms]
  define f where "f = (\<lambda>a1. Option.bind (Some (abs_append (der_uint v) a1)) (abs_flush i))"
  define g where "g = (\<lambda>s. let (ok, started, s) = add_uint64_octets alloc (Suc i) (uint64_octets v) False s in
       if \<not> ok then (False, s)
       else and_then (if \<not> started then CBB_add_u8 alloc (Suc i) 0 s else (True, s)) (CBB_flush alloc i))"
  have enc: "cbb_encode Asn1_length (der_uint v) = Some (der_length (length (der_uint v)) @ der_uint v)"
    using der_uint(3) [of v] by simp
  have "cbb_refines alloc s (Option.bind (abs_add_asn1 i 2 a) f) (and_then (CBB_add_asn1 alloc i CBS_ASN1_INTEGER s) g)"
  proof (rule cbb_refines_then)
    show "cbb_refines alloc s (abs_add_asn1 i 2 a) (CBB_add_asn1 alloc i CBS_ASN1_INTEGER s)"
      using CBB_add_asn1_refines [OF assms, of alloc CBS_ASN1_INTEGER i] t by simp
  next
    fix s1 a1
    assume rel: "cbb_rel s1 a1" and "abs_add_asn1 i 2 a = Some a1"
    then have len: "length (snd a1) = Suc i" by (simp add: abs_add_asn1_length)
    obtain ok2 started s2 where r: "add_uint64_octets alloc (Suc i) (uint64_octets v) False s1 = (ok2, started, s2)"
      by (cases "add_uint64_octets alloc (Suc i) (uint64_octets v) False s1") auto
    note r1 = uint64_contents_refines [OF rel len r]
    have "cbb_refines alloc s1 (f a1) (and_then (if \<not> ok2 then (False, s2) else
        if \<not> started then CBB_add_u8 alloc (Suc i) 0 s2 else (True, s2)) (CBB_flush alloc i))"
      unfolding f_def
      by (rule cbb_refines_then [OF r1 CBB_flush_refines abs_flush_grows])
        (use cbb_rel_abs_ok [OF rel] in auto)
    then show "cbb_refines alloc s1 (f a1) (g s1)" by (auto simp: g_def r split: if_splits)
  next
    fix a1 a2
    assume "abs_ok a1" "f a1 = Some a2"
    then show "abs_ok a2 \<and> length (abs_bytes a1) \<le> length (abs_bytes a2)"
      using abs_flush_grows [of "abs_append (der_uint v) a1" i a2] by (simp add: f_def)
  qed (use abs_add_asn1_grows [OF ok] in auto)
  moreover have "Option.bind (abs_add_asn1 i 2 a) f = abs_add i (der_element 2 (der_uint v)) a"
  proof (cases "abs_flush i a")
    case (Some a1)
    have "length (snd (abs_append [2] a1)) = i" using abs_flush_length [OF Some] by simp
    then show ?thesis using abs_flush_open [of "abs_append [2] a1" i "der_uint v" Asn1_length]
      by (simp only: abs_add_asn1_def abs_add_def Some f_def enc) (simp add: der_element_def)
  qed (simp add: abs_add_asn1_def abs_add_def)
  moreover have "CBB_add_asn1_uint64 alloc i v s = and_then (CBB_add_asn1 alloc i CBS_ASN1_INTEGER s) g"
    by (simp add: CBB_add_asn1_uint64_def g_def)
  ultimately show ?thesis by simp
qed

section \<open>Properties of the builder\<close>

text \<open>Discarding the open child of level \<open>i\<close>, with all its descendants, leaves what the level
  held before the child was opened.\<close>

lemma chain_ok_take:
  "chain_ok st pre ks chain \<Longrightarrow> i < length ks \<Longrightarrow>
    chain_ok st pre (take i ks) (take i chain @ [zero_frame]) \<and>
    fr_offset (chain ! i) = st + length (cbb_layout pre (take i ks))"
proof (induction st pre ks chain arbitrary: i rule: chain_ok.induct)
  case (2 st pre k c ks f fs)
  then show ?case
  proof (cases i)
    case (Suc j)
    then show ?thesis using 2 by simp
  qed simp
qed simp_all

lemma cbb_layout_take: "\<exists>x. cbb_layout pre ks = cbb_layout pre (take i ks) @ x"
proof (induction pre ks arbitrary: i rule: cbb_layout.induct)
  case (2 pre k c ks)
  show ?case
  proof (cases i)
    case (Suc j)
    from 2 [of j] obtain x where "cbb_layout c ks = cbb_layout c (take j ks) @ x" ..
    then show ?thesis using Suc by (intro exI [of _ x]) simp
  qed simp
qed simp

text \<open>\<open>CBB_discard_child\<close> forgets the open child and everything written through it: neither
  its contents nor its length prefix are left in the output, and the levels above are as they
  were when the child was opened.\<close>

theorem discard_child_forgets:
  assumes "cbb_rel s (pre, ks)"
  shows "cbb_rel (CBB_discard_child i s) (pre, take i ks)"
proof -
  obtain b where b: "cb_base s = Some b" "buffer_ok b" "cb_content b = cbb_layout pre ks"
    and ch: "chain_ok 0 pre ks (cb_chain s)"
    using assms by (auto simp: cbb_rel_def abs_bytes_def)
  show ?thesis
  proof (cases "i < length ks")
    case True
    note t = chain_ok_take [OF ch True]
    let ?l = "cbb_layout pre (take i ks)"
    let ?n = "fr_offset (cb_chain s ! i)"
    obtain x where x: "cbb_layout pre ks = ?l @ x" using cbb_layout_take by blast
    have n: "?n = length ?l" using t by simp
    have le: "?n \<le> cb_len b"
      using arg_cong [OF x, of length] b(3) length_cb_content [OF b(2)] n by simp
    have "cb_content (b\<lparr>cb_len := ?n\<rparr>) = take ?n (cb_content b)"
      using le by (simp add: cb_content_def min_def)
    also have "\<dots> = ?l" using b(3) x n by simp
    finally have c: "cb_content (b\<lparr>cb_len := ?n\<rparr>) = ?l" .
    have ok: "buffer_ok (b\<lparr>cb_len := ?n\<rparr>)" using b(2) le by (simp add: buffer_ok_def)
    have "\<not> length (cb_chain s) \<le> Suc i" using length_chain [OF ch] True by simp
    then show ?thesis
      unfolding cbb_rel_def CBB_discard_child_def
      using b(1) c ok conjunct1 [OF t] by (intro exI [of _ "b\<lparr>cb_len := ?n\<rparr>"]) (simp add: abs_bytes_def)
  qed (use assms length_chain [OF ch] in \<open>simp add: CBB_discard_child_def\<close>)
qed

theorem discard_child_forgets_witness:
  "cbb_rel (CBB_discard_child 0 (snd (CBB_init (\<lambda>n. True) 0 0))) ([], [])"
proof -
  have "CBB_init (\<lambda>n. True) 0 0 = (True, snd (CBB_init (\<lambda>n. True) 0 0))"
    by (simp add: CBB_init_def cbb_init_def Let_def)
  from discard_child_forgets [OF CBB_init_rel(1) [OF this], of 0] show ?thesis by simp
qed

text \<open>C36: whatever program of builder calls succeeds, in a buffer that grows, produced the encoding
  the program asked for: every nested length prefix is right, in its fixed width or in the
  shortest DER form, and no value was truncated.\<close>

theorem cbb_program_sound:
  assumes "cbb_run alloc base_size cap its = Some (buf, n)" and "items_sized its" and "cap \<le> SIZE_MAX"
  shows "items_bytes its = Some (take n buf) \<and> n \<le> length buf"
  using assms by (rule cbb_run_sound)

theorem cbb_program_sound_witness:
  "items_bytes [Asn1_item 0x30 [Uint_item W16 513, Prefixed_item W8 [Bytes_item [7]]]]
     = Some [0x30, 4, 2, 1, 1, 7]"
proof -
  have "cbb_run (\<lambda>n. True) 0 0 [Asn1_item 0x30 [Uint_item W16 513, Prefixed_item W8 [Bytes_item [7]]]]
      = Some ([0x30, 4, 2, 1, 1, 7] @ replicate 58 0, 6)"
    by code_simp
  from cbb_program_sound [OF this] show ?thesis by (simp add: SIZE_MAX_def)
qed

text \<open>when memory is available a program of builder calls succeeds whenever its encoding
  exists, that is when every value and every nested content fits its prefix and the whole fits
  in \<^verbatim>\<open>size_t\<close>; the builder never fails for another reason.\<close>

theorem cbb_program_complete:
  assumes "items_bytes its = Some e" and "length e \<le> SIZE_MAX" and "items_sized its" and "cap \<le> SIZE_MAX"
  shows "\<exists>buf. cbb_run (\<lambda>n. True) base_size cap its = Some (buf, length e) \<and> take (length e) buf = e"
  by (rule cbb_run_complete [OF assms(1,2) TrueI assms(3,4)])

theorem cbb_program_complete_witness:
  "\<exists>buf. cbb_run (\<lambda>n. True) 0 0 [Prefixed_item W16 [Uint_item W8 7]] = Some (buf, 3) \<and> take 3 buf = [0, 1, 7]"
proof -
  have "items_bytes [Prefixed_item W16 [Uint_item W8 7]] = Some [0, 1, 7]" by code_simp
  moreover have "length [0 :: u8, 1, 7] \<le> SIZE_MAX" by code_simp
  moreover have "items_sized [Prefixed_item W16 [Uint_item W8 7]]" by simp
  moreover have "length [0 :: u8, 1, 7] = 3" by simp
  ultimately show ?thesis using cbb_program_complete [of _ "[0, 1, 7]" 0 0] by (metis zero_le)
qed

end
