(* ===== verification/Bs_codec.thy ===== *)
theory Bs_codec
  imports Bs_cbb
begin

unbundle bit_operations_syntax

text \<open>
  The builder and the reader against each other: what a \<^verbatim>\<open>CBB_add_*\<close> call writes, the
  matching \<^verbatim>\<open>CBS_get_*\<close> call reads back.  The contract of such a pair is the locale
  \<open>cbb_cbs_codec\<close>; the integers of each width, the length-prefixed strings and the DER
  INTEGERs of the library are its instances.
\<close>

section \<open>Sequences of values\<close>

fun put_all :: "(allocator \<Rightarrow> nat \<Rightarrow> 'a \<Rightarrow> cbb \<Rightarrow> bool \<times> cbb) \<Rightarrow> allocator \<Rightarrow> nat \<Rightarrow> 'a list \<Rightarrow> cbb \<Rightarrow> bool \<times> cbb" where
  "put_all put alloc i [] s = (True, s)"
| "put_all put alloc i (v # vs) s = and_then (put alloc i v s) (put_all put alloc i vs)"

fun get_all :: "(cbs, 'a) step \<Rightarrow> nat \<Rightarrow> (cbs, 'a list) step" where
  "get_all get 0 c = (Some [], c)"
| "get_all get (Suc n) c =
     (case get c of
        (None, c) \<Rightarrow> (None, c)
      | (Some v, c) \<Rightarrow>
          (case get_all get n c of
             (None, c) \<Rightarrow> (None, c)
           | (Some vs, c) \<Rightarrow> (Some (v # vs), c)))"

text \<open>Write the values into a fresh builder and finish it.\<close>

definition write_out :: "(allocator \<Rightarrow> nat \<Rightarrow> 'a \<Rightarrow> cbb \<Rightarrow> bool \<times> cbb) \<Rightarrow> allocator \<Rightarrow> nat \<Rightarrow> nat \<Rightarrow> 'a list
    \<Rightarrow> (bytes \<times> nat) option" where
  "write_out put alloc base_size cap vs =
     (case CBB_init alloc base_size cap of
        (False, s) \<Rightarrow> None
      | (True, s) \<Rightarrow>
          (case put_all put alloc 0 vs s of
             (False, s) \<Rightarrow> None
           | (True, s) \<Rightarrow> fst (CBB_finish alloc 0 (Some None) True s)))"

locale cbb_cbs_codec =
  fixes put :: "allocator \<Rightarrow> nat \<Rightarrow> 'a \<Rightarrow> cbb \<Rightarrow> bool \<times> cbb"
    and get :: "cbs \<Rightarrow> 'a option \<times> cbs"
    and enc :: "'a \<Rightarrow> bytes"
    and valid :: "'a \<Rightarrow> bool"
  assumes put_enc: "cbb_rel s a \<Longrightarrow> valid v \<Longrightarrow> cbb_refines alloc s (abs_add i (enc v) a) (put alloc i v s)"
    and get_enc: "cbs_ok c \<Longrightarrow> valid v \<Longrightarrow> cbs_view c = enc v @ rest \<Longrightarrow>
      \<exists>c'. get c = (Some v, c') \<and> cbs_ok c' \<and> cbs_view c' = rest"
begin

lemma put_all_top:
  "cbb_rel s (pre, []) \<Longrightarrow> \<forall>v \<in> set vs. valid v \<Longrightarrow>
   cbb_refines alloc s (Some (pre @ concat (map enc vs), [])) (put_all put alloc 0 vs s)"
proof (induction vs arbitrary: s pre)
  case Nil
  then show ?case by (simp add: cbb_refines_def)
next
  case (Cons v vs)
  have "cbb_refines alloc s (Option.bind (Some (pre @ enc v, []))
      (\<lambda>a :: cbb_abs. Some (fst a @ concat (map enc vs), []))) (and_then (put alloc 0 v s) (put_all put alloc 0 vs))"
  proof (rule cbb_refines_and_then)
    show "cbb_refines alloc s (Some (pre @ enc v, [])) (put alloc 0 v s)"
      using put_enc [OF Cons.prems(1), of v alloc 0] Cons.prems(2) by (simp add: abs_add_def)
    show "cbb_refines alloc s1 (Some (fst a1 @ concat (map enc vs), [])) (put_all put alloc 0 vs s1)"
      if "cbb_rel s1 a1" and "Some (pre @ enc v, []) = Some a1" for s1 a1
      using that Cons.IH [of s1 "fst a1"] Cons.prems(2) by auto
  qed (auto simp: abs_bytes_def)
  then show ?case by simp
qed

lemma get_all_enc:
  "cbs_ok c \<Longrightarrow> \<forall>v \<in> set vs. valid v \<Longrightarrow> cbs_view c = concat (map enc vs) @ rest \<Longrightarrow>
   \<exists>c'. get_all get (length vs) c = (Some vs, c') \<and> cbs_ok c' \<and> cbs_view c' = rest"
proof (induction vs arbitrary: c)
  case (Cons v vs)
  obtain c1 where c1: "get c = (Some v, c1)" "cbs_ok c1" "cbs_view c1 = concat (map enc vs) @ rest"
    using get_enc [OF Cons.prems(1), of v "concat (map enc vs) @ rest"] Cons.prems(2,3) by auto
  show ?case using Cons.IH [OF c1(2) _ c1(3)] Cons.prems(2) c1(1) by auto
qed simp

lemma write_read:
  assumes "write_out put alloc base_size cap vs = Some (buf, n)" and "\<forall>v \<in> set vs. valid v" and "cap \<le> SIZE_MAX"
  shows "\<exists>c'. get_all get (length vs) (CBS_init buf n) = (Some vs, c') \<and> cbs_view c' = []"
proof -
  obtain s where s: "CBB_init alloc base_size cap = (True, s)"
    using assms(1) by (auto simp: write_out_def split: prod.splits bool.splits)
  obtain s1 where s1: "put_all put alloc 0 vs s = (True, s1)"
    using assms(1) s by (auto simp: write_out_def split: prod.splits bool.splits)
  obtain s2 where s2: "CBB_finish alloc 0 (Some None) True s1 = (Some (buf, n), s2)"
    using assms(1) s s1 by (cases "CBB_finish alloc 0 (Some None) True s1") (auto simp: write_out_def)
  have "cbb_rel s1 (concat (map enc vs), [])"
    using put_all_top [OF CBB_init_rel(1) [OF s assms(3)] assms(2), of alloc] s1 by (auto simp: cbb_refines_def)
  from CBB_finish_refines(1) [OF this s2]
  have "take n buf = concat (map enc vs)" "n \<le> length buf" by auto
  then show ?thesis using get_all_enc [of "CBS_init buf n" vs "[]"] assms(2) by (auto simp: cbs_simps)
qed

lemma write_total:
  assumes "\<And>n. alloc n" and "\<forall>v \<in> set vs. valid v" and "cap \<le> SIZE_MAX"
    and "length (concat (map enc vs)) \<le> SIZE_MAX"
  shows "\<exists>buf. write_out put alloc base_size cap vs = Some (buf, length (concat (map enc vs)))
    \<and> take (length (concat (map enc vs))) buf = concat (map enc vs)"
proof -
  obtain s where s: "CBB_init alloc base_size cap = (True, s)"
    using assms(1) by (simp add: CBB_init_def cbb_init_def Let_def)
  note rel = CBB_init_rel [OF s assms(3)]
  obtain ok s1 where s1: "put_all put alloc 0 vs s = (ok, s1)" by fastforce
  have ok: "ok" and r1: "cbb_rel s1 (concat (map enc vs), [])" "roomy_cbb alloc s1"
    using put_all_top [OF rel(1) assms(2), of alloc] s1 rel(2) assms(1,4)
    by (auto simp: cbb_refines_def abs_bytes_def)
  obtain buf s2 where "CBB_finish alloc 0 (Some None) True s1 = (Some (buf, length (concat (map enc vs))), s2)"
    "take (length (concat (map enc vs))) buf = concat (map enc vs)"
    using CBB_finish_refines(2) [OF r1] assms(4) by auto
  then show ?thesis using s s1 ok by (intro exI [of _ buf]) (simp add: write_out_def)
qed

end

section \<open>The instances\<close>

lemma add_uint_put:
  "cbb_rel s a \<Longrightarrow> v < 256 ^ width_len w \<Longrightarrow>
   cbb_refines alloc s (abs_add i (be_bytes (width_len w) v) a) (add_uint w alloc i v s)"
  using add_uint_refines [of s a alloc v w i] by simp

lemma shift_in_be_bytes: "n \<le> 4 \<Longrightarrow> v < 256 ^ n \<Longrightarrow> unat (shift_in (0 :: u32) (be_bytes n v)) = v"
  by (simp add: unat_shift_in_u32 be_simps)

lemma fixed_reader_enc:
  assumes "fixed_reader get w dec" and "cbs_ok c" and "cbs_view c = bs @ rest" and "length bs = w" and "dec bs = v"
  shows "\<exists>c'. get c = (Some v, c') \<and> cbs_ok c' \<and> cbs_view c' = rest"
  using fixed_reader.get_append [OF assms(1-4)] assms by (auto simp: cbs_simps)

interpretation codec8: cbb_cbs_codec "\<lambda>alloc i v. CBB_add_u8 alloc i (unat v)" CBS_get_u8
  "\<lambda>v. be_bytes 1 (unat (v :: u8))" "\<lambda>v. True"
proof unfold_locales
  show "cbb_refines alloc s (abs_add i (be_bytes 1 (unat v)) a) (CBB_add_u8 alloc i (unat v) s)"
    if "cbb_rel s a" for alloc s a i and v :: u8
    using add_uint_put [OF that, of "unat v" W8] unat_u8_lt [of v] by simp
  show "\<exists>c'. CBS_get_u8 c = (Some v, c') \<and> cbs_ok c' \<and> cbs_view c' = rest"
    if "cbs_ok c" "cbs_view c = be_bytes 1 (unat v) @ rest" for c v rest
    using fixed_reader_enc [OF u8.fixed_reader_axioms that] by simp
qed

interpretation codec16: cbb_cbs_codec "\<lambda>alloc i v. CBB_add_u16 alloc i (unat v)" CBS_get_u16
  "\<lambda>v. be_bytes 2 (unat (v :: u16))" "\<lambda>v. True"
proof unfold_locales
  show "cbb_refines alloc s (abs_add i (be_bytes 2 (unat v)) a) (CBB_add_u16 alloc i (unat v) s)"
    if "cbb_rel s a" for alloc s a i and v :: u16
    using add_uint_put [OF that, of "unat v" W16] unat_u16_lt [of v] by simp
  show "\<exists>c'. CBS_get_u16 c = (Some v, c') \<and> cbs_ok c' \<and> cbs_view c' = rest"
    if "cbs_ok c" "cbs_view c = be_bytes 2 (unat v) @ rest" for c v rest
  proof (rule fixed_reader_enc [OF u16.fixed_reader_axioms that])
    have "unat (shift_in (0 :: u32) (be_bytes 2 (unat v))) = unat v"
      using unat_u16_lt [of v] by (intro shift_in_be_bytes) (simp_all del: unat_u16_lt)
    then have "unat (ucast (shift_in (0 :: u32) (be_bytes 2 (unat v))) :: u16) = unat v"
      by (simp add: unsigned_ucast_eq take_bit_nat_eq_self_iff)
    then show "(ucast (shift_in (0 :: u32) (be_bytes 2 (unat v))) :: u16) = v"
      by (simp add: word_unat_eq_iff)
  qed simp
qed

interpretation codec24: cbb_cbs_codec "\<lambda>alloc i v. CBB_add_u24 alloc i (unat v)" CBS_get_u24
  "\<lambda>v. be_bytes 3 (unat (v :: u32))" "\<lambda>v. unat v < 2 ^ 24"
proof unfold_locales
  show "cbb_refines alloc s (abs_add i (be_bytes 3 (unat v)) a) (CBB_add_u24 alloc i (unat v) s)"
    if "cbb_rel s a" "unat v < 2 ^ 24" for alloc s a i and v :: u32
    using add_uint_put [OF that(1), of "unat v" W24] that(2) by simp
  show "\<exists>c'. CBS_get_u24 c = (Some v, c') \<and> cbs_ok c' \<and> cbs_view c' = rest"
    if "cbs_ok c" "unat v < 2 ^ 24" "cbs_view c = be_bytes 3 (unat v) @ rest" for c v rest
    by (rule fixed_reader_enc [OF u24.fixed_reader_axioms that(1,3)])
      (use that(2) shift_in_be_bytes [of 3 "unat v"] in \<open>simp_all add: word_unat_eq_iff\<close>)
qed

interpretation codec32: cbb_cbs_codec "\<lambda>alloc i v. CBB_add_u32 alloc i (unat v)" CBS_get_u32
  "\<lambda>v. be_bytes 4 (unat (v :: u32))" "\<lambda>v. True"
proof unfold_locales
  show "cbb_refines alloc s (abs_add i (be_bytes 4 (unat v)) a) (CBB_add_u32 alloc i (unat v) s)"
    if "cbb_rel s a" for alloc s a i and v :: u32
    using add_uint_put [OF that, of "unat v" W32] unat_u32_lt [of v] by simp
  show "\<exists>c'. CBS_get_u32 c = (Some v, c') \<and> cbs_ok c' \<and> cbs_view c' = rest"
    if "cbs_ok c" "cbs_view c = be_bytes 4 (unat v) @ rest" for c v rest
    by (rule fixed_reader_enc [OF u32.fixed_reader_axioms that])
      (use unat_u32_lt [of v] shift_in_be_bytes [of 4 "unat v"] in \<open>simp_all add: word_unat_eq_iff\<close>)
qed

lemma cbb_refines_add_add:
  assumes "cbb_rel s a" and "\<And>s a. cbb_rel s a \<Longrightarrow> cbb_refines alloc s (abs_add i x a) (p s)"
    and "\<And>s a. cbb_rel s a \<Longrightarrow> cbb_refines alloc s (abs_add i y a) (q s)"
  shows "cbb_refines alloc s (abs_add i (x @ y) a) (and_then (p s) q)"
proof -
  have "cbb_refines alloc s (Option.bind (abs_add i x a) (abs_add i y)) (and_then (p s) q)"
    by (rule cbb_refines_then [OF assms(2) [OF assms(1)] assms(3) abs_add_grows])
      (use abs_add_grows [OF cbb_rel_abs_ok [OF assms(1)]] in auto)
  moreover have "Option.bind (abs_add i x a) (abs_add i y) = abs_add i (x @ y) a"
  proof (cases "abs_flush i a")
    case (Some a1)
    then show ?thesis using abs_flush_append [OF abs_flush_length [OF Some], of x] by (simp add: abs_add_def)
  qed (simp add: abs_add_def)
  ultimately show ?thesis by simp
qed

lemma be_bytes_split: "be_bytes (m + n) v = be_bytes m (v div 256 ^ n) @ be_bytes n v"
proof (induction n arbitrary: v)
  case (Suc n)
  have "be_bytes (m + Suc n) v = be_bytes m (v div 256 div 256 ^ n) @ be_bytes n (v div 256) @ [word_of_nat v]"
    using Suc [of "v div 256"] by simp
  then show ?case by (simp add: div_mult2_eq)
qed simp

lemma be_bytes_mod: "be_bytes n (v mod 256 ^ n) = be_bytes n v"
  by (metis be_bytes_be_val be_val_be_bytes length_be_bytes)

interpretation codec64: cbb_cbs_codec "\<lambda>alloc i v. CBB_add_u64 alloc i v" CBS_get_u64
  "\<lambda>v. be_bytes 8 (unat (v :: u64))" "\<lambda>v. True"
proof unfold_locales
  fix v :: u64
  define hi where "hi = unat (ucast (drop_bit 32 v) :: u32)"
  define lo where "lo = unat (ucast (v AND 0xffffffff) :: u32)"
  have hi_lt: "hi < 256 ^ 4" and lo_lt: "lo < 256 ^ 4"
    by (simp_all add: hi_def lo_def)
  have hi_div: "hi = unat v div 256 ^ 4" and lo_mod: "lo = unat v mod 256 ^ 4"
    using unat_split_u64 [of v] by (simp_all add: hi_def lo_def)
  note hl = hi_lt lo_lt hi_div lo_mod
  have split: "be_bytes 8 (unat v) = be_bytes 4 hi @ be_bytes 4 lo"
    using be_bytes_split [of 4 4 "unat v"] be_bytes_mod [of 4 "unat v"] hl(3,4) by simp
  show "cbb_refines alloc s (abs_add i (be_bytes 8 (unat v)) a) (CBB_add_u64 alloc i v s)"
    if "cbb_rel s a" for alloc s a i
    using cbb_refines_add_add [OF that, of alloc i "be_bytes 4 hi" "CBB_add_u32 alloc i hi"
        "be_bytes 4 lo" "CBB_add_u32 alloc i lo"]
      add_uint_put [of _ _ hi W32] add_uint_put [of _ _ lo W32] hl(1,2)
    by (simp add: CBB_add_u64_def Let_def split flip: hi_def lo_def)
  show "\<exists>c'. CBS_get_u64 c = (Some v, c') \<and> cbs_ok c' \<and> cbs_view c' = rest"
    if "cbs_ok c" "cbs_view c = be_bytes 8 (unat v) @ rest" for c rest
  proof (rule fixed_reader_enc [OF u64.fixed_reader_axioms that])
    have "unat (push_bit 32 (ucast (shift_in (0 :: u32) (be_bytes 4 hi))) OR
        ucast (shift_in (0 :: u32) (be_bytes 4 lo)) :: u64) = hi * 2 ^ 32 + lo"
      using hl(1,2) by (simp add: unat_join_u32 shift_in_be_bytes)
    also have "\<dots> = unat v" using hl(3,4) div_mult_mod_eq [of "unat v" "256 ^ 4"] by simp
    finally show "push_bit 32 (ucast (shift_in (0 :: u32) (take 4 (be_bytes 8 (unat v))))) OR
        ucast (shift_in (0 :: u32) (drop 4 (be_bytes 8 (unat v)))) = v"
      by (simp add: split word_unat_eq_iff)
  qed simp
qed

text \<open>DER INTEGERs.\<close>

lemma der_uint_fits: "be_val (der_uint v) < 2 ^ 64"
  using der_uint(2) [of v] unat_u64_lt [of v] by (simp del: unat_u64_lt)

lemma get_asn1_uint64_complete:
  assumes "cbs_ok c" and "cbs_view c = der_element 2 body @ rest" and "der_unsigned body"
    and "length body < 2 ^ 32" and "be_val body < 2 ^ 64"
  shows "\<exists>c'. CBS_get_asn1_uint64 c = (Some (word_of_nat (be_val body)), c') \<and> cbs_ok c' \<and> cbs_view c' = rest"
proof -
  obtain out c' where g: "CBS_get_asn1 CBS_ASN1_INTEGER c = (Some out, c')" "cbs_view out = body"
    "cbs_view c' = rest" "cbs_ok out" "cbs_ok c'"
    by (rule get_asn1_complete_view [OF assms(1,2) _ assms(4), of CBS_ASN1_INTEGER])
      (simp_all add: CBS_ASN1_INTEGER_def)
  have len: "cbs_len out = length body" using g(2,4) length_cbs_view by metis
  have nth: "cbs_data out ! i = body ! i" if "i < length body" for i
    using cbs_data_nth [of i out] that by (simp add: len g(2))
  have tk: "take (cbs_len out) (cbs_data out) = body" using g(2) by (simp add: cbs_view_def)
  have "asn1_uint64_loop 0 body = Some (word_of_nat (be_val body))"
    using assms(5) by (simp add: asn1_uint64_loop_eq)
  then show ?thesis
    using g(1,3,5) assms(3) tk nth [of 0] nth [of 1] octet_high_bit [of "body ! 1"]
    by (auto simp: CBS_get_asn1_uint64_def CBS_data_def CBS_len_def Let_def len der_unsigned_def octet_simps)
qed

lemma get_asn1_uint64_sound:
  assumes "cbs_ok c" and "CBS_get_asn1_uint64 c = (Some v, c')"
  shows "\<exists>body. cbs_view c = der_element 2 body @ cbs_view c' \<and> der_unsigned body \<and>
    length body < 2 ^ 32 \<and> be_val body = unat v \<and> cbs_ok c'"
proof -
  obtain out where g: "CBS_get_asn1 CBS_ASN1_INTEGER c = (Some out, c')"
    using assms(2) by (auto simp: CBS_get_asn1_uint64_def Let_def split: option.splits prod.splits if_splits)
  obtain t where t: "cbs_view c = der_element t (cbs_view out) @ cbs_view c'" "CBS_ASN1_INTEGER = ucast t"
    "cbs_ok out" "cbs_ok c'" "length (cbs_view out) < 2 ^ 32" by (rule asn1_sound [OF assms(1) g])
  have t2: "t = 2" using t(2) ucast_u8_inj [of t 2] by (simp add: CBS_ASN1_INTEGER_def)
  let ?body = "cbs_view out"
  have len: "cbs_len out = length ?body" using t(3) by (simp add: cbs_simps)
  have nth: "cbs_data out ! i = ?body ! i" if "i < length ?body" for i
    using cbs_data_nth [of i out] that by (simp add: len)
  have tk: "take (cbs_len out) (cbs_data out) = ?body" by (simp add: cbs_view_def)
  have ne: "?body \<noteq> []" and hi: "unat (?body ! 0) < 128"
    and pad: "?body ! 0 = 0 \<and> 1 < length ?body \<longrightarrow> 128 \<le> unat (?body ! 1)"
    and loop: "asn1_uint64_loop 0 ?body = Some v"
    using assms(2) g nth [of 0] nth [of 1] tk
    by (auto simp: CBS_get_asn1_uint64_def CBS_data_def CBS_len_def Let_def len octet_simps split: if_splits)
  have "be_val ?body = unat v"
    using loop by (auto simp: asn1_uint64_loop_eq unat_of_nat split: if_splits)
  then show ?thesis using t t2 ne hi pad by (intro exI [of _ ?body]) (auto simp: der_unsigned_def)
qed

interpretation codec_int: cbb_cbs_codec "\<lambda>alloc i v. CBB_add_asn1_uint64 alloc i v" CBS_get_asn1_uint64
  "\<lambda>v. der_element 2 (der_uint v)" "\<lambda>v. True"
proof unfold_locales
  show "cbb_refines alloc s (abs_add i (der_element 2 (der_uint v)) a) (CBB_add_asn1_uint64 alloc i v s)"
    if "cbb_rel s a" for alloc s a i v using that by (rule CBB_add_asn1_uint64_refines)
  show "\<exists>c'. CBS_get_asn1_uint64 c = (Some v, c') \<and> cbs_ok c' \<and> cbs_view c' = rest"
    if "cbs_ok c" "cbs_view c = der_element 2 (der_uint v) @ rest" for c v rest
    using get_asn1_uint64_complete [OF that der_uint(1) _ der_uint_fits] der_uint(2,3) [of v]
    by (simp add: less_le_trans)
qed

section \<open>Properties of the pair\<close>

text \<open>C38: \<open>CBS_get_asn1_uint64\<close> accepts exactly the shortest DER encodings of the unsigned
  integers below \<open>2 ^ 64\<close>, and returns the integer.\<close>

theorem get_asn1_uint64_iff:
  assumes "cbs_ok c"
  shows "(\<exists>c'. CBS_get_asn1_uint64 c = (Some v, c') \<and> cbs_view c' = rest) \<longleftrightarrow>
    (\<exists>body. cbs_view c = der_element 2 body @ rest \<and> der_unsigned body \<and> length body < 2 ^ 32 \<and>
       be_val body = unat v)"
    (is "?L \<longleftrightarrow> ?R")
proof
  assume ?L
  then obtain c' where r: "CBS_get_asn1_uint64 c = (Some v, c')" "cbs_view c' = rest" by blast
  show ?R using get_asn1_uint64_sound [OF assms r(1)] r(2) by blast
next
  assume ?R
  then obtain body where b: "cbs_view c = der_element 2 body @ rest" "der_unsigned body"
    "length body < 2 ^ 32" "be_val body = unat v" by blast
  have "be_val body < 2 ^ 64" using b(4) by simp
  from get_asn1_uint64_complete [OF assms b(1-3) this] show ?L using b(4) by auto
qed

theorem get_asn1_uint64_iff_witness:
  "\<exists>c'. CBS_get_asn1_uint64 (CBS_init [2, 2, 0, 200] 4) = (Some 200, c') \<and> cbs_view c' = []"
proof -
  have ok: "cbs_ok (CBS_init [2, 2, 0, 200] 4)" by (simp add: CBS_init_def cbs_ok_def)
  show ?thesis
    unfolding get_asn1_uint64_iff [OF ok]
    by (rule exI [of _ "[0, 200]"])
      (simp add: der_element_def der_length_def cbs_view_def CBS_init_def der_unsigned_def)
qed

text \<open>C37: DER INTEGERs round trip: any list of 64-bit values written with
  \<open>CBB_add_asn1_uint64\<close> is read back by \<open>CBS_get_asn1_uint64\<close>, with nothing left over.\<close>

theorem asn1_uint64_round_trip:
  assumes "write_out (\<lambda>alloc i v. CBB_add_asn1_uint64 alloc i v) alloc base_size cap vs = Some (buf, n)"
    and "cap \<le> SIZE_MAX"
  shows "\<exists>c'. get_all CBS_get_asn1_uint64 (length vs) (CBS_init buf n) = (Some vs, c') \<and> cbs_view c' = []"
  using codec_int.write_read [OF assms(1) _ assms(2)] by simp

theorem asn1_uint64_round_trip_witness:
  "\<exists>buf n c'. write_out (\<lambda>alloc i v. CBB_add_asn1_uint64 alloc i v) (\<lambda>n. True) 0 0 [200, 0] = Some (buf, n) \<and>
     get_all CBS_get_asn1_uint64 2 (CBS_init buf n) = (Some [200, 0], c') \<and> cbs_view c' = []"
proof -
  have "length (concat (map (\<lambda>v. der_element 2 (der_uint v)) [200, 0])) \<le> SIZE_MAX"
    by code_simp
  then obtain buf n where w: "write_out (\<lambda>alloc i v. CBB_add_asn1_uint64 alloc i v) (\<lambda>n. True) 0 0 [200, 0] = Some (buf, n)"
    using codec_int.write_total [of "\<lambda>n. True" "[200, 0]" 0 0] by auto
  from asn1_uint64_round_trip [OF this] show ?thesis using w by (auto simp: numeral_2_eq_2)
qed

text \<open>64-bit values written with \<open>CBB_add_u64\<close>, as two 32-bit halves, are read back by
  \<open>CBS_get_u64\<close>; writing them cannot fail while memory lasts.\<close>

theorem u64_round_trip:
  assumes "8 * length vs \<le> SIZE_MAX" and "cap \<le> SIZE_MAX"
  shows "\<exists>buf c'. write_out (\<lambda>alloc i v. CBB_add_u64 alloc i v) (\<lambda>n. True) base_size cap vs
      = Some (buf, 8 * length vs) \<and>
    get_all CBS_get_u64 (length vs) (CBS_init buf (8 * length vs)) = (Some vs, c') \<and> cbs_view c' = []"
proof -
  have len: "length (concat (map (\<lambda>v. be_bytes 8 (unat (v :: u64))) vs)) = 8 * length vs"
    by (induction vs) (simp_all add: length_be_bytes)
  obtain buf where "write_out (\<lambda>alloc i v. CBB_add_u64 alloc i v) (\<lambda>n. True) base_size cap vs
      = Some (buf, 8 * length vs)"
    using codec64.write_total [of "\<lambda>n. True" vs cap base_size] assms len by (auto simp del: be_bytes.simps)
  with codec64.write_read [OF this _ assms(2)] show ?thesis by auto
qed

theorem u64_round_trip_witness:
  "\<exists>buf c'. write_out (\<lambda>alloc i v. CBB_add_u64 alloc i v) (\<lambda>n. True) 0 0 [5] = Some (buf, 8) \<and>
    get_all CBS_get_u64 1 (CBS_init buf 8) = (Some [5], c') \<and> cbs_view c' = []"
  using u64_round_trip [of "[5]" 0 0] by (simp add: SIZE_MAX_def)

end
