(* ===== verification/Bs_ber.thy ===== *)
theory Bs_ber
  imports Bs_codec
begin

unbundle bit_operations_syntax

text \<open>
  \<^verbatim>\<open>crypto/bytestring/bs_ber.c\<close>: rewriting an ASN.1 structure that uses the indefinite length
  form as one that does not.  The walk that looks for an indefinite length and the conversion
  are recursive C functions with a loop in each; both are modelled as they are, the depth limit
  included.  The conversion reads from a \<open>cbs\<close> that a nested call consumes further, so the
  reader is part of its result.
\<close>

definition kMaxDepth :: nat where "kMaxDepth = 2048"

definition cbs_nonstrict_get_any_asn1_element :: "(cbs, cbs \<times> u32 \<times> nat) step" where
  "cbs_nonstrict_get_any_asn1_element c = cbs_get_any_asn1_element_internal False c"

text \<open>The last octet of the header is that of an indefinite length.\<close>

definition is_indefinite :: "cbs \<Rightarrow> nat \<Rightarrow> bool" where
  "is_indefinite contents header_len \<longleftrightarrow>
     CBS_len contents = header_len \<and> 0 < header_len \<and> CBS_data contents ! (header_len - 1) = 0x80"

lemma any_element_len:
  "cbs_get_any_asn1_element_internal strict c = (Some (out, tag, h), c') \<Longrightarrow>
    2 \<le> h \<and> h \<le> cbs_len out \<and> cbs_len out \<le> cbs_len c \<and> cbs_len c' = cbs_len c - cbs_len out"
  by (auto simp: cbs_get_any_asn1_element_internal_def cbs_get_bytes_eq cbs_init_simps cbs_len_drop Let_def
      split: option.splits prod.splits if_splits)

lemma nonstrict_element_len:
  "cbs_nonstrict_get_any_asn1_element c = (Some (out, tag, h), c') \<Longrightarrow>
    2 \<le> h \<and> h \<le> cbs_len out \<and> cbs_len out \<le> cbs_len c \<and> cbs_len c' = cbs_len c - cbs_len out"
  unfolding cbs_nonstrict_get_any_asn1_element_def by (rule any_element_len)

section \<open>Looking for an indefinite length\<close>

text \<open>\<open>None\<close> is the error return, \<open>Some f\<close> is success with \<^verbatim>\<open>*indefinite_found\<close> set to \<open>f\<close>.\<close>

function cbs_find_indefinite :: "cbs \<Rightarrow> nat \<Rightarrow> bool option"
  and find_indefinite_loop :: "cbs \<Rightarrow> nat \<Rightarrow> bool option"
where
  "cbs_find_indefinite orig_in depth =
     (if kMaxDepth < depth then None
      else find_indefinite_loop (CBS_init (CBS_data orig_in) (CBS_len orig_in)) depth)"
| "find_indefinite_loop c depth =
     (if CBS_len c = 0 then Some False
      else (case cbs_nonstrict_get_any_asn1_element c of
              (None, c') \<Rightarrow> None
            | (Some (contents, tag, header_len), c') \<Rightarrow>
                if is_indefinite contents header_len then Some True
                else if tag AND CBS_ASN1_CONSTRUCTED \<noteq> 0 then
                  (case CBS_skip header_len contents of
                     (None, _) \<Rightarrow> None
                   | (Some _, contents) \<Rightarrow>
                       (case cbs_find_indefinite contents (depth + 1) of
                          None \<Rightarrow> None
                        | Some _ \<Rightarrow> find_indefinite_loop c' depth))
                else find_indefinite_loop c' depth))"
  by pat_completeness auto
termination
  by (relation "measure (\<lambda>x. case x of Inl (c, d) \<Rightarrow> 2 * cbs_len c + 1 | Inr (c, d) \<Rightarrow> 2 * cbs_len c)")
    (auto simp: CBS_len_def cbs_init_simps cbs_skip_eq cbs_len_drop split: if_splits
      dest!: nonstrict_element_len [OF sym])

declare cbs_find_indefinite.simps [simp del] find_indefinite_loop.simps [simp del]

section \<open>The conversion\<close>

definition is_primitive_type :: "u32 \<Rightarrow> bool" where
  "is_primitive_type tag \<longleftrightarrow> tag AND 0xc0 = 0 \<and>
     tag AND 0x1f \<noteq> CBS_ASN1_SEQUENCE AND 0x1f \<and> tag AND 0x1f \<noteq> CBS_ASN1_SET AND 0x1f"

definition is_eoc :: "nat \<Rightarrow> cbs \<Rightarrow> bool" where
  "is_eoc header_len contents \<longleftrightarrow> header_len = 2 \<and> CBS_mem_equal contents [0, 0] 2"

text \<open>Whether the children of an indefinite element are fragments to be concatenated: the hack
  for a context-specific tag looks at the first child.  \<open>None\<close> when there is no first child.\<close>

definition squash_children :: "u32 \<Rightarrow> cbs \<Rightarrow> bool option" where
  "squash_children tag c =
     (let squash_child_headers = is_primitive_type tag in
      if tag AND 0xc0 = 0x80 \<and> tag AND CBS_ASN1_CONSTRUCTED \<noteq> 0 then
        (case cbs_nonstrict_get_any_asn1_element (CBS_init (CBS_data c) (CBS_len c)) of
           (None, _) \<Rightarrow> None
         | (Some (inner_contents, inner_tag, inner_header_len), _) \<Rightarrow>
             Some (squash_child_headers \<or>
               (inner_header_len < CBS_len inner_contents \<and> is_primitive_type inner_tag)))
      else Some squash_child_headers)"

text \<open>The builder handle \<open>out\<close> is the depth \<open>i\<close>; \<^verbatim>\<open>out_contents\<close> is \<open>i\<close> itself or its child
  \<open>Suc i\<close>.  The result is the return value, the reader and the builder.\<close>

function cbs_convert_indefinite ::
  "allocator \<Rightarrow> nat \<Rightarrow> bool \<Rightarrow> bool \<Rightarrow> nat \<Rightarrow> cbs \<Rightarrow> cbb \<Rightarrow> bool \<times> cbs \<times> cbb"
  and convert_indefinite_loop ::
  "allocator \<Rightarrow> nat \<Rightarrow> bool \<Rightarrow> bool \<Rightarrow> nat \<Rightarrow> cbs \<Rightarrow> cbb \<Rightarrow> bool \<times> cbs \<times> cbb"
where
  "cbs_convert_indefinite alloc i squash_header looking_for_eoc depth c s =
     (if kMaxDepth < depth then (False, c, s)
      else convert_indefinite_loop alloc i squash_header looking_for_eoc depth c s)"
| "convert_indefinite_loop alloc i squash_header looking_for_eoc depth c s =
     (if CBS_len c = 0 then (\<not> looking_for_eoc, c, s)
      else (case cbs_nonstrict_get_any_asn1_element c of
        (None, c) \<Rightarrow> (False, c, s)
      | (Some (contents, tag, header_len), c) \<Rightarrow>
          if CBS_len contents = header_len \<and> is_eoc header_len contents then (looking_for_eoc, c, s)
          else if is_indefinite contents header_len then
            (case squash_children tag c of
               None \<Rightarrow> (False, c, s)
             | Some squash_child_headers \<Rightarrow>
                 (case (if squash_header then (True, s)
                        else CBB_add_asn1 alloc i
                          (if squash_child_headers then tag AND NOT CBS_ASN1_CONSTRUCTED else tag) s) of
                    (False, s) \<Rightarrow> (False, c, s)
                  | (True, s) \<Rightarrow>
                      (case cbs_convert_indefinite alloc (if squash_header then i else Suc i)
                          squash_child_headers True (depth + 1) c s of
                         (False, c, s) \<Rightarrow> (False, c, s)
                       | (True, c, s) \<Rightarrow>
                           (case (if squash_header then (True, s) else CBB_flush alloc i s) of
                              (False, s) \<Rightarrow> (False, c, s)
                            | (True, s) \<Rightarrow>
                                convert_indefinite_loop alloc i squash_header looking_for_eoc depth c s))))
          else
            (case (if squash_header then (True, s) else CBB_add_asn1 alloc i tag s) of
               (False, s) \<Rightarrow> (False, c, s)
             | (True, s) \<Rightarrow>
                 (case CBS_skip header_len contents of
                    (None, _) \<Rightarrow> (False, c, s)
                  | (Some _, contents) \<Rightarrow>
                      (case (if tag AND CBS_ASN1_CONSTRUCTED \<noteq> 0 then
                               (case cbs_convert_indefinite alloc (if squash_header then i else Suc i)
                                   False False (depth + 1) contents s of
                                  (r, _, s) \<Rightarrow> (r, s))
                             else CBB_add_bytes alloc (if squash_header then i else Suc i)
                                    (CBS_data contents) (CBS_len contents) s) of
                         (False, s) \<Rightarrow> (False, c, s)
                       | (True, s) \<Rightarrow>
                           (case (if squash_header then (True, s) else CBB_flush alloc i s) of
                              (False, s) \<Rightarrow> (False, c, s)
                            | (True, s) \<Rightarrow>
                                convert_indefinite_loop alloc i squash_header looking_for_eoc depth c s))))))"
  by pat_completeness auto

text \<open>The reader a call leaves is never longer than the one it was given: the loop that follows a
  nested conversion ends.  One turn of the loop comes to an element of indefinite or of definite length.\<close>

abbreviation convert_dom :: "allocator \<Rightarrow> nat \<Rightarrow> bool \<Rightarrow> bool \<Rightarrow> nat \<Rightarrow> cbs \<Rightarrow> cbb \<Rightarrow> bool" where
  "convert_dom alloc i sq eoc d c s \<equiv> cbs_convert_indefinite_convert_indefinite_loop_dom (Inr (alloc, i, sq, eoc, d, c, s))"

lemma indefinite_turn_len:
  assumes "convert_dom alloc i sq eoc d c s" and "CBS_len c \<noteq> 0"
    and "cbs_nonstrict_get_any_asn1_element c = (Some (contents, tag, h), c1)"
    and "\<not> (CBS_len contents = h \<and> is_eoc h contents)" and "is_indefinite contents h" and "squash_children tag c1 = Some q"
    and "(if sq then (True, s) else CBB_add_asn1 alloc i (if q then tag AND NOT CBS_ASN1_CONSTRUCTED else tag) s) = (ok, s1)"
    and "cbs_convert_indefinite alloc (if sq then i else Suc i) q True (d + 1) c1 s1 = (ok2, c2, s2)"
    and "(if sq then (True, s2) else CBB_flush alloc i s2) = (ok3, s3)"
    and "ok \<Longrightarrow> cbs_len c2 \<le> cbs_len c1"
    and "ok \<Longrightarrow> ok2 \<Longrightarrow> ok3 \<Longrightarrow> cbs_len (fst (snd (convert_indefinite_loop alloc i sq eoc d c2 s3))) \<le> cbs_len c2"
  shows "cbs_len (fst (snd (convert_indefinite_loop alloc i sq eoc d c s))) \<le> cbs_len c"
  using assms(4-) nonstrict_element_len [OF assms(3)] unfolding convert_indefinite_loop.psimps [OF assms(1)]
  by (cases sq; cases ok; cases ok2; cases ok3) (simp_all add: assms(2,3))

lemma definite_turn_len:
  assumes "convert_dom alloc i sq eoc d c s" and "CBS_len c \<noteq> 0"
    and "cbs_nonstrict_get_any_asn1_element c = (Some (contents, tag, h), c1)"
    and "\<not> (CBS_len contents = h \<and> is_eoc h contents)" and "\<not> is_indefinite contents h"
    and "(if sq then (True, s) else CBB_add_asn1 alloc i tag s) = (ok, s1)" and "CBS_skip h contents = (sk, c2)"
    and "(if tag AND CBS_ASN1_CONSTRUCTED \<noteq> 0 then
        (case cbs_convert_indefinite alloc (if sq then i else Suc i) False False (d + 1) c2 s1 of (r, _, s) \<Rightarrow> (r, s))
        else CBB_add_bytes alloc (if sq then i else Suc i) (CBS_data c2) (CBS_len c2) s1) = (ok2, s2)"
    and "(if sq then (True, s2) else CBB_flush alloc i s2) = (ok3, s3)"
    and "ok \<Longrightarrow> sk = Some () \<Longrightarrow> ok2 \<Longrightarrow> ok3 \<Longrightarrow>
      cbs_len (fst (snd (convert_indefinite_loop alloc i sq eoc d c1 s3))) \<le> cbs_len c1"
  shows "cbs_len (fst (snd (convert_indefinite_loop alloc i sq eoc d c s))) \<le> cbs_len c"
  using assms(4-) nonstrict_element_len [OF assms(3)] unfolding convert_indefinite_loop.psimps [OF assms(1)]
  by (cases sq; cases ok; cases sk; cases ok2; cases ok3) (simp_all add: assms(2,3))

lemma other_turn_len:
  assumes "convert_dom alloc i sq eoc d c s" and "cbs_nonstrict_get_any_asn1_element c = (re, c1)"
    and "\<And>contents tag h. CBS_len c \<noteq> 0 \<Longrightarrow> re = Some (contents, tag, h) \<Longrightarrow> (CBS_len contents = h \<and> is_eoc h contents) \<or>
      (is_indefinite contents h \<and> squash_children tag c1 = None)"
  shows "cbs_len (fst (snd (convert_indefinite_loop alloc i sq eoc d c s))) \<le> cbs_len c"
proof (cases re)
  case None
  have "cbs_len c1 \<le> cbs_len c" using assms(2) unfolding None
    by (auto simp: cbs_nonstrict_get_any_asn1_element_def cbs_get_any_asn1_element_internal_def cbs_get_bytes_eq Let_def
     split: option.splits prod.splits if_splits)
  then show ?thesis using assms(2) None by (simp add: convert_indefinite_loop.psimps [OF assms(1)])
next
  case (Some x)
  obtain contents tag h where x: "x = (contents, tag, h)" by (metis prod_cases3)
  have "cbs_len c1 \<le> cbs_len c" using nonstrict_element_len assms(2) Some x by fastforce
  then show ?thesis using assms(2) assms(3) [of contents tag h] Some x
    by (auto simp: convert_indefinite_loop.psimps [OF assms(1)])
qed

lemma convert_indefinite_len:
  "cbs_convert_indefinite_convert_indefinite_loop_dom (Inl (alloc, i, sq, eoc, d, c, s)) \<Longrightarrow>
    cbs_len (fst (snd (cbs_convert_indefinite alloc i sq eoc d c s))) \<le> cbs_len c"
  "convert_dom alloc i sq eoc d c s \<Longrightarrow>
    cbs_len (fst (snd (convert_indefinite_loop alloc i sq eoc d c s))) \<le> cbs_len c"
proof (induction alloc i sq eoc d c s and alloc i sq eoc d c s rule: cbs_convert_indefinite_convert_indefinite_loop.pinduct)
  case (1 alloc i sq eoc d c s)
  then show ?case by (auto simp: cbs_convert_indefinite.psimps)
next
  case (2 alloc i sq eoc d c s)
  obtain re c1 where el: "cbs_nonstrict_get_any_asn1_element c = (re, c1)" by fastforce
  consider (other) "\<And>contents tag h. CBS_len c \<noteq> 0 \<Longrightarrow> re = Some (contents, tag, h) \<Longrightarrow>
        (CBS_len contents = h \<and> is_eoc h contents) \<or> (is_indefinite contents h \<and> squash_children tag c1 = None)"
    | (indefinite) contents tag h q where "CBS_len c \<noteq> 0" "re = Some (contents, tag, h)"
        "\<not> (CBS_len contents = h \<and> is_eoc h contents)" "is_indefinite contents h" "squash_children tag c1 = Some q"
    | (definite) contents tag h where "CBS_len c \<noteq> 0" "re = Some (contents, tag, h)"
        "\<not> (CBS_len contents = h \<and> is_eoc h contents)" "\<not> is_indefinite contents h"
    by (metis option.exhaust)
  then show ?case
  proof cases
    case other
    then show ?thesis by (rule other_turn_len [OF 2(1) el])
  next
    case indefinite
    note el' = el [unfolded indefinite(2)]
    obtain ok s1 where h: "(if sq then (True, s) else CBB_add_asn1 alloc i (if q then tag AND NOT CBS_ASN1_CONSTRUCTED else tag) s)
        = (ok, s1)" by fastforce
    obtain ok2 c2 s2 where r: "cbs_convert_indefinite alloc (if sq then i else Suc i) q True (d + 1) c1 s1 = (ok2, c2, s2)"
      by (metis prod_cases3)
    obtain ok3 s3 where f: "(if sq then (True, s2) else CBB_flush alloc i s2) = (ok3, s3)" by fastforce
    note IH = 2(2,3) [OF indefinite(1) el' [symmetric] refl refl refl indefinite(3-5) h [symmetric] eqTrueI]
    show ?thesis
      by (rule indefinite_turn_len [OF 2(1) indefinite(1) el' indefinite(3-5) h r f])
        (use IH(1) r in simp, rule IH(2) [OF _ r [symmetric] eqTrueI refl f [symmetric] eqTrueI])
  next
    case definite
    note el' = el [unfolded definite(2)]
    obtain ok s1 where h: "(if sq then (True, s) else CBB_add_asn1 alloc i tag s) = (ok, s1)" by fastforce
    obtain sk c2 where k: "CBS_skip h contents = (sk, c2)" by fastforce
    obtain ok2 s2 where r: "(if tag AND CBS_ASN1_CONSTRUCTED \<noteq> 0 then
        (case cbs_convert_indefinite alloc (if sq then i else Suc i) False False (d + 1) c2 s1 of (r, _, s) \<Rightarrow> (r, s))
        else CBB_add_bytes alloc (if sq then i else Suc i) (CBS_data c2) (CBS_len c2) s1) = (ok2, s2)" by fastforce
    obtain ok3 s3 where f: "(if sq then (True, s2) else CBB_flush alloc i s2) = (ok3, s3)" by fastforce
    note IH = 2(5) [OF definite(1) el' [symmetric] refl refl refl definite(3,4) h [symmetric] eqTrueI k [symmetric] _
        r [symmetric] eqTrueI f [symmetric] eqTrueI]
    show ?thesis by (rule definite_turn_len [OF 2(1) definite(1) el' definite(3,4) h k r f]) (rule IH)
  qed
qed

termination cbs_convert_indefinite
proof (relation "measure (\<lambda>x. case x of Inl (a, i, sq, eoc, d, c, s) \<Rightarrow> 2 * cbs_len c + 1 | Inr (a, i, sq, eoc, d, c, s) \<Rightarrow> 2 * cbs_len c)",
   goal_cases)
  case (4 alloc i sq eoc d c s x y x2 xa ya xb yb x2a xc yaa xd yab xe yc xf yd)
  then have "cbs_nonstrict_get_any_asn1_element c = (Some (xa, xb, yb), y)" by simp
  then have "cbs_len y < cbs_len c" using 4(1) nonstrict_element_len [of c xa xb yb y]
    by (simp add: CBS_len_def)
  moreover have "cbs_len xe \<le> cbs_len y"
    using convert_indefinite_len(1) [OF 4(16)] 4(11,13) by (metis fst_conv snd_conv)
  ultimately show ?case by simp
qed (auto simp: CBS_len_def cbs_init_simps cbs_skip_eq cbs_len_drop split: if_splits
      dest!: nonstrict_element_len [OF sym])

declare cbs_convert_indefinite.simps [simp del] convert_indefinite_loop.simps [simp del]

text \<open>\<open>out0\<close> is what \<^verbatim>\<open>*out\<close> holds before the call.  The result is \<open>None\<close> for the error return,
  \<open>Some None\<close> when \<^verbatim>\<open>*out\<close> is set to \<^verbatim>\<open>NULL\<close> because nothing has to be converted, and otherwise
  the new buffer and its length; with it the reader \<open>in\<close> that the conversion consumes.\<close>

definition CBS_asn1_indefinite_to_definite ::
    "allocator \<Rightarrow> nat \<Rightarrow> bytes option \<Rightarrow> (cbs, (bytes \<times> nat) option) step" where
  "CBS_asn1_indefinite_to_definite alloc base_size out0 c =
     (case cbs_find_indefinite c 0 of
        None \<Rightarrow> (None, c)
      | Some False \<Rightarrow> (Some None, c)
      | Some True \<Rightarrow>
          (case CBB_init alloc base_size (CBS_len c) of
             (False, _) \<Rightarrow> (None, c)
           | (True, cbb) \<Rightarrow>
               (case cbs_convert_indefinite alloc 0 False False 0 c cbb of
                  (False, c, cbb) \<Rightarrow> (None, c)
                | (True, c, cbb) \<Rightarrow>
                    (case CBB_finish alloc 0 (Some out0) True cbb of
                       (None, _) \<Rightarrow> (None, c)
                     | (Some r, _) \<Rightarrow> (Some (Some r), c)))))"

section \<open>What the walk finds\<close>

lemma cbs_view_CBS_init_self: "cbs_ok c \<Longrightarrow> cbs_ok (CBS_init (CBS_data c) (CBS_len c)) \<and>
    cbs_view (CBS_init (CBS_data c) (CBS_len c)) = cbs_view c"
  by (simp add: cbs_ok_def cbs_view_def CBS_init_def CBS_data_def CBS_len_def)

lemma find_indefinite_loop_empty: "cbs_view c = [] \<Longrightarrow> cbs_ok c \<Longrightarrow> find_indefinite_loop c d = Some False"
  using length_cbs_view [of c] by (simp add: find_indefinite_loop.simps CBS_len_def)

lemma is_indefinite_definite: "h < cbs_len c \<Longrightarrow> \<not> is_indefinite c h"
  by (simp add: is_indefinite_def CBS_len_def)

text \<open>The walk over an element of definite length that has a content.\<close>

lemma find_indefinite_definite:
  assumes "cbs_ok c" and "cbs_view c = der_element t body @ rest" and "t AND 0x1f \<noteq> 0x1f"
    and "length body < 2 ^ 32" and "body \<noteq> []"
  obtains contents c' where "cbs_ok contents" and "cbs_view contents = body" and "cbs_ok c'" and "cbs_view c' = rest"
    and "find_indefinite_loop c d =
      (if (ucast t :: u32) AND CBS_ASN1_CONSTRUCTED \<noteq> 0 then
         (case cbs_find_indefinite contents (d + 1) of None \<Rightarrow> None | Some _ \<Rightarrow> find_indefinite_loop c' d)
       else find_indefinite_loop c' d)"
proof -
  let ?n = "length (der_element t body)"
  let ?h = "1 + length (der_length (length body))"
  let ?e = "CBS_init (cbs_data c) ?n"
  have len: "cbs_len c = ?n + length rest"
    using arg_cong [OF assms(2), of length] assms(1) by (simp add: cbs_simps)
  have n: "?n = ?h + length body" by (simp add: der_element_def)
  have ve: "cbs_view ?e = der_element t body"
    using len by (simp add: cbs_simps cbs_data_take assms(2))
  have oke: "cbs_ok ?e" using len assms(1) by (simp add: cbs_ok_def CBS_init_def)
  have el: "cbs_nonstrict_get_any_asn1_element c = (Some (?e, ucast t, ?h), cbs_drop ?n c)"
    using asn1_header_der_length [OF assms(3,4), of False "body @ rest"] assms(1,2) len
    by (simp add: cbs_nonstrict_get_any_asn1_element_def get_any_asn1_element_header der_element_def)
  have le: "?h < cbs_len ?e" using n assms(5) by (simp add: cbs_simps)
  have sk: "CBS_skip ?h ?e = (Some (), cbs_drop ?h ?e)" using le by (simp add: cbs_simps)
  show thesis
  proof (rule that [of "cbs_drop ?h ?e" "cbs_drop ?n c"])
    show "cbs_view (cbs_drop ?h ?e) = body"
      unfolding cbs_view_drop ve by (simp add: der_element_def)
    show "cbs_view (cbs_drop ?n c) = rest" by (simp add: cbs_simps assms(2))
    show "find_indefinite_loop c d = (if (ucast t :: u32) AND CBS_ASN1_CONSTRUCTED \<noteq> 0 then
         (case cbs_find_indefinite (cbs_drop ?h ?e) (d + 1) of None \<Rightarrow> None
          | Some _ \<Rightarrow> find_indefinite_loop (cbs_drop ?n c) d)
       else find_indefinite_loop (cbs_drop ?n c) d)"
      unfolding find_indefinite_loop.simps [of c d] el option.case prod.case sk
      using len n is_indefinite_definite [OF le] by (simp add: CBS_len_def)
  qed (use assms(1) oke in \<open>simp_all add: cbs_ok_drop\<close>)
qed

section \<open>Properties\<close>

text \<open>C40: the walk forgets what it finds below an element of definite length.  Around any content
  the walk can read, whatever indefinite lengths that content has, a definite-length
  constructed element is reported as needing no conversion, so that
  \<open>CBS_asn1_indefinite_to_definite\<close> succeeds without converting it.\<close>

theorem nested_indefinite_missed:
  assumes "cbs_ok c" and "cbs_view c = der_element t body" and "t AND 0x1f \<noteq> 0x1f"
    and "length body < 2 ^ 32" and "body \<noteq> []" and "(ucast t :: u32) AND CBS_ASN1_CONSTRUCTED \<noteq> 0"
    and "\<And>d. cbs_ok d \<Longrightarrow> cbs_view d = body \<Longrightarrow> cbs_find_indefinite d 1 \<noteq> None"
  shows "CBS_asn1_indefinite_to_definite alloc base_size out0 c = (Some None, c)"
proof -
  let ?c = "CBS_init (CBS_data c) (CBS_len c)"
  note i = cbs_view_CBS_init_self [OF assms(1)]
  obtain contents c' where p: "cbs_ok contents" "cbs_view contents = body" "cbs_ok c'" "cbs_view c' = []"
    and f: "find_indefinite_loop ?c 0 =
      (if (ucast t :: u32) AND CBS_ASN1_CONSTRUCTED \<noteq> 0 then
         (case cbs_find_indefinite contents (0 + 1) of None \<Rightarrow> None | Some _ \<Rightarrow> find_indefinite_loop c' 0)
       else find_indefinite_loop c' 0)"
    by (rule find_indefinite_definite [of ?c t body "[]" 0]) (use i assms in auto)
  have "cbs_find_indefinite c 0 = Some False"
    using f assms(6) assms(7) [OF p(1,2)] find_indefinite_loop_empty [OF p(4,3)]
    by (auto simp: cbs_find_indefinite.simps [of c 0] split: option.splits)
  then show ?thesis by (simp add: CBS_asn1_indefinite_to_definite_def)
qed

theorem nested_indefinite_missed_witness:
  "CBS_asn1_indefinite_to_definite (\<lambda>n. True) 0 None (CBS_init [0x30, 4, 0x30, 0x80, 0, 0] 6)
     = (Some None, CBS_init [0x30, 4, 0x30, 0x80, 0, 0] 6)"
proof (rule nested_indefinite_missed [of _ "0x30" "[0x30, 0x80, 0, 0]"])
  fix d :: cbs
  assume d: "cbs_ok d" "cbs_view d = [0x30, 0x80, 0, 0]"
  let ?d = "CBS_init (CBS_data d) (CBS_len d)"
  note i = cbs_view_CBS_init_self [OF d(1)]
  have len: "cbs_len d = 4" using length_cbs_view [OF d(1)] d(2) by simp
  have "asn1_header False [0x30, 0x80, 0, 0] = Some (2, 0x30, 2)" by code_simp
  then have "cbs_nonstrict_get_any_asn1_element ?d = (Some (CBS_init (CBS_data d) 2, 0x30, 2), cbs_drop 2 ?d)"
    using i d(2) len by (simp add: cbs_nonstrict_get_any_asn1_element_def get_any_asn1_element_header
        cbs_init_simps CBS_len_def CBS_data_def)
  moreover have "is_indefinite (CBS_init (CBS_data d) 2) 2"
    using cbs_data_nth [of 1 d] len d(2) by (simp add: is_indefinite_def CBS_len_def CBS_data_def CBS_init_def)
  ultimately have "find_indefinite_loop ?d 1 = Some True"
    unfolding find_indefinite_loop.simps [of ?d 1] using len by (simp add: CBS_len_def cbs_init_simps)
  then show "cbs_find_indefinite d 1 \<noteq> None"
    unfolding cbs_find_indefinite.simps [of d 1] by (simp add: kMaxDepth_def)
qed (simp_all add: cbs_ok_def cbs_view_def CBS_init_def der_element_def der_length_def CBS_ASN1_CONSTRUCTED_def)

text \<open>An indefinite length that no definite one surrounds is converted: the encoding
  \<open>30 80 04 01 07 00 00\<close> becomes \<open>30 03 04 01 07\<close>.\<close>

theorem outer_indefinite_converted:
  "map_option (map_option (\<lambda>(buf, n). take n buf))
     (fst (CBS_asn1_indefinite_to_definite (\<lambda>n. True) 0 None (CBS_init [0x30, 0x80, 4, 1, 7, 0, 0] 7)))
   = Some (Some [0x30, 3, 4, 1, 7])"
  by code_simp

end
