(* ===== verification/Tls_buffer.thy ===== *)
theory Tls_buffer
  imports Bs_cbs
begin

unbundle bit_operations_syntax

text \<open>
  \<^verbatim>\<open>ssl/tls_buffer.c\<close> and \<^verbatim>\<open>ssl/tls_content.c\<close>: the growable byte queue between the TLS stack and
  its callers and the content of a record that is handed out in pieces.

  A read callback is a function of the number of bytes it may deliver and of the state of the
  transport; it gives its return value, the bytes it stored and the new state of the transport.
  \<open>alloc n\<close> says whether an allocation of \<open>n\<close> bytes succeeds.
\<close>

section \<open>Buffers\<close>

definition TLS_IO_SUCCESS :: int where "TLS_IO_SUCCESS = 1"
definition TLS_IO_EOF :: int where "TLS_IO_EOF = 0"
definition TLS_IO_FAILURE :: int where "TLS_IO_FAILURE = -1"
definition TLS_IO_ALERT :: int where "TLS_IO_ALERT = -2"
definition TLS_IO_WANT_POLLIN :: int where "TLS_IO_WANT_POLLIN = -3"
definition TLS_IO_WANT_POLLOUT :: int where "TLS_IO_WANT_POLLOUT = -4"
definition TLS_IO_WANT_RETRY :: int where "TLS_IO_WANT_RETRY = -5"

definition TLS_BUFFER_CAPACITY_LIMIT :: nat where "TLS_BUFFER_CAPACITY_LIMIT = 1024 * 1024"

type_synonym 'w read_cb = "nat \<Rightarrow> 'w \<Rightarrow> int \<times> bytes \<times> 'w"

text \<open>\<open>tb_data\<close> is \<open>None\<close> for the \<^verbatim>\<open>NULL\<close> pointer of an empty buffer.\<close>

record tls_buffer =
  tb_capacity :: nat
  tb_capacity_limit :: nat
  tb_data :: "bytes option"
  tb_len :: nat
  tb_offset :: nat

definition tb_bytes :: "tls_buffer \<Rightarrow> bytes" where
  "tb_bytes b = (case tb_data b of None \<Rightarrow> [] | Some d \<Rightarrow> d)"

text \<open>\<^verbatim>\<open>recallocarray\<close>: the old contents as far as they fit, zeros behind them.\<close>

definition recalloc :: "bytes \<Rightarrow> nat \<Rightarrow> bytes" where
  "recalloc d n = take n d @ replicate (n - length d) 0"

definition tls_buffer_resize :: "(nat \<Rightarrow> bool) \<Rightarrow> nat \<Rightarrow> tls_buffer \<Rightarrow> bool \<times> tls_buffer" where
  "tls_buffer_resize alloc capacity b =
     (if tb_capacity b = capacity then (True, b)
      else if tb_capacity_limit b < capacity then (False, b)
      else if \<not> alloc capacity then (False, b)
      else
        (let b = b\<lparr>tb_data := Some (recalloc (tb_bytes b) capacity), tb_capacity := capacity\<rparr>;
             b = (if tb_capacity b < tb_len b then b\<lparr>tb_len := tb_capacity b\<rparr> else b);
             b = (if tb_len b < tb_offset b then b\<lparr>tb_offset := tb_len b\<rparr> else b)
         in (True, b)))"

definition tls_buffer_grow :: "(nat \<Rightarrow> bool) \<Rightarrow> nat \<Rightarrow> tls_buffer \<Rightarrow> bool \<times> tls_buffer" where
  "tls_buffer_grow alloc capacity b =
     (if capacity \<le> tb_capacity b then (True, b) else tls_buffer_resize alloc capacity b)"

text \<open>\<open>sz\<close> is \<^verbatim>\<open>sizeof(struct tls_buffer)\<close>.\<close>

definition tls_buffer_new :: "(nat \<Rightarrow> bool) \<Rightarrow> nat \<Rightarrow> nat \<Rightarrow> tls_buffer option" where
  "tls_buffer_new alloc sz init_size =
     (if \<not> alloc sz then None
      else
        (let b = \<lparr>tb_capacity = 0, tb_capacity_limit = TLS_BUFFER_CAPACITY_LIMIT, tb_data = None,
                  tb_len = 0, tb_offset = 0\<rparr>
         in case tls_buffer_resize alloc init_size b of
              (False, _) \<Rightarrow> None
            | (True, b) \<Rightarrow> Some b))"

definition tls_buffer_clear :: "tls_buffer \<Rightarrow> tls_buffer" where
  "tls_buffer_clear b = b\<lparr>tb_data := None, tb_capacity := 0, tb_len := 0, tb_offset := 0\<rparr>"

definition tls_buffer_set_capacity_limit :: "nat \<Rightarrow> tls_buffer \<Rightarrow> tls_buffer" where
  "tls_buffer_set_capacity_limit limit b = b\<lparr>tb_capacity_limit := limit\<rparr>"

text \<open>The \<^verbatim>\<open>for (;;)\<close> of \<^verbatim>\<open>tls_buffer_extend\<close>: each turn that goes on has added a byte.\<close>

function extend_loop :: "'w read_cb \<Rightarrow> tls_buffer \<Rightarrow> 'w \<Rightarrow> int \<times> tls_buffer \<times> 'w" where
  "extend_loop read_cb b w =
     (case read_cb (tb_capacity b - tb_len b) w of
        (ret, bs, w) \<Rightarrow>
          (let b = b\<lparr>tb_data := Some (mem_write (tb_bytes b) (tb_len b) bs)\<rparr> in
           if ret \<le> 0 then (ret, b, w)
           else if tb_capacity b - tb_len b < nat ret then (TLS_IO_FAILURE, b, w)
           else
             (let b = b\<lparr>tb_len := tb_len b + nat ret\<rparr> in
              if tb_len b = tb_capacity b then (int (tb_len b), b, w)
              else extend_loop read_cb b w)))"
  by pat_completeness auto
termination
  by (relation "measure (\<lambda>(r, b, w). tb_capacity b - tb_len b)") (auto split: if_splits)

declare extend_loop.simps [simp del]

definition tls_buffer_extend ::
    "(nat \<Rightarrow> bool) \<Rightarrow> nat \<Rightarrow> 'w read_cb \<Rightarrow> tls_buffer \<Rightarrow> 'w \<Rightarrow> int \<times> tls_buffer \<times> 'w" where
  "tls_buffer_extend alloc len read_cb b w =
     (if len = tb_len b then (int (tb_len b), b, w)
      else if len < tb_len b then (TLS_IO_FAILURE, b, w)
      else (case tls_buffer_resize alloc len b of
              (False, b) \<Rightarrow> (TLS_IO_FAILURE, b, w)
            | (True, b) \<Rightarrow> extend_loop read_cb b w))"

definition tls_buffer_remaining :: "tls_buffer \<Rightarrow> nat" where
  "tls_buffer_remaining b = (if tb_len b < tb_offset b then 0 else tb_len b - tb_offset b)"

text \<open>The result of a read is the return value, the bytes copied to \<^verbatim>\<open>rbuf\<close> and the buffer.\<close>

definition tls_buffer_read :: "nat \<Rightarrow> tls_buffer \<Rightarrow> int \<times> bytes \<times> tls_buffer" where
  "tls_buffer_read n b =
     (if tb_len b < tb_offset b then (TLS_IO_FAILURE, [], b)
      else if tb_offset b = tb_len b then (TLS_IO_WANT_POLLIN, [], b)
      else
        (let n = (if tb_len b - tb_offset b < n then tb_len b - tb_offset b else n) in
         (int n, take n (drop (tb_offset b) (tb_bytes b)), b\<lparr>tb_offset := tb_offset b + n\<rparr>)))"

definition tls_buffer_write :: "(nat \<Rightarrow> bool) \<Rightarrow> bytes \<Rightarrow> tls_buffer \<Rightarrow> int \<times> tls_buffer" where
  "tls_buffer_write alloc wbuf b =
     (let n = length wbuf in
      if tb_len b < tb_offset b then (TLS_IO_FAILURE, b)
      else
        (let b = (if tb_offset b = tb_len b then b\<lparr>tb_len := 0, tb_offset := 0\<rparr> else b);
             b = (if 4096 \<le> tb_offset b
                  then b\<lparr>tb_data := Some (mem_write (tb_bytes b) 0
                           (take (tb_len b - tb_offset b) (drop (tb_offset b) (tb_bytes b)))),
                         tb_len := tb_len b - tb_offset b, tb_offset := 0\<rparr>
                  else b)
         in if SIZE_MAX - n < tb_len b then (TLS_IO_FAILURE, b)
            else (case tls_buffer_grow alloc (tb_len b + n) b of
                    (False, b) \<Rightarrow> (TLS_IO_FAILURE, b)
                  | (True, b) \<Rightarrow>
                      (int n, b\<lparr>tb_data := (if wbuf = [] then tb_data b
                                   else Some (mem_write (tb_bytes b) (tb_len b) wbuf)),
                                tb_len := tb_len b + n\<rparr>))))"

definition tls_buffer_append :: "(nat \<Rightarrow> bool) \<Rightarrow> bytes \<Rightarrow> tls_buffer \<Rightarrow> bool \<times> tls_buffer" where
  "tls_buffer_append alloc wbuf b =
     (case tls_buffer_write alloc wbuf b of (r, b) \<Rightarrow> (r = int (length wbuf), b))"

definition tls_buffer_data :: "tls_buffer \<Rightarrow> cbs option" where
  "tls_buffer_data b =
     (case CBS_skip (tb_offset b) (CBS_init (tb_bytes b) (tb_len b)) of
        (None, _) \<Rightarrow> None
      | (Some _, c) \<Rightarrow> Some (CBS_dup c))"

text \<open>\<open>tls_buffer_finish\<close> hands out the array itself and the number of bytes in it.\<close>

definition tls_buffer_finish :: "tls_buffer \<Rightarrow> (bytes option \<times> nat) \<times> tls_buffer" where
  "tls_buffer_finish b = ((tb_data b, tb_len b), tls_buffer_clear b)"

section \<open>Contents\<close>

record tls_content =
  tc_type :: u8
  tc_epoch :: u16
  tc_data :: bytes
  tc_data_len :: nat
  tc_cbs :: cbs

text \<open>\<^verbatim>\<open>memset(content, 0, sizeof(*content))\<close>.\<close>

definition tls_content_zero :: tls_content where
  "tls_content_zero = \<lparr>tc_type = 0, tc_epoch = 0, tc_data = [], tc_data_len = 0, tc_cbs = CBS_init [] 0\<rparr>"

definition tls_content_new :: "(nat \<Rightarrow> bool) \<Rightarrow> nat \<Rightarrow> tls_content option" where
  "tls_content_new alloc sz = (if alloc sz then Some tls_content_zero else None)"

definition tls_content_clear :: "tls_content \<Rightarrow> tls_content" where
  "tls_content_clear c = tls_content_zero"

definition tls_content_equal :: "bytes \<Rightarrow> nat \<Rightarrow> tls_content \<Rightarrow> bool" where
  "tls_content_equal buf n c = CBS_mem_equal (tc_cbs c) buf n"

definition tls_content_remaining :: "tls_content \<Rightarrow> nat" where
  "tls_content_remaining c = CBS_len (tc_cbs c)"

definition tls_content_set_data :: "u8 \<Rightarrow> bytes \<Rightarrow> nat \<Rightarrow> tls_content \<Rightarrow> tls_content" where
  "tls_content_set_data type data data_len c =
     (let c = tls_content_clear c in
      c\<lparr>tc_type := type, tc_data := data, tc_data_len := data_len, tc_cbs := CBS_init data data_len\<rparr>)"

definition tls_content_dup_data ::
    "(nat \<Rightarrow> bool) \<Rightarrow> u8 \<Rightarrow> bytes \<Rightarrow> nat \<Rightarrow> tls_content \<Rightarrow> bool \<times> tls_content" where
  "tls_content_dup_data alloc type data data_len c =
     (if \<not> alloc data_len then (False, c)
      else (True, tls_content_set_data type (take data_len data) data_len c))"

definition tls_content_set_epoch :: "u16 \<Rightarrow> tls_content \<Rightarrow> tls_content" where
  "tls_content_set_epoch epoch c = c\<lparr>tc_epoch := epoch\<rparr>"

definition tls_content_set_bounds :: "nat \<Rightarrow> nat \<Rightarrow> tls_content \<Rightarrow> bool \<times> tls_content" where
  "tls_content_set_bounds offset len c =
     (let content_len = size_add offset len in
      if content_len < len then (False, c)
      else if tc_data_len c < content_len then (False, c)
      else (case CBS_skip offset (CBS_init (tc_data c) content_len) of
              (None, cbs) \<Rightarrow> (False, c\<lparr>tc_cbs := cbs\<rparr>)
            | (Some _, cbs) \<Rightarrow> (True, c\<lparr>tc_cbs := cbs\<rparr>)))"

definition tls_content_read_internal :: "bool \<Rightarrow> nat \<Rightarrow> tls_content \<Rightarrow> int \<times> bytes \<times> tls_content" where
  "tls_content_read_internal peek n c =
     (let n = (if CBS_len (tc_cbs c) < n then CBS_len (tc_cbs c) else n);
          bs = take n (CBS_data (tc_cbs c))
      in if \<not> peek then
           (case CBS_skip n (tc_cbs c) of
              (None, cbs) \<Rightarrow> (-1, bs, c\<lparr>tc_cbs := cbs\<rparr>)
            | (Some _, cbs) \<Rightarrow> (int n, bs, c\<lparr>tc_cbs := cbs\<rparr>))
         else (int n, bs, c))"

definition tls_content_peek :: "nat \<Rightarrow> tls_content \<Rightarrow> int \<times> bytes \<times> tls_content" where
  "tls_content_peek n c = tls_content_read_internal True n c"

definition tls_content_read :: "nat \<Rightarrow> tls_content \<Rightarrow> int \<times> bytes \<times> tls_content" where
  "tls_content_read n c = tls_content_read_internal False n c"

section \<open>Byte sources and byte queues\<close>

text \<open>What a reader of bytes relies on: a positive result is the number of bytes delivered, they
  come off the front of what the source holds, and a source that delivers nothing keeps all.\<close>

locale byte_source =
  fixes invar :: "'w \<Rightarrow> bool" and content :: "'w \<Rightarrow> bytes" and read :: "nat \<Rightarrow> 'w \<Rightarrow> int \<times> bytes \<times> 'w"
  assumes read_invar: "invar w \<Longrightarrow> read n w = (r, bs, w') \<Longrightarrow> invar w'"
    and read_content: "invar w \<Longrightarrow> read n w = (r, bs, w') \<Longrightarrow> content w = bs @ content w'"
    and read_count: "invar w \<Longrightarrow> read n w = (r, bs, w') \<Longrightarrow> length bs \<le> n \<and> length bs = nat r"

text \<open>A source that delivers whenever it holds something.\<close>

locale ready_source = byte_source +
  assumes read_ready: "invar w \<Longrightarrow> 0 < n \<Longrightarrow> content w \<noteq> [] \<Longrightarrow> 0 < fst (read n w)"

text \<open>A source that may keep its reader waiting, but not for ever: \<open>delay w\<close> bounds how often a read can still come back
  with nothing while there is something to deliver.\<close>

locale patient_source = byte_source +
  fixes delay :: "'a \<Rightarrow> nat"
  assumes read_progress: "invar w \<Longrightarrow> 0 < n \<Longrightarrow> content w \<noteq> [] \<Longrightarrow> read n w = (r, bs, w') \<Longrightarrow>
    delay w' \<le> delay w \<and> (0 < r \<or> delay w' < delay w)"

sublocale ready_source \<subseteq> ready: patient_source invar content read "\<lambda>w. 0"
  using read_ready by unfold_locales (metis fst_conv le_refl)

text \<open>What a writer of bytes relies on: a positive result is the number of bytes taken.\<close>

locale byte_sink =
  fixes invar :: "'w \<Rightarrow> bool" and content :: "'w \<Rightarrow> bytes" and put :: "bytes \<Rightarrow> 'w \<Rightarrow> int \<times> 'w"
  assumes sink_invar: "invar w \<Longrightarrow> put bs w = (r, w') \<Longrightarrow> invar w'"
    and sink_count: "invar w \<Longrightarrow> put bs w = (r, w') \<Longrightarrow> nat r \<le> length bs"
    and sink_content: "invar w \<Longrightarrow> put bs w = (r, w') \<Longrightarrow> content w' = content w @ take (nat r) bs"

locale byte_fifo = ready_source invar content read
  for invar :: "'a \<Rightarrow> bool" and content and read +
  fixes put :: "bytes \<Rightarrow> 'a \<Rightarrow> int \<times> 'a"
  assumes put_invar: "invar w \<Longrightarrow> put bs w = (r, w') \<Longrightarrow> invar w'"
    and put_content: "invar w \<Longrightarrow> put bs w = (r, w') \<Longrightarrow>
      content w' = (if 0 \<le> r then content w @ bs else content w)"
    and put_count: "invar w \<Longrightarrow> put bs w = (r, w') \<Longrightarrow> 0 \<le> r \<Longrightarrow> r = int (length bs)"

sublocale byte_fifo \<subseteq> sink: byte_sink invar content put
proof
  fix w w' :: 'a and bs r
  assume a: "invar w" "put bs w = (r, w')"
  show "invar w'" by (rule put_invar [OF a])
  show "nat r \<le> length bs" using put_count [OF a] by (cases "0 \<le> r") auto
  show "content w' = content w @ take (nat r) bs"
    using put_content [OF a] put_count [OF a] by (cases "0 \<le> r") auto
qed

text \<open>A history of writes and reads: the bytes the queue accepted and the bytes it delivered.\<close>

datatype fifo_op = Write bytes | Read nat

fun fifo_run :: "(nat \<Rightarrow> 'w \<Rightarrow> int \<times> bytes \<times> 'w) \<Rightarrow> (bytes \<Rightarrow> 'w \<Rightarrow> int \<times> 'w) \<Rightarrow> fifo_op list \<Rightarrow> 'w
    \<Rightarrow> bytes \<times> bytes \<times> 'w" where
  "fifo_run read put [] w = ([], [], w)"
| "fifo_run read put (Write bs # ops) w =
     (case put bs w of (r, w) \<Rightarrow>
        (case fifo_run read put ops w of (ins, outs, w) \<Rightarrow> ((if 0 \<le> r then bs else []) @ ins, outs, w)))"
| "fifo_run read put (Read n # ops) w =
     (case read n w of (r, bs, w) \<Rightarrow>
        (case fifo_run read put ops w of (ins, outs, w) \<Rightarrow> (ins, bs @ outs, w)))"

context byte_fifo
begin

lemma fifo_run_stream:
  "invar w \<Longrightarrow> fifo_run read put ops w = (ins, outs, w') \<Longrightarrow>
    invar w' \<and> content w @ ins = outs @ content w'"
proof (induction ops arbitrary: w ins outs w')
  case (Cons op ops)
  show ?case
  proof (cases op)
    case (Write bs)
    obtain r w1 where w: "put bs w = (r, w1)" by fastforce
    obtain ins1 outs1 w2 where f: "fifo_run read put ops w1 = (ins1, outs1, w2)" by (metis prod_cases3)
    show ?thesis
      using Cons.IH [OF put_invar [OF Cons.prems(1) w] f] put_content [OF Cons.prems(1) w] Cons.prems(2)
      by (auto simp: Write w f split: if_splits)
  next
    case (Read n)
    obtain r bs w1 where w: "read n w = (r, bs, w1)" by (metis prod_cases3)
    obtain ins1 outs1 w2 where f: "fifo_run read put ops w1 = (ins1, outs1, w2)" by (metis prod_cases3)
    show ?thesis
      using Cons.IH [OF read_invar [OF Cons.prems(1) w] f] read_content [OF Cons.prems(1) w] Cons.prems(2)
      by (auto simp: Read w f)
  qed
qed simp

end

section \<open>The buffer as a queue\<close>

definition tb_ok :: "tls_buffer \<Rightarrow> bool" where
  "tb_ok b \<longleftrightarrow> tb_offset b \<le> tb_len b \<and> tb_len b \<le> tb_capacity b \<and> length (tb_bytes b) = tb_capacity b"

definition tb_content :: "tls_buffer \<Rightarrow> bytes" where
  "tb_content b = drop (tb_offset b) (take (tb_len b) (tb_bytes b))"

lemma length_recalloc [simp]: "length (recalloc d n) = n"
  by (simp add: recalloc_def min_def)

lemma take_recalloc: "k \<le> n \<Longrightarrow> k \<le> length d \<Longrightarrow> take k (recalloc d n) = take k d"
  by (simp add: recalloc_def min_def)

lemma resize_spec:
  assumes "tb_ok b" and "tls_buffer_resize alloc cap b = (ok, b')" and "tb_len b \<le> cap"
  shows "tb_ok b' \<and> tb_len b' = tb_len b \<and> tb_offset b' = tb_offset b \<and>
    take (tb_len b) (tb_bytes b') = take (tb_len b) (tb_bytes b) \<and> (ok \<longrightarrow> tb_capacity b' = cap) \<and>
    tb_capacity_limit b' = tb_capacity_limit b"
  using assms
  by (auto simp: tls_buffer_resize_def tb_ok_def tb_bytes_def take_recalloc Let_def split: if_splits option.splits)

lemma grow_spec:
  assumes "tb_ok b" and "tls_buffer_grow alloc cap b = (ok, b')" and "tb_len b \<le> cap"
  shows "tb_ok b' \<and> tb_len b' = tb_len b \<and> tb_offset b' = tb_offset b \<and>
    take (tb_len b) (tb_bytes b') = take (tb_len b) (tb_bytes b) \<and> (ok \<longrightarrow> cap \<le> tb_capacity b')"
  using assms resize_spec [OF assms(1) _ assms(3), of alloc ok b']
  by (auto simp: tls_buffer_grow_def split: if_splits)

text \<open>The compaction at the head of \<open>tls_buffer_write\<close> does not change the content.\<close>

definition compacted :: "tls_buffer \<Rightarrow> tls_buffer" where
  "compacted b =
     (let b = (if tb_offset b = tb_len b then b\<lparr>tb_len := 0, tb_offset := 0\<rparr> else b) in
      if 4096 \<le> tb_offset b
      then b\<lparr>tb_data := Some (mem_write (tb_bytes b) 0
               (take (tb_len b - tb_offset b) (drop (tb_offset b) (tb_bytes b)))),
             tb_len := tb_len b - tb_offset b, tb_offset := 0\<rparr>
      else b)"

lemma compacted_spec: "tb_ok b \<Longrightarrow> tb_ok (compacted b) \<and> tb_content (compacted b) = tb_content b"
  by (auto simp: compacted_def tb_ok_def tb_content_def tb_bytes_def Let_def mem_write_def drop_take
      split: option.splits)

lemma tb_append:
  assumes "tb_ok b" and "length bs \<le> tb_capacity b - tb_len b"
    and "b' = b\<lparr>tb_data := Some (mem_write (tb_bytes b) (tb_len b) bs), tb_len := tb_len b + length bs\<rparr>"
  shows "tb_ok b' \<and> tb_content b' = tb_content b @ bs"
proof -
  have fits: "tb_len b + length bs \<le> length (tb_bytes b)" using assms(1,2) by (auto simp: tb_ok_def)
  have b': "tb_bytes b' = mem_write (tb_bytes b) (tb_len b) bs" by (simp add: assms(3) tb_bytes_def)
  have "take (tb_len b + length bs) (tb_bytes b') = take (tb_len b) (tb_bytes b) @ bs"
    unfolding b' by (rule take_mem_write [OF fits])
  moreover have "tb_offset b \<le> tb_len b" "tb_len b \<le> length (tb_bytes b)" using assms(1) by (auto simp: tb_ok_def)
  ultimately have "tb_content b' = tb_content b @ bs" by (simp add: tb_content_def) (simp add: assms(3))
  moreover have "tb_ok b'" using assms(1) fits b' by (auto simp: tb_ok_def assms(3))
  ultimately show ?thesis by simp
qed

lemma write_spec:
  assumes "tb_ok b" and "tls_buffer_write alloc bs b = (r, b')"
  shows "tb_ok b' \<and> tb_content b' = (if 0 \<le> r then tb_content b @ bs else tb_content b) \<and>
    (0 \<le> r \<longrightarrow> r = int (length bs))"
proof -
  let ?c = "compacted b"
  note c = compacted_spec [OF assms(1)]
  obtain ok g where g: "tls_buffer_grow alloc (tb_len ?c + length bs) ?c = (ok, g)" by fastforce
  note gs = grow_spec [OF conjunct1 [OF c] g le_add1]
  have cg: "tb_content g = tb_content b" using gs c by (simp add: tb_content_def)
  have le: "tb_offset b \<le> tb_len b" using assms(1) by (simp add: tb_ok_def)
  have eq: "tls_buffer_write alloc bs b =
    (if SIZE_MAX - length bs < tb_len ?c then (TLS_IO_FAILURE, ?c)
     else if \<not> ok then (TLS_IO_FAILURE, g)
     else (int (length bs), g\<lparr>tb_data := (if bs = [] then tb_data g else Some (mem_write (tb_bytes g) (tb_len g) bs)),
                            tb_len := tb_len g + length bs\<rparr>))"
    using le g by (simp add: tls_buffer_write_def compacted_def Let_def split: bool.split)
  define b2 where "b2 = g\<lparr>tb_data := (if bs = [] then tb_data g else Some (mem_write (tb_bytes g) (tb_len g) bs)),
                            tb_len := tb_len g + length bs\<rparr>"
  have "tb_ok b2 \<and> tb_content b2 = tb_content b @ bs" if ok
  proof -
    have le: "length bs \<le> tb_capacity g - tb_len g" using gs that by auto
    have b2: "b2 = (if bs = [] then g else g\<lparr>tb_data := Some (mem_write (tb_bytes g) (tb_len g) bs),
        tb_len := tb_len g + length bs\<rparr>)" by (simp add: b2_def)
    show ?thesis using tb_append [OF _ le refl] gs cg by (simp add: b2)
  qed
  then show ?thesis using assms(2) eq gs c cg
    by (cases ok) (auto simp: TLS_IO_FAILURE_def b2_def split: if_splits)
qed

lemma read_spec:
  assumes "tb_ok b" and "tls_buffer_read n b = (r, bs, b')"
  shows "tb_ok b' \<and> tb_content b = bs @ tb_content b' \<and> length bs \<le> n \<and> length bs = nat r \<and>
    (0 < n \<longrightarrow> tb_content b \<noteq> [] \<longrightarrow> 0 < r)"
proof (cases "tb_offset b = tb_len b")
  case True
  then show ?thesis using assms by (auto simp: tls_buffer_read_def tb_content_def TLS_IO_WANT_POLLIN_def)
next
  case False
  define m where "m = (if tb_len b - tb_offset b < n then tb_len b - tb_offset b else n)"
  have lt: "tb_offset b < tb_len b" "tb_len b \<le> length (tb_bytes b)" using False assms(1) by (auto simp: tb_ok_def)
  have r: "r = int m" "bs = take m (drop (tb_offset b) (tb_bytes b))" "b' = b\<lparr>tb_offset := tb_offset b + m\<rparr>"
    using assms(2) lt by (auto simp: tls_buffer_read_def m_def Let_def split: if_splits)
  have m: "m \<le> tb_len b - tb_offset b" "m \<le> n" "0 < n \<longrightarrow> 0 < m" using lt by (auto simp: m_def)
  have "tb_content b = take m (tb_content b) @ drop m (tb_content b)" by simp
  moreover have "take m (tb_content b) = bs" using m lt by (simp add: tb_content_def r drop_take min_def)
  moreover have "drop m (tb_content b) = tb_content b'"
    by (simp add: tb_content_def r tb_bytes_def add.commute)
  moreover have "tb_ok b'" using assms(1) m lt by (auto simp: tb_ok_def r tb_bytes_def)
  moreover have "length bs = m"
  proof -
    have "m \<le> length (tb_bytes b) - tb_offset b" using m lt by linarith
    then show ?thesis by (simp add: r)
  qed
  ultimately show ?thesis using m(2,3) r(1) by auto
qed

interpretation tbq: byte_fifo tb_ok tb_content tls_buffer_read "tls_buffer_write alloc" for alloc
proof unfold_locales
  show "0 < fst (tls_buffer_read n w)" if "tb_ok w" "0 < n" "tb_content w \<noteq> []" for w n
    using read_spec [OF that(1), of n] that(2,3) by (cases "tls_buffer_read n w") auto
qed (use read_spec write_spec in \<open>blast+\<close>)

section \<open>The content of a record as a source\<close>

definition tc_ok :: "tls_content \<Rightarrow> bool" where
  "tc_ok c \<longleftrightarrow> cbs_ok (tc_cbs c)"

definition tc_content :: "tls_content \<Rightarrow> bytes" where
  "tc_content c = cbs_view (tc_cbs c)"

lemma content_read_spec:
  assumes "tc_ok c" and "tls_content_read n c = (r, bs, c')"
  shows "tc_ok c' \<and> tc_content c = bs @ tc_content c' \<and> length bs \<le> n \<and> length bs = nat r \<and>
    (0 < n \<longrightarrow> tc_content c \<noteq> [] \<longrightarrow> 0 < r)"
proof -
  obtain m where m_eq: "(if cbs_len (tc_cbs c) < n then cbs_len (tc_cbs c) else n) = m" by blast
  then have m_def: "m = (if cbs_len (tc_cbs c) < n then cbs_len (tc_cbs c) else n)" by simp
  have ok: "cbs_ok (tc_cbs c)" using assms(1) by (simp add: tc_ok_def)
  have m: "m \<le> cbs_len (tc_cbs c)" "m \<le> n" by (auto simp: m_def)
  have r: "r = int m" "bs = take m (cbs_view (tc_cbs c))" "c' = c\<lparr>tc_cbs := cbs_drop m (tc_cbs c)\<rparr>"
    using assms(2) m m_eq cbs_data_take [of m "tc_cbs c"]
    by (auto simp: tls_content_read_def tls_content_read_internal_def CBS_len_def CBS_data_def cbs_skip_eq Let_def split: if_splits)
  have len: "length (cbs_view (tc_cbs c)) = cbs_len (tc_cbs c)" using ok by (rule length_cbs_view)
  show ?thesis using m r len ok
    by (auto simp: tc_ok_def tc_content_def cbs_view_drop cbs_ok_drop m_def min_def simp flip: length_greater_0_conv)
qed

interpretation tc: ready_source tc_ok tc_content tls_content_read
proof unfold_locales
  show "0 < fst (tls_content_read n w)" if "tc_ok w" "0 < n" "tc_content w \<noteq> []" for w n
    using content_read_spec [OF that(1), of n] that(2,3) by (cases "tls_content_read n w") auto
qed (use content_read_spec in \<open>blast+\<close>)

section \<open>Filling the buffer from a source\<close>

text \<open>However the source splits its bytes, \<open>tls_buffer_extend\<close> loses none: what the buffer holds
  and what is still to come is the same before and after, and a positive result means that the
  buffer holds exactly the bytes asked for.\<close>

context byte_source
begin

lemma extend_loop_spec:
  "tb_ok b \<Longrightarrow> invar w \<Longrightarrow> extend_loop read b w = (r, b', w') \<Longrightarrow>
    tb_ok b' \<and> tb_offset b' = tb_offset b \<and> invar w' \<and> tb_content b @ content w = tb_content b' @ content w' \<and>
    tb_len b \<le> tb_len b' \<and> tb_capacity b' = tb_capacity b \<and> tb_capacity_limit b' = tb_capacity_limit b \<and>
    (0 < r \<longrightarrow> tb_len b' = tb_capacity b \<and> r = int (tb_capacity b))"
proof (induction "tb_capacity b - tb_len b" arbitrary: b w rule: less_induct)
  case less
  obtain ret bs w1 where rd: "read (tb_capacity b - tb_len b) w = (ret, bs, w1)" by (metis prod_cases3)
  note cnt = read_count [OF less.prems(2) rd] and inv1 = read_invar [OF less.prems(2) rd]
    and con = read_content [OF less.prems(2) rd]
  define b1 where "b1 = b\<lparr>tb_data := Some (mem_write (tb_bytes b) (tb_len b) bs), tb_len := tb_len b + length bs\<rparr>"
  have b1: "tb_ok b1 \<and> tb_content b1 = tb_content b @ bs"
    by (rule tb_append [OF less.prems(1) _ b1_def]) (use cnt in simp)
  show ?case
  proof (cases "ret \<le> 0")
    case True
    then have "bs = []" using cnt by simp
    then have "r = ret \<and> b' = b1 \<and> w' = w1"
      using less.prems(3) True rd by (auto simp: extend_loop.simps [of read b w] b1_def)
    then show ?thesis using True b1 con inv1 by (simp add: b1_def \<open>bs = []\<close>)
  next
    case False
    then have pos: "0 < length bs" "nat ret = length bs" "length bs \<le> tb_capacity b - tb_len b"
      using cnt by linarith+
    have eq: "extend_loop read b w =
        (if tb_len b1 = tb_capacity b1 then (int (tb_len b1), b1, w1) else extend_loop read b1 w1)"
      using False pos rd by (simp add: extend_loop.simps [of read b w] b1_def Let_def)
    show ?thesis
    proof (cases "tb_len b1 = tb_capacity b1")
      case True
      then show ?thesis using less.prems(3) eq b1 con inv1 by (auto simp: b1_def)
    next
      case False
      have "tb_capacity b1 - tb_len b1 < tb_capacity b - tb_len b"
        using pos(1,3) by (simp add: b1_def del: length_greater_0_conv)
      from less.hyps [OF this conjunct1 [OF b1] inv1] show ?thesis
        using less.prems(3) eq False b1 con by (auto simp: b1_def)
    qed
  qed
qed

lemma extend_spec:
  assumes "tb_ok b" and "invar w" and "tls_buffer_extend alloc n read b w = (r, b', w')"
  shows "tb_ok b' \<and> tb_offset b' = tb_offset b \<and> invar w' \<and> tb_content b @ content w = tb_content b' @ content w' \<and>
    tb_len b \<le> tb_len b' \<and> tb_capacity_limit b' = tb_capacity_limit b \<and>
    (0 < r \<longrightarrow> tb_len b' = n \<and> r = int n)"
proof (cases "tb_len b < n")
  case True
  obtain ok b1 where rs: "tls_buffer_resize alloc n b = (ok, b1)" by fastforce
  note sp = resize_spec [OF assms(1) rs less_imp_le [OF True]]
  have con: "tb_content b1 = tb_content b" using sp by (simp add: tb_content_def)
  show ?thesis
  proof (cases ok)
    case ok: True
    have "extend_loop read b1 w = (r, b', w')"
      using assms(3) True rs ok by (simp add: tls_buffer_extend_def)
    from extend_loop_spec [OF _ assms(2) this] show ?thesis using sp con ok by auto
  next
    case False
    then show ?thesis using assms(2,3) True rs sp con by (auto simp: tls_buffer_extend_def TLS_IO_FAILURE_def)
  qed
next
  case False
  then show ?thesis using assms by (auto simp: tls_buffer_extend_def TLS_IO_FAILURE_def split: if_splits)
qed

end

context patient_source
begin

text \<open>A source that holds enough fills the buffer, or its delay has become smaller.\<close>

lemma extend_loop_progress:
  "tb_ok b \<Longrightarrow> invar w \<Longrightarrow> tb_len b < tb_capacity b \<Longrightarrow> tb_capacity b - tb_len b \<le> length (content w) \<Longrightarrow>
    extend_loop read b w = (r, b', w') \<Longrightarrow> delay w' \<le> delay w \<and> (0 < r \<or> delay w' < delay w)"
proof (induction "tb_capacity b - tb_len b" arbitrary: b w rule: less_induct)
  case less
  obtain ret bs w1 where rd: "read (tb_capacity b - tb_len b) w = (ret, bs, w1)" by (metis prod_cases3)
  note cnt = read_count [OF less.prems(2) rd] and inv1 = read_invar [OF less.prems(2) rd]
    and con = read_content [OF less.prems(2) rd]
  have ne: "content w \<noteq> []" using less.prems(3,4) by auto
  have prog: "delay w1 \<le> delay w" "0 < ret \<or> delay w1 < delay w"
    using read_progress [OF less.prems(2) _ ne rd] less.prems(3) by simp_all
  define b1 where "b1 = b\<lparr>tb_data := Some (mem_write (tb_bytes b) (tb_len b) bs), tb_len := tb_len b + length bs\<rparr>"
  show ?case
  proof (cases "0 < ret")
    case False
    then show ?thesis using prog less.prems(5) rd by (auto simp: extend_loop.simps [of read b w] Let_def)
  next
    case True
    then have pos: "0 < length bs" "nat ret = length bs" "length bs \<le> tb_capacity b - tb_len b" using cnt by auto
    have b1: "tb_ok b1 \<and> tb_content b1 = tb_content b @ bs" by (rule tb_append [OF less.prems(1) pos(3) b1_def])
    have "extend_loop read b w = (if tb_len b1 = tb_capacity b1 then (int (tb_len b1), b1, w1) else extend_loop read b1 w1)"
      using True pos rd by (simp add: extend_loop.simps [of read b w] b1_def Let_def)
    note eq = this [unfolded less.prems(5)]
    show ?thesis
    proof (cases "tb_len b1 = tb_capacity b1")
      case True
      then show ?thesis using eq less.prems(3) prog by (simp add: b1_def)
    next
      case False
      have "tb_capacity b1 - tb_len b1 < tb_capacity b - tb_len b"
        using pos(1,3) by (simp add: b1_def del: length_greater_0_conv)
      moreover have "tb_len b1 < tb_capacity b1" using False b1 by (simp add: tb_ok_def)
      moreover have "tb_capacity b1 - tb_len b1 \<le> length (content w1)" using less.prems(4) con by (simp add: b1_def)
      ultimately show ?thesis using less.hyps [of b1 w1] b1 inv1 eq False prog(1) by fastforce
    qed
  qed
qed

lemma extend_progress:
  assumes "tb_ok b" and "invar w" and "tb_len b \<le> n" and "0 < n" and "n - tb_len b \<le> length (content w)"
    and "n \<le> tb_capacity_limit b" and "alloc n" and "tls_buffer_extend alloc n read b w = (r, b', w')"
  shows "delay w' \<le> delay w \<and> (0 < r \<or> delay w' < delay w) \<and> tb_len b' \<le> n"
proof (cases "tb_len b = n")
  case False
  obtain ok b1 where rs: "tls_buffer_resize alloc n b = (ok, b1)" by fastforce
  note sp = resize_spec [OF assms(1) rs assms(3)]
  have ok: ok using rs assms(6,7) by (auto simp: tls_buffer_resize_def Let_def split: if_splits)
  then have l: "extend_loop read b1 w = (r, b', w')"
    using assms(3,8) False rs by (simp add: tls_buffer_extend_def)
  have "delay w' \<le> delay w \<and> (0 < r \<or> delay w' < delay w)"
    using sp ok assms False by (intro extend_loop_progress [OF _ _ _ _ l]) auto
  moreover have "tb_len b' \<le> n" using extend_loop_spec [OF _ assms(2) l] sp ok by (simp add: tb_ok_def)
  ultimately show ?thesis by blast
qed (use assms in \<open>auto simp: tls_buffer_extend_def\<close>)

end

context ready_source
begin

lemma extend_ready:
  assumes "tb_ok b" and "invar w" and "tb_len b \<le> n" and "0 < n" and "n - tb_len b \<le> length (content w)"
    and "n \<le> tb_capacity_limit b" and "alloc n"
  shows "0 < fst (tls_buffer_extend alloc n read b w)"
proof -
  obtain r b' w' where e: "tls_buffer_extend alloc n read b w = (r, b', w')" by (metis prod_cases3)
  have "0 < r" using ready.extend_progress [OF assms(1-6), of alloc, OF assms(7) e] by simp
  then show ?thesis by (simp add: e)
qed

end

section \<open>Properties\<close>

lemma tls_buffer_new_ok:
  assumes "tls_buffer_new alloc sz init = Some b"
  shows "tb_ok b \<and> tb_content b = [] \<and> tb_len b = 0 \<and> tb_offset b = 0 \<and>
    tb_capacity_limit b = TLS_BUFFER_CAPACITY_LIMIT"
proof -
  let ?b = "\<lparr>tb_capacity = 0, tb_capacity_limit = TLS_BUFFER_CAPACITY_LIMIT, tb_data = None, tb_len = 0, tb_offset = 0\<rparr>"
  obtain ok b1 where rs: "tls_buffer_resize alloc init ?b = (ok, b1)" by fastforce
  have "tb_ok ?b" by (simp add: tb_ok_def tb_bytes_def)
  from resize_spec [OF this rs] have "tb_ok b1 \<and> tb_len b1 = 0 \<and> tb_offset b1 = 0 \<and>
      tb_capacity_limit b1 = TLS_BUFFER_CAPACITY_LIMIT" by simp
  moreover have "b = b1" using assms rs by (cases ok) (auto simp: tls_buffer_new_def Let_def split: if_splits)
  ultimately show ?thesis by (simp add: tb_content_def)
qed

text \<open>C28: the buffer is a byte stream.  In any history of writes and reads on a new buffer, with
  growing, compaction and failing allocations, the bytes the accepted writes put in are the
  bytes that came out, in order, followed by what is still in the buffer.\<close>

theorem tls_buffer_stream:
  assumes "tls_buffer_new alloc sz init = Some b"
    and "fifo_run tls_buffer_read (tls_buffer_write alloc) ops b = (ins, outs, b')"
  shows "ins = outs @ tb_content b' \<and> tls_buffer_remaining b' = length ins - length outs"
proof -
  have s: "tb_ok b' \<and> tb_content b @ ins = outs @ tb_content b'"
    using tbq.fifo_run_stream [OF _ assms(2)] tls_buffer_new_ok [OF assms(1)] by simp
  then have e: "ins = outs @ tb_content b'" using tls_buffer_new_ok [OF assms(1)] by simp
  have "length (tb_content b') = tls_buffer_remaining b'"
    using s by (auto simp: tb_content_def tls_buffer_remaining_def tb_ok_def min_def)
  then show ?thesis using e by simp
qed

theorem tls_buffer_stream_witness:
  "\<exists>b ins outs b'. tls_buffer_new (\<lambda>n. True) 40 2 = Some b \<and>
     fifo_run tls_buffer_read (tls_buffer_write (\<lambda>n. True)) [Write [1, 2, 3], Read 2, Write [4], Read 5] b
       = (ins, outs, b') \<and> ins = outs @ tb_content b' \<and> outs = [1, 2, 3, 4]"
proof -
  obtain b where b: "tls_buffer_new (\<lambda>n. True) 40 2 = Some b"
    by (simp add: tls_buffer_new_def tls_buffer_resize_def TLS_BUFFER_CAPACITY_LIMIT_def Let_def)
  obtain ins outs b' where f: "fifo_run tls_buffer_read (tls_buffer_write (\<lambda>n. True))
      [Write [1, 2, 3], Read 2, Write [4], Read 5] b = (ins, outs, b')" by (metis prod_cases3)
  have "map_option (\<lambda>b. fst (snd (fifo_run tls_buffer_read (tls_buffer_write (\<lambda>n. True))
      [Write [1, 2, 3], Read 2, Write [4], Read 5] b))) (tls_buffer_new (\<lambda>n. True) 40 2) = Some [1, 2, 3, 4]"
    by code_simp
  then have "outs = [1, 2, 3, 4]" using b f by simp
  then show ?thesis using tls_buffer_stream [OF b f] b f by blast
qed

end
