(* ===== verification/Tls13_record.thy ===== *)
theory Tls13_record
  imports Tls_buffer Bs_cbb
begin

unbundle bit_operations_syntax

text \<open>
  \<^verbatim>\<open>ssl/tls13_record.c\<close> and \<^verbatim>\<open>ssl/tls13_handshake_msg.c\<close>: TLSv1.3 records and handshake
  messages, read from and written to a transport that may stop at any byte.  Both keep what
  they have read so far in a \<open>tls_buffer\<close>, so that the caller can call again later.

  The transport is the pair of callbacks and its state: \<open>wire_read\<close> of type \<open>'w read_cb\<close> and
  \<open>wire_write\<close>, which is given the bytes that are left and returns how many it took.  For a
  handshake message they are \<^verbatim>\<open>tls13_read_handshake_data\<close> and \<^verbatim>\<open>tls13_write_handshake_data\<close> of
  the record layer.
\<close>

definition TLS13_IO_SUCCESS :: int where "TLS13_IO_SUCCESS = 1"
definition TLS13_IO_EOF :: int where "TLS13_IO_EOF = 0"
definition TLS13_IO_FAILURE :: int where "TLS13_IO_FAILURE = -1"
definition TLS13_IO_ALERT :: int where "TLS13_IO_ALERT = -2"
definition TLS13_IO_WANT_POLLIN :: int where "TLS13_IO_WANT_POLLIN = -3"
definition TLS13_IO_WANT_POLLOUT :: int where "TLS13_IO_WANT_POLLOUT = -4"
definition TLS13_IO_WANT_RETRY :: int where "TLS13_IO_WANT_RETRY = -5"
definition TLS13_IO_USE_LEGACY :: int where "TLS13_IO_USE_LEGACY = -6"
definition TLS13_IO_RECORD_VERSION :: int where "TLS13_IO_RECORD_VERSION = -7"
definition TLS13_IO_RECORD_OVERFLOW :: int where "TLS13_IO_RECORD_OVERFLOW = -8"

definition TLS13_RECORD_HEADER_LEN :: nat where "TLS13_RECORD_HEADER_LEN = 5"
definition TLS13_RECORD_MAX_CIPHERTEXT_LEN :: nat where "TLS13_RECORD_MAX_CIPHERTEXT_LEN = 16384 + 1 + 255"
definition TLS13_RECORD_MAX_LEN :: nat where
  "TLS13_RECORD_MAX_LEN = TLS13_RECORD_HEADER_LEN + TLS13_RECORD_MAX_CIPHERTEXT_LEN"
definition SSL3_VERSION_MAJOR :: u16 where "SSL3_VERSION_MAJOR = 3"

type_synonym 'w write_cb = "bytes \<Rightarrow> 'w \<Rightarrow> int \<times> 'w"

section \<open>Records\<close>

record tls13_record =
  rec_version :: u16
  rec_content_type :: u8
  rec_len :: nat
  rec_data :: "bytes option"
  rec_data_len :: nat
  rec_cbs :: cbs
  rec_buf :: tls_buffer

definition data_bytes :: "bytes option \<Rightarrow> bytes" where
  "data_bytes d = (case d of None \<Rightarrow> [] | Some bs \<Rightarrow> bs)"

definition tls13_record_new :: "(nat \<Rightarrow> bool) \<Rightarrow> nat \<Rightarrow> nat \<Rightarrow> tls13_record option" where
  "tls13_record_new alloc rec_size buf_size =
     (if \<not> alloc rec_size then None
      else (case tls_buffer_new alloc buf_size TLS13_RECORD_MAX_LEN of
              None \<Rightarrow> None
            | Some b \<Rightarrow> Some \<lparr>rec_version = 0, rec_content_type = 0, rec_len = 0, rec_data = None,
                rec_data_len = 0, rec_cbs = CBS_init [] 0, rec_buf = b\<rparr>))"

definition tls13_record_data :: "tls13_record \<Rightarrow> cbs" where
  "tls13_record_data r = CBS_init (data_bytes (rec_data r)) (rec_data_len r)"

definition tls13_record_header :: "tls13_record \<Rightarrow> cbs option" where
  "tls13_record_header r =
     (if rec_data_len r < TLS13_RECORD_HEADER_LEN then None
      else Some (CBS_init (data_bytes (rec_data r)) TLS13_RECORD_HEADER_LEN))"

definition tls13_record_content :: "tls13_record \<Rightarrow> cbs option" where
  "tls13_record_content r =
     (case CBS_skip TLS13_RECORD_HEADER_LEN (tls13_record_data r) of
        (None, _) \<Rightarrow> None
      | (Some _, content) \<Rightarrow> Some (CBS_dup content))"

definition tls13_record_set_data :: "bytes option \<Rightarrow> nat \<Rightarrow> tls13_record \<Rightarrow> bool \<times> tls13_record" where
  "tls13_record_set_data data data_len r =
     (if TLS13_RECORD_MAX_LEN < data_len then (False, r)
      else (True, r\<lparr>rec_data := data, rec_data_len := data_len, rec_cbs := CBS_init (data_bytes data) data_len\<rparr>))"

text \<open>The second half of \<^verbatim>\<open>tls13_record_recv\<close>: the header is known, read the rest.\<close>

definition record_recv_body ::
    "(nat \<Rightarrow> bool) \<Rightarrow> 'w read_cb \<Rightarrow> tls13_record \<Rightarrow> 'w \<Rightarrow> int \<times> tls13_record \<times> 'w" where
  "record_recv_body alloc wire_read r w =
     (case tls_buffer_extend alloc (TLS13_RECORD_HEADER_LEN + rec_len r) wire_read (rec_buf r) w of
        (ret, b, w) \<Rightarrow>
          (let r = r\<lparr>rec_buf := b\<rparr> in
           if ret \<le> 0 then (ret, r, w)
           else (case tls_buffer_finish b of
                   ((data, data_len), b) \<Rightarrow>
                     (int data_len, r\<lparr>rec_data := data, rec_data_len := data_len, rec_buf := b\<rparr>, w))))"

definition tls13_record_recv ::
    "(nat \<Rightarrow> bool) \<Rightarrow> 'w read_cb \<Rightarrow> tls13_record \<Rightarrow> 'w \<Rightarrow> int \<times> tls13_record \<times> 'w" where
  "tls13_record_recv alloc wire_read r w =
     (if rec_data r \<noteq> None then (TLS13_IO_FAILURE, r, w)
      else if rec_content_type r = 0 then
        (case tls_buffer_extend alloc TLS13_RECORD_HEADER_LEN wire_read (rec_buf r) w of
           (ret, b, w) \<Rightarrow>
             (let r = r\<lparr>rec_buf := b\<rparr> in
              if ret \<le> 0 then (ret, r, w)
              else (case tls_buffer_data b of
                      None \<Rightarrow> (TLS13_IO_FAILURE, r, w)
                    | Some cbs \<Rightarrow>
              (case CBS_get_u8 cbs of
                 (None, cbs) \<Rightarrow> (TLS13_IO_FAILURE, r, w)
               | (Some content_type, cbs) \<Rightarrow>
              (case CBS_get_u16 cbs of
                 (None, cbs) \<Rightarrow> (TLS13_IO_FAILURE, r, w)
               | (Some version, cbs) \<Rightarrow>
              (case CBS_get_u16 cbs of
                 (None, cbs) \<Rightarrow> (TLS13_IO_FAILURE, r, w)
               | (Some len, cbs) \<Rightarrow>
                   if drop_bit 8 version \<noteq> SSL3_VERSION_MAJOR then (TLS13_IO_RECORD_VERSION, r, w)
                   else if TLS13_RECORD_MAX_CIPHERTEXT_LEN < unat len then (TLS13_IO_RECORD_OVERFLOW, r, w)
                   else record_recv_body alloc wire_read
                          (r\<lparr>rec_content_type := content_type, rec_version := version, rec_len := unat len\<rparr>) w))))))
      else record_recv_body alloc wire_read r w)"

text \<open>The loop both \<^verbatim>\<open>send\<close> functions have: write until the \<^verbatim>\<open>CBS\<close> is empty.  The result is
  \<open>None\<close> when everything is written, otherwise the value to return.\<close>

function send_loop :: "'w write_cb \<Rightarrow> cbs \<Rightarrow> 'w \<Rightarrow> int option \<times> cbs \<times> 'w" where
  "send_loop wire_write c w =
     (if CBS_len c = 0 then (None, c, w)
      else (case wire_write (take (CBS_len c) (CBS_data c)) w of
              (ret, w) \<Rightarrow>
                if ret \<le> 0 then (Some ret, c, w)
                else (case CBS_skip (nat ret) c of
                        (None, c) \<Rightarrow> (Some TLS13_IO_FAILURE, c, w)
                      | (Some _, c) \<Rightarrow> send_loop wire_write c w)))"
  by pat_completeness auto
termination
  by (relation "measure (\<lambda>(f, c, w). cbs_len c)") (auto simp: CBS_len_def cbs_skip_eq cbs_len_drop split: if_splits)

declare send_loop.simps [simp del]

definition tls13_record_send :: "'w write_cb \<Rightarrow> tls13_record \<Rightarrow> 'w \<Rightarrow> int \<times> tls13_record \<times> 'w" where
  "tls13_record_send wire_write r w =
     (if rec_data r = None then (TLS13_IO_FAILURE, r, w)
      else (case send_loop wire_write (rec_cbs r) w of
              (Some ret, c, w) \<Rightarrow> (ret, r\<lparr>rec_cbs := c\<rparr>, w)
            | (None, c, w) \<Rightarrow> (int (rec_data_len r), r\<lparr>rec_cbs := c\<rparr>, w)))"

section \<open>Handshake messages\<close>

definition TLS13_HANDSHAKE_MSG_HEADER_LEN :: nat where "TLS13_HANDSHAKE_MSG_HEADER_LEN = 4"
definition TLS13_HANDSHAKE_MSG_INITIAL_LEN :: nat where "TLS13_HANDSHAKE_MSG_INITIAL_LEN = 256"
definition TLS13_HANDSHAKE_MSG_MAX_LEN :: nat where "TLS13_HANDSHAKE_MSG_MAX_LEN = 256 * 1024"

record tls13_handshake_msg =
  msg_type :: u8
  msg_len :: nat
  msg_data :: "bytes option"
  msg_data_len :: nat
  msg_buf :: tls_buffer
  msg_cbs :: cbs
  msg_cbb :: cbb

definition tls13_handshake_msg_new :: "(nat \<Rightarrow> bool) \<Rightarrow> nat \<Rightarrow> nat \<Rightarrow> tls13_handshake_msg option" where
  "tls13_handshake_msg_new alloc msg_size buf_size =
     (if \<not> alloc msg_size then None
      else (case tls_buffer_new alloc buf_size 0 of
              None \<Rightarrow> None
            | Some b \<Rightarrow> Some \<lparr>msg_type = 0, msg_len = 0, msg_data = None, msg_data_len = 0, msg_buf = b,
                msg_cbs = CBS_init [] 0, msg_cbb = \<lparr>cb_base = None, cb_chain = []\<rparr>\<rparr>))"

definition tls13_handshake_msg_data :: "tls13_handshake_msg \<Rightarrow> cbs" where
  "tls13_handshake_msg_data m = CBS_init (data_bytes (msg_data m)) (msg_data_len m)"

definition tls13_handshake_msg_content :: "tls13_handshake_msg \<Rightarrow> unit option \<times> cbs" where
  "tls13_handshake_msg_content m = CBS_skip TLS13_HANDSHAKE_MSG_HEADER_LEN (tls13_handshake_msg_data m)"

text \<open>The handle \<^verbatim>\<open>body\<close> that \<^verbatim>\<open>tls13_handshake_msg_start\<close> sets up is the \<open>cbb\<close> at depth 1.\<close>

definition tls13_handshake_msg_start ::
    "(nat \<Rightarrow> bool) \<Rightarrow> nat \<Rightarrow> u8 \<Rightarrow> tls13_handshake_msg \<Rightarrow> bool \<times> tls13_handshake_msg" where
  "tls13_handshake_msg_start alloc base_size type m =
     (case and_then (CBB_init alloc base_size TLS13_HANDSHAKE_MSG_INITIAL_LEN) (\<lambda>s.
           and_then (CBB_add_u8 alloc 0 (unat type) s) (CBB_add_u24_length_prefixed alloc 0)) of
        (ok, s) \<Rightarrow> (ok, m\<lparr>msg_cbb := s\<rparr>))"

definition tls13_handshake_msg_finish ::
    "(nat \<Rightarrow> bool) \<Rightarrow> tls13_handshake_msg \<Rightarrow> bool \<times> tls13_handshake_msg" where
  "tls13_handshake_msg_finish alloc m =
     (case CBB_finish alloc 0 (Some (msg_data m)) True (msg_cbb m) of
        (None, s) \<Rightarrow> (False, m\<lparr>msg_cbb := s\<rparr>)
      | (Some (data, data_len), s) \<Rightarrow>
          (True, m\<lparr>msg_cbb := s, msg_data := Some data, msg_data_len := data_len, msg_cbs := CBS_init data data_len\<rparr>))"

definition msg_recv_body ::
    "(nat \<Rightarrow> bool) \<Rightarrow> 'w read_cb \<Rightarrow> tls13_handshake_msg \<Rightarrow> 'w \<Rightarrow> int \<times> tls13_handshake_msg \<times> 'w" where
  "msg_recv_body alloc read_hs m w =
     (case tls_buffer_extend alloc (TLS13_HANDSHAKE_MSG_HEADER_LEN + msg_len m) read_hs (msg_buf m) w of
        (ret, b, w) \<Rightarrow>
          (let m = m\<lparr>msg_buf := b\<rparr> in
           if ret \<le> 0 then (ret, m, w)
           else (case tls_buffer_finish b of
                   ((data, data_len), b) \<Rightarrow>
                     (TLS13_IO_SUCCESS, m\<lparr>msg_data := data, msg_data_len := data_len, msg_buf := b\<rparr>, w))))"

definition tls13_handshake_msg_recv ::
    "(nat \<Rightarrow> bool) \<Rightarrow> 'w read_cb \<Rightarrow> tls13_handshake_msg \<Rightarrow> 'w \<Rightarrow> int \<times> tls13_handshake_msg \<times> 'w" where
  "tls13_handshake_msg_recv alloc read_hs m w =
     (if msg_data m \<noteq> None then (TLS13_IO_FAILURE, m, w)
      else if msg_type m = 0 then
        (case tls_buffer_extend alloc TLS13_HANDSHAKE_MSG_HEADER_LEN read_hs (msg_buf m) w of
           (ret, b, w) \<Rightarrow>
             (let m = m\<lparr>msg_buf := b\<rparr> in
              if ret \<le> 0 then (ret, m, w)
              else (case tls_buffer_data b of
                      None \<Rightarrow> (TLS13_IO_FAILURE, m, w)
                    | Some cbs \<Rightarrow>
              (case CBS_get_u8 cbs of
                 (None, cbs) \<Rightarrow> (TLS13_IO_FAILURE, m, w)
               | (Some type, cbs) \<Rightarrow>
              (case CBS_get_u24 cbs of
                 (None, cbs) \<Rightarrow> (TLS13_IO_FAILURE, m, w)
               | (Some len, cbs) \<Rightarrow>
                   if TLS13_HANDSHAKE_MSG_MAX_LEN < unat len then (TLS13_IO_FAILURE, m, w)
                   else msg_recv_body alloc read_hs (m\<lparr>msg_type := type, msg_len := unat len\<rparr>) w)))))
      else msg_recv_body alloc read_hs m w)"

definition tls13_handshake_msg_send ::
    "'w write_cb \<Rightarrow> tls13_handshake_msg \<Rightarrow> 'w \<Rightarrow> int \<times> tls13_handshake_msg \<times> 'w" where
  "tls13_handshake_msg_send write_hs m w =
     (if msg_data m = None then (TLS13_IO_FAILURE, m, w)
      else if CBS_len (msg_cbs m) = 0 then (TLS13_IO_FAILURE, m, w)
      else (case send_loop write_hs (msg_cbs m) w of
              (Some ret, c, w) \<Rightarrow> (ret, m\<lparr>msg_cbs := c\<rparr>, w)
            | (None, c, w) \<Rightarrow> (TLS13_IO_SUCCESS, m\<lparr>msg_cbs := c\<rparr>, w)))"

section \<open>Receiving, over any source of bytes\<close>

lemma tls_buffer_data_spec:
  assumes "tb_ok b"
  obtains c where "tls_buffer_data b = Some c" and "cbs_ok c" and "cbs_view c = tb_content b"
proof -
  let ?i = "CBS_init (tb_bytes b) (tb_len b)"
  have ok: "cbs_ok ?i" and v: "cbs_view ?i = take (tb_len b) (tb_bytes b)" and le: "tb_offset b \<le> tb_len b"
    using assms by (auto simp: tb_ok_def cbs_ok_def CBS_init_def cbs_view_def)
  show thesis
    by (rule that [of "CBS_dup (cbs_drop (tb_offset b) ?i)"])
      (use ok v le in \<open>auto simp: tls_buffer_data_def cbs_skip_eq CBS_init_def CBS_dup_def CBS_data_def CBS_len_def
         cbs_ok_def cbs_view_def tb_content_def cbs_drop_def drop_take\<close>)
qed

text \<open>The header fields of a record: type, version and length.\<close>

definition record_hdr :: "bytes \<Rightarrow> u8 \<times> u16 \<times> nat" where
  "record_hdr h = (h ! 0, ucast (shift_in 0 (take 2 (drop 1 h)) :: u32), be_val (take 2 (drop 3 h)))"

lemma record_header_parse:
  assumes "cbs_ok c" and "length (cbs_view c) = 5" and "record_hdr (cbs_view c) = (t, v, n)"
  shows "\<exists>c1 c2 c3 l. CBS_get_u8 c = (Some t, c1) \<and> CBS_get_u16 c1 = (Some v, c2) \<and>
    CBS_get_u16 c2 = (Some l, c3) \<and> unat l = n"
proof -
  let ?h = "cbs_view c"
  have h: "?h = [?h ! 0] @ take 2 (drop 1 ?h) @ take 2 (drop 3 ?h)"
    using assms(2) by (intro nth_equalityI) (auto simp: nth_append nth_Cons split: nat.split)
  let ?v = "take 2 (drop 1 ?h)" and ?l = "take 2 (drop 3 ?h)"
  obtain c1 where g1: "CBS_get_u8 c = (Some (?h ! 0), c1)" and c1: "c1 = cbs_drop 1 c"
    using u8.get_append [OF assms(1), of "[?h ! 0]" "?v @ ?l"] h by simp
  have ok1: "cbs_ok c1" and v1: "cbs_view c1 = ?v @ ?l"
    using assms(1) h c1 by (simp_all add: cbs_ok_drop cbs_view_drop) (metis append_Cons append_Nil drop0 drop_Suc_Cons)
  obtain c2 where g2: "CBS_get_u16 c1 = (Some (ucast (shift_in 0 ?v :: u32)), c2)" and c2: "c2 = cbs_drop 2 c1"
    using u16.get_append [OF ok1 v1] assms(2) by simp
  have ok2: "cbs_ok c2" and v2: "cbs_view c2 = ?l @ []"
    using ok1 v1 assms(2) c2 by (simp_all add: cbs_ok_drop cbs_view_drop)
  obtain c3 where g3: "CBS_get_u16 c2 = (Some (ucast (shift_in 0 ?l :: u32)), c3)"
    using u16.get_append [OF ok2 v2] assms(2) by simp
  have len: "length ?l = 2" using assms(2) by simp
  have "be_val ?l < 256 ^ 2" using be_val_lt [of ?l] len by simp
  then have "unat (ucast (shift_in 0 ?l :: u32) :: u16) = be_val ?l"
    using unat_shift_in_u32 [of ?l] len by (simp add: unsigned_ucast_eq take_bit_nat_eq_self_iff)
  then show ?thesis using g1 g2 g3 assms(3) by (auto simp: record_hdr_def)
qed

text \<open>What a header must satisfy for the record to be read.\<close>

definition record_hdr_ok :: "u8 \<times> u16 \<times> nat \<Rightarrow> bool" where
  "record_hdr_ok h \<longleftrightarrow> drop_bit 8 (fst (snd h)) = SSL3_VERSION_MAJOR \<and> snd (snd h) \<le> TLS13_RECORD_MAX_CIPHERTEXT_LEN"

definition rec_fields :: "tls13_record \<Rightarrow> u8 \<times> u16 \<times> nat" where
  "rec_fields r = (rec_content_type r, rec_version r, rec_len r)"

text \<open>A record whose header has been read from the first bytes of the stream.\<close>

definition rec_started :: "tls13_record \<Rightarrow> bool" where
  "rec_started r \<longleftrightarrow> 5 \<le> length (tb_content (rec_buf r)) \<and>
     rec_fields r = record_hdr (take 5 (tb_content (rec_buf r))) \<and> record_hdr_ok (rec_fields r)"

definition rec_waiting :: "tls13_record \<Rightarrow> bool" where
  "rec_waiting r \<longleftrightarrow> rec_data r = None \<and> tb_ok (rec_buf r) \<and> tb_offset (rec_buf r) = 0 \<and>
     (rec_content_type r \<noteq> 0 \<longrightarrow> rec_started r)"

lemma tb_content_len: "tb_ok b \<Longrightarrow> tb_offset b = 0 \<Longrightarrow> length (tb_content b) = tb_len b"
  by (simp add: tb_content_def tb_ok_def)

lemma tls13_record_new_waiting:
  "tls13_record_new alloc rs bs = Some r \<Longrightarrow> rec_waiting r \<and> tb_content (rec_buf r) = [] \<and>
    tb_capacity_limit (rec_buf r) = TLS_BUFFER_CAPACITY_LIMIT"
  using tls_buffer_new_ok by (fastforce simp: tls13_record_new_def rec_waiting_def split: if_splits option.splits)

lemma tls13_record_new_type: "tls13_record_new alloc rs bs = Some r \<Longrightarrow> rec_content_type r = 0"
  by (auto simp: tls13_record_new_def split: if_splits option.splits)

text \<open>The outcome of a call on a record that waits, when \<open>stream\<close> is what the buffer and the
  source hold together: the record is complete and is the front of the stream, or nothing is
  lost and the record still waits.\<close>

definition recv_outcome :: "bytes \<Rightarrow> bytes \<Rightarrow> int \<Rightarrow> tls13_record \<Rightarrow> bool" where
  "recv_outcome stream rest ret r \<longleftrightarrow>
     (if 0 < ret
      then (\<exists>d. rec_data r = Some d \<and> rec_data_len r \<le> length d \<and> take (rec_data_len r) d @ rest = stream \<and>
              rec_data_len r = 5 + rec_len r \<and> ret = int (rec_data_len r) \<and>
              rec_fields r = record_hdr (take 5 d) \<and> record_hdr_ok (rec_fields r))
      else rec_waiting r \<and> tb_content (rec_buf r) @ rest = stream)"

context byte_source
begin

lemma record_recv_body_spec:
  assumes "rec_data r = None" and "tb_ok (rec_buf r)" and "tb_offset (rec_buf r) = 0" and "rec_started r" and "invar w"
    and "record_recv_body alloc read r w = (ret, r', w')"
  shows "invar w' \<and> recv_outcome (tb_content (rec_buf r) @ content w) (content w') ret r'"
proof -
  obtain b where e: "tls_buffer_extend alloc (TLS13_RECORD_HEADER_LEN + rec_len r) read (rec_buf r) w
      = (if 0 < ret then int (5 + rec_len r) else ret, b, w')"
    and r': "r' = (if 0 < ret then r\<lparr>rec_buf := tls_buffer_clear b, rec_data := tb_data b, rec_data_len := tb_len b\<rparr>
               else r\<lparr>rec_buf := b\<rparr>)" and ret: "0 < ret \<longrightarrow> ret = int (tb_len b)"
  proof -
    obtain x b w1 where x: "tls_buffer_extend alloc (TLS13_RECORD_HEADER_LEN + rec_len r) read (rec_buf r) w = (x, b, w1)"
      by (metis prod_cases3)
    have "0 < x \<longrightarrow> tb_len b = 5 + rec_len r \<and> x = int (5 + rec_len r)"
      using extend_spec [OF assms(2,5) x] by (simp add: TLS13_RECORD_HEADER_LEN_def)
    then show thesis
      using assms(6) x by (intro that [of b]) (auto simp: record_recv_body_def tls_buffer_finish_def split: if_splits)
  qed
  note s = extend_spec [OF assms(2,5) e]
  have cl: "length (tb_content b) = tb_len b" using s assms(3) by (intro tb_content_len) auto
  have st: "5 \<le> length (tb_content (rec_buf r))" and f: "rec_fields r = record_hdr (take 5 (tb_content (rec_buf r)))"
    and ok: "record_hdr_ok (rec_fields r)" using assms(4) by (auto simp: rec_started_def)
  have le: "length (tb_content (rec_buf r)) \<le> length (tb_content b)"
    using s cl tb_content_len [OF assms(2,3)] by simp
  have "tb_content b @ content w' = tb_content (rec_buf r) @ content w" using s by simp
  then have pre: "take 5 (tb_content b) = take 5 (tb_content (rec_buf r))"
    using le st by (metis (no_types, lifting) le_trans take_append diff_is_0_eq take0 append_Nil2)
  show ?thesis
  proof (cases "0 < ret")
    case True
    have len: "tb_len b = 5 + rec_len r" using s True by (simp add: TLS13_RECORD_HEADER_LEN_def)
    have tb: "tb_content b = take (tb_len b) (tb_bytes b)" using s assms(3) by (simp add: tb_content_def)
    obtain d where d: "tb_data b = Some d"
      using len s by (cases "tb_data b") (auto simp: tb_ok_def tb_bytes_def)
    have db: "tb_bytes b = d" using d by (simp add: tb_bytes_def)
    have "take 5 d = take 5 (tb_content (rec_buf r))" using pre len by (simp add: tb db min_def)
    then show ?thesis using True s d f ok len ret tb db
      by (auto simp: recv_outcome_def r' rec_fields_def tb_ok_def)
  next
    case False
    then show ?thesis using s assms(1,3,4) pre le st
      by (auto simp: recv_outcome_def r' rec_waiting_def rec_started_def rec_fields_def)
  qed
qed

text \<open>A call on a record that has no header yet: what it does once the header has arrived.\<close>

lemma record_recv_header:
  assumes "rec_data r = None" and "rec_content_type r = 0" and "tb_ok b" and "tb_offset b = 0" and "tb_len b = 5"
    and "tls_buffer_extend alloc TLS13_RECORD_HEADER_LEN read (rec_buf r) w = (x, b, w1)" and "0 < x"
    and "record_hdr (tb_content b) = (t, v, n)"
  shows "tls13_record_recv alloc read r w =
    (if drop_bit 8 v \<noteq> SSL3_VERSION_MAJOR then (TLS13_IO_RECORD_VERSION, r\<lparr>rec_buf := b\<rparr>, w1)
     else if TLS13_RECORD_MAX_CIPHERTEXT_LEN < n then (TLS13_IO_RECORD_OVERFLOW, r\<lparr>rec_buf := b\<rparr>, w1)
     else record_recv_body alloc read (r\<lparr>rec_buf := b, rec_content_type := t, rec_version := v, rec_len := n\<rparr>) w1)"
proof -
  obtain c where c: "tls_buffer_data b = Some c" "cbs_ok c" "cbs_view c = tb_content b"
    by (rule tls_buffer_data_spec [OF assms(3)])
  have "length (tb_content b) = 5" using tb_content_len [OF assms(3,4)] assms(5) by simp
  then obtain c1 c2 c3 l where "CBS_get_u8 c = (Some t, c1)" "CBS_get_u16 c1 = (Some v, c2)"
    "CBS_get_u16 c2 = (Some l, c3)" "unat l = n"
    using record_header_parse [of c t v n] c assms(8) by auto
  then show ?thesis using assms(1,2,6,7) c(1) by (simp add: tls13_record_recv_def Let_def)
qed

lemma record_recv_spec:
  assumes "rec_waiting r" and "invar w" and "tls13_record_recv alloc read r w = (ret, r', w')"
  shows "invar w' \<and> recv_outcome (tb_content (rec_buf r) @ content w) (content w') ret r'"
proof (cases "rec_content_type r = 0")
  case False
  then show ?thesis using assms record_recv_body_spec [of r w alloc ret r' w']
    by (simp add: tls13_record_recv_def rec_waiting_def)
next
  case True
  have r: "rec_data r = None" "tb_ok (rec_buf r)" "tb_offset (rec_buf r) = 0"
    using assms(1) by (auto simp: rec_waiting_def)
  obtain x b w1 where e: "tls_buffer_extend alloc TLS13_RECORD_HEADER_LEN read (rec_buf r) w = (x, b, w1)"
    by (metis prod_cases3)
  note s = extend_spec [OF r(2) assms(2) e]
  let ?r = "r\<lparr>rec_buf := b\<rparr>"
  have wait: "rec_waiting ?r" using s r True by (simp add: rec_waiting_def)
  show ?thesis
  proof (cases "0 < x")
    case False
    then have "(ret, r', w') = (x, ?r, w1)" using assms(3) r(1) True e by (auto simp: tls13_record_recv_def Let_def)
    then show ?thesis using s wait False by (auto simp: recv_outcome_def)
  next
    case pos: True
    have len: "length (tb_content b) = 5"
      using s r(3) pos tb_content_len [of b] by (auto simp: TLS13_RECORD_HEADER_LEN_def)
    obtain t v n where h: "record_hdr (tb_content b) = (t, v, n)" by (metis prod_cases3)
    let ?q = "?r\<lparr>rec_content_type := t, rec_version := v, rec_len := n\<rparr>"
    have eq: "tls13_record_recv alloc read r w =
      (if drop_bit 8 v \<noteq> SSL3_VERSION_MAJOR then (TLS13_IO_RECORD_VERSION, ?r, w1)
       else if TLS13_RECORD_MAX_CIPHERTEXT_LEN < n then (TLS13_IO_RECORD_OVERFLOW, ?r, w1)
       else record_recv_body alloc read ?q w1)"
      using record_recv_header [OF r(1) True _ _ _ e pos h] s r(3) pos by (simp add: TLS13_RECORD_HEADER_LEN_def)
    show ?thesis
    proof (cases "record_hdr_ok (t, v, n)")
      case True
      have "rec_started ?q" using len h True by (simp add: rec_started_def rec_fields_def)
      with s r have "invar w' \<and> recv_outcome (tb_content (rec_buf ?q) @ content w1) (content w') ret r'"
        using assms(3) eq True by (intro record_recv_body_spec) (auto simp: record_hdr_ok_def)
      then show ?thesis using s by simp
    next
      case False
      then have "ret \<le> 0" "r' = ?r" "w' = w1" using assms(3) eq
        by (auto simp: record_hdr_ok_def TLS13_IO_RECORD_VERSION_def TLS13_IO_RECORD_OVERFLOW_def split: if_splits)
      then show ?thesis using s wait by (simp add: recv_outcome_def)
    qed
  qed
qed

end

text \<open>The caller of a \<^verbatim>\<open>recv\<close> that did not get everything calls again later.\<close>

fun recv_retry :: "('r \<Rightarrow> 'w \<Rightarrow> int \<times> 'r \<times> 'w) \<Rightarrow> nat \<Rightarrow> 'r \<Rightarrow> 'w \<Rightarrow> int \<times> 'r \<times> 'w" where
  "recv_retry recv 0 r w = (TLS13_IO_WANT_RETRY, r, w)"
| "recv_retry recv (Suc k) r w =
     (case recv r w of (ret, r, w) \<Rightarrow> if 0 < ret then (ret, r, w) else recv_retry recv k r w)"

context byte_source
begin

lemma record_recv_retry_spec:
  "rec_waiting r \<Longrightarrow> invar w \<Longrightarrow> recv_retry (tls13_record_recv alloc read) k r w = (ret, r', w') \<Longrightarrow>
    invar w' \<and> recv_outcome (tb_content (rec_buf r) @ content w) (content w') ret r'"
proof (induction k arbitrary: r w)
  case 0
  then show ?case by (auto simp: recv_outcome_def TLS13_IO_WANT_RETRY_def)
next
  case (Suc k)
  obtain x r1 w1 where e: "tls13_record_recv alloc read r w = (x, r1, w1)" by (metis prod_cases3)
  note s = record_recv_spec [OF Suc.prems(1,2) e]
  show ?case
  proof (cases "0 < x")
    case True
    then show ?thesis using s Suc.prems(3) e by auto
  next
    case False
    then have "recv_retry (tls13_record_recv alloc read) k r1 w1 = (ret, r', w')" using Suc.prems(3) e by simp
    moreover have "rec_waiting r1" and st: "tb_content (rec_buf r1) @ content w1 = tb_content (rec_buf r) @ content w"
      using s False by (simp_all add: recv_outcome_def)
    ultimately show ?thesis using Suc.IH [of r1 w1] s by (simp only: st)
  qed
qed

end

section \<open>A record that is on its way arrives\<close>

text \<open>A whole record: a header with a type, of the right version, and as many bytes as it announces.\<close>

definition whole_record :: "bytes \<Rightarrow> bool" where
  "whole_record rc \<longleftrightarrow> 5 \<le> length rc \<and> rc ! 0 \<noteq> 0 \<and> record_hdr_ok (record_hdr (take 5 rc)) \<and>
     length rc = 5 + snd (snd (record_hdr (take 5 rc)))"

lemma whole_recordD:
  assumes "whole_record rc" and "record_hdr (take 5 rc) = (t, v, n)"
  shows "5 \<le> length rc" and "t \<noteq> 0" and "drop_bit 8 v = SSL3_VERSION_MAJOR" and "n \<le> TLS13_RECORD_MAX_CIPHERTEXT_LEN"
    and "length rc = 5 + n"
proof -
  have "t = rc ! 0" using arg_cong [OF assms(2), of fst] by (simp add: record_hdr_def)
  then show "t \<noteq> 0" using assms(1) by (simp add: whole_record_def)
qed (use assms in \<open>simp_all add: whole_record_def record_hdr_ok_def\<close>)

lemma whole_record_len: "whole_record rc \<Longrightarrow> length rc = 5 + be_val (take 2 (drop 3 rc))"
proof -
  assume "whole_record rc"
  moreover have "take 2 (drop 3 (take 5 rc)) = take 2 (drop 3 rc)" by (simp add: drop_take)
  ultimately show ?thesis unfolding whole_record_def record_hdr_def snd_conv by (simp only:)
qed

text \<open>A record object that is receiving \<open>rc\<close>.\<close>

definition rec_receiving :: "bytes \<Rightarrow> tls13_record \<Rightarrow> bool" where
  "rec_receiving rc r \<longleftrightarrow> rec_waiting r \<and> tb_capacity_limit (rec_buf r) = TLS_BUFFER_CAPACITY_LIMIT \<and>
     tb_len (rec_buf r) \<le> (if rec_content_type r = 0 then 5 else length rc)"

lemma rec_receivingD:
  assumes "rec_receiving rc r" and "tb_content (rec_buf r) @ c = rc @ rest"
  shows "rec_data r = None" and "tb_ok (rec_buf r)" and "tb_offset (rec_buf r) = 0"
    and "tb_capacity_limit (rec_buf r) = TLS_BUFFER_CAPACITY_LIMIT" and "length rc \<le> tb_len (rec_buf r) + length c"
proof -
  show r: "rec_data r = None" "tb_ok (rec_buf r)" "tb_offset (rec_buf r) = 0"
    "tb_capacity_limit (rec_buf r) = TLS_BUFFER_CAPACITY_LIMIT"
    using assms(1) by (simp_all add: rec_receiving_def rec_waiting_def)
  have "length (tb_content (rec_buf r) @ c) = length (rc @ rest)" by (simp only: assms(2))
  then show "length rc \<le> tb_len (rec_buf r) + length c" using tb_content_len [OF r(2,3)] by simp
qed

context patient_source
begin

lemma record_recv_body_progress:
  assumes "tb_ok (rec_buf r)" and "invar w" and "tb_len (rec_buf r) \<le> 5 + rec_len r"
    and "5 + rec_len r \<le> tb_len (rec_buf r) + length (content w)" and "rec_len r \<le> TLS13_RECORD_MAX_CIPHERTEXT_LEN"
    and "tb_capacity_limit (rec_buf r) = TLS_BUFFER_CAPACITY_LIMIT" and "\<And>n. alloc n"
    and "record_recv_body alloc read r w = (ret, r', w')"
  shows "delay w' \<le> delay w \<and> (0 < ret \<or> delay w' < delay w \<and> rec_content_type r' = rec_content_type r \<and>
    tb_len (rec_buf r') \<le> 5 + rec_len r \<and> tb_capacity_limit (rec_buf r') = TLS_BUFFER_CAPACITY_LIMIT)"
proof -
  obtain x b w1 where e: "tls_buffer_extend alloc (5 + rec_len r) read (rec_buf r) w = (x, b, w1)" by (metis prod_cases3)
  have lim: "5 + rec_len r \<le> tb_capacity_limit (rec_buf r)"
    using assms(5,6) by (simp add: TLS13_RECORD_MAX_CIPHERTEXT_LEN_def TLS_BUFFER_CAPACITY_LIMIT_def)
  note s = extend_spec [OF assms(1,2) e]
  have prog: "delay w1 \<le> delay w" "0 < x \<or> delay w1 < delay w" "tb_len b \<le> 5 + rec_len r"
    using extend_progress [OF assms(1,2,3) _ _ lim assms(7) e] assms(4) by simp_all
  have "(ret, r', w') = (if x \<le> 0 then (x, r\<lparr>rec_buf := b\<rparr>, w1)
      else (int (tb_len b), r\<lparr>rec_buf := tls_buffer_clear b, rec_data := tb_data b, rec_data_len := tb_len b\<rparr>, w1))"
    using assms(8) e by (auto simp: record_recv_body_def tls_buffer_finish_def TLS13_RECORD_HEADER_LEN_def Let_def)
  then show ?thesis using s prog assms(6) by (cases "x \<le> 0") simp_all
qed

text \<open>A call that finds no header yet, and one that resumes after it.\<close>

lemma record_recv_first_progress:
  assumes "whole_record rc" and "rec_receiving rc r" and "invar w" and "tb_content (rec_buf r) @ content w = rc @ rest"
    and "\<And>n. alloc n" and "tls13_record_recv alloc read r w = (ret, r', w')" and "\<not> 0 < ret" and "rec_waiting r'"
    and ct: "rec_content_type r = 0"
  shows "delay w' < delay w \<and> rec_receiving rc r'"
proof -
  note r = rec_receivingD [OF assms(2,4)]
  obtain t v n where h: "record_hdr (take 5 rc) = (t, v, n)" by (metis prod_cases3)
  note rc = whole_recordD [OF assms(1) h]
  obtain x b w1 where e: "tls_buffer_extend alloc TLS13_RECORD_HEADER_LEN read (rec_buf r) w = (x, b, w1)" by (metis prod_cases3)
  note s = extend_spec [OF r(2) assms(3) e]
  have prog: "delay w1 \<le> delay w \<and> (0 < x \<or> delay w1 < delay w) \<and> tb_len b \<le> 5"
    using extend_progress [OF r(2) assms(3) _ _ _ _ assms(5) e] assms(2) ct r(4,5) rc(1)
    by (simp add: rec_receiving_def TLS13_RECORD_HEADER_LEN_def TLS_BUFFER_CAPACITY_LIMIT_def)
  show ?thesis
  proof (cases "0 < x")
    case pos: True
    have b: "tb_ok b" "tb_offset b = 0" "tb_len b = 5" "invar w1" "tb_capacity_limit b = TLS_BUFFER_CAPACITY_LIMIT"
      using s r pos by (auto simp: TLS13_RECORD_HEADER_LEN_def)
    have lb: "length (tb_content b) = 5" using tb_content_len [OF b(1,2)] b(3) by simp
    have st: "tb_content b @ content w1 = rc @ rest" using s assms(4) by simp
    then have "take 5 (tb_content b @ content w1) = take 5 (rc @ rest)" by (simp only:)
    then have "tb_content b = take 5 rc" using lb rc(1) by simp
    then have "tls13_record_recv alloc read r w = record_recv_body alloc read
        (r\<lparr>rec_buf := b, rec_content_type := t, rec_version := v, rec_len := n\<rparr>) w1"
      using record_recv_header [OF r(1) ct b(1-3) e pos, of t v n] h rc(3,4) by simp
    note body = this [unfolded assms(6), symmetric]
    have "length (tb_content b @ content w1) = length (rc @ rest)" by (simp only: st)
    then have "5 + n \<le> tb_len b + length (content w1)" using lb b(3) rc(5) by simp
    then have "delay w' < delay w1 \<and> rec_content_type r' = t \<and> tb_len (rec_buf r') \<le> 5 + n \<and>
        tb_capacity_limit (rec_buf r') = TLS_BUFFER_CAPACITY_LIMIT"
      using record_recv_body_progress [OF _ b(4) _ _ _ _ assms(5) body] b rc(4) assms(7) by simp
    then show ?thesis using prog assms(8) rc(2,5) by (simp add: rec_receiving_def)
  next
    case False
    then have "r' = r\<lparr>rec_buf := b\<rparr>" "w' = w1" using assms(6) r(1) ct e by (auto simp: tls13_record_recv_def Let_def)
    then show ?thesis using prog False assms(8) s r ct by (simp add: rec_receiving_def)
  qed
qed

lemma record_recv_resumed_progress:
  assumes "whole_record rc" and "rec_receiving rc r" and "invar w" and "tb_content (rec_buf r) @ content w = rc @ rest"
    and "\<And>n. alloc n" and "tls13_record_recv alloc read r w = (ret, r', w')" and "\<not> 0 < ret" and "rec_waiting r'"
    and ct: "rec_content_type r \<noteq> 0"
  shows "delay w' < delay w \<and> rec_receiving rc r'"
proof -
  note r = rec_receivingD [OF assms(2,4)]
  obtain t v n where h: "record_hdr (take 5 rc) = (t, v, n)" by (metis prod_cases3)
  note rc = whole_recordD [OF assms(1) h]
  have st: "5 \<le> length (tb_content (rec_buf r))" "rec_fields r = record_hdr (take 5 (tb_content (rec_buf r)))"
    using assms(2) ct by (auto simp: rec_receiving_def rec_waiting_def rec_started_def)
  have "take 5 (tb_content (rec_buf r) @ content w) = take 5 (rc @ rest)" by (simp only: assms(4))
  then have "take 5 (tb_content (rec_buf r)) = take 5 rc" using st(1) rc(1) by simp
  then have n: "rec_len r = n" using st(2) h by (simp add: rec_fields_def)
  have body: "record_recv_body alloc read r w = (ret, r', w')" using assms(6) ct r(1) by (simp add: tls13_record_recv_def)
  have "delay w' < delay w \<and> rec_content_type r' = rec_content_type r \<and> tb_len (rec_buf r') \<le> 5 + n \<and>
      tb_capacity_limit (rec_buf r') = TLS_BUFFER_CAPACITY_LIMIT"
    using record_recv_body_progress [OF r(2) assms(3) _ _ _ r(4) assms(5) body] assms(2,7) ct n r(5) rc(4,5)
    by (simp add: rec_receiving_def)
  then show ?thesis using assms(8) ct rc(5) by (simp add: rec_receiving_def)
qed

lemma record_recv_progress:
  assumes "whole_record rc" and "rec_receiving rc r" and "invar w" and "tb_content (rec_buf r) @ content w = rc @ rest"
    and "\<And>n. alloc n" and "tls13_record_recv alloc read r w = (ret, r', w')"
  shows "0 < ret \<or> delay w' < delay w \<and> rec_receiving rc r'"
proof (cases "0 < ret")
  case False
  have "rec_waiting r" using assms(2) by (simp add: rec_receiving_def)
  then have "rec_waiting r'" using record_recv_spec [OF _ assms(3,6)] False by (simp add: recv_outcome_def)
  then show ?thesis
    using record_recv_first_progress [OF assms False] record_recv_resumed_progress [OF assms False]
    by (cases "rec_content_type r = 0") simp_all
qed simp

lemma record_recv_retry_arrives:
  "whole_record rc \<Longrightarrow> rec_receiving rc r \<Longrightarrow> invar w \<Longrightarrow> tb_content (rec_buf r) @ content w = rc @ rest \<Longrightarrow> (\<And>n. alloc n) \<Longrightarrow>
    delay w < k \<Longrightarrow> 0 < fst (recv_retry (tls13_record_recv alloc read) k r w)"
proof (induction k arbitrary: r w)
  case (Suc k)
  obtain x r1 w1 where e: "tls13_record_recv alloc read r w = (x, r1, w1)" by (metis prod_cases3)
  have wait: "rec_waiting r" using Suc.prems(2) by (simp add: rec_receiving_def)
  note s = record_recv_spec [OF wait Suc.prems(3) e] and prog = record_recv_progress [OF Suc.prems(1-5) e]
  show ?case
  proof (cases "0 < x")
    case False
    have "tb_content (rec_buf r1) @ content w1 = rc @ rest" using s False Suc.prems(4) by (simp add: recv_outcome_def)
    then show ?thesis using Suc.IH [OF Suc.prems(1) _ _ _ Suc.prems(5), of r1 w1] s prog False Suc.prems(6) e by simp
  qed (simp add: e)
qed simp

end

text \<open>A transport that delivers its bytes in fragments; \<open>None\<close> is a read that has to wait.\<close>

fun fragment_read :: "bytes option list read_cb" where
  "fragment_read n [] = (TLS13_IO_WANT_POLLIN, [], [])"
| "fragment_read n (None # fs) = (TLS13_IO_WANT_POLLIN, [], fs)"
| "fragment_read n (Some f # fs) =
     (int (length (take n f)), take n f, if length f \<le> n then fs else Some (drop n f) # fs)"

definition fragment_bytes :: "bytes option list \<Rightarrow> bytes" where
  "fragment_bytes fs = concat (map data_bytes fs)"

definition fragment_delay :: "bytes option list \<Rightarrow> nat" where
  "fragment_delay fs = length (filter (\<lambda>f. data_bytes f = []) fs)"

interpretation fragments: patient_source "\<lambda>fs. True" fragment_bytes fragment_read fragment_delay
proof
  fix fs fs' :: "bytes option list" and n r bs
  assume read: "fragment_read n fs = (r, bs, fs')"
  show "fragment_bytes fs = bs @ fragment_bytes fs'" "length bs \<le> n \<and> length bs = nat r"
    using read by (cases "(n, fs)" rule: fragment_read.cases;
      auto simp: fragment_bytes_def data_bytes_def TLS13_IO_WANT_POLLIN_def)+
  show "fragment_delay fs' \<le> fragment_delay fs \<and> (0 < r \<or> fragment_delay fs' < fragment_delay fs)"
    if "0 < n" "fragment_bytes fs \<noteq> []"
    using read that by (cases "(n, fs)" rule: fragment_read.cases)
      (auto simp: fragment_bytes_def fragment_delay_def data_bytes_def)
qed simp

section \<open>Sending, over any sink of bytes\<close>

context byte_sink
begin

lemma send_loop_spec:
  "cbs_ok c \<Longrightarrow> invar w \<Longrightarrow> send_loop put c w = (res, c', w') \<Longrightarrow>
    invar w' \<and> cbs_ok c' \<and> content w @ cbs_view c = content w' @ cbs_view c' \<and>
    (res = None \<longleftrightarrow> cbs_view c' = []) \<and> (\<forall>x. res = Some x \<longrightarrow> x \<le> 0)"
proof (induction "cbs_len c" arbitrary: c w rule: less_induct)
  case less
  have len: "length (cbs_view c) = cbs_len c" using less.prems(1) by (rule length_cbs_view)
  show ?case
  proof (cases "cbs_len c = 0")
    case True
    then show ?thesis using less.prems len by (auto simp: send_loop.simps [of put c w] CBS_len_def)
  next
    case False
    obtain ret w1 where p: "put (cbs_view c) w = (ret, w1)" by fastforce
    note cnt = sink_count [OF less.prems(2) p] and inv1 = sink_invar [OF less.prems(2) p]
      and con = sink_content [OF less.prems(2) p]
    have eq: "send_loop put c w =
      (if ret \<le> 0 then (Some ret, c, w1) else send_loop put (cbs_drop (nat ret) c) w1)"
      using False p cnt len
      by (simp add: send_loop.simps [of put c w] CBS_len_def CBS_data_def cbs_skip_eq flip: cbs_view_def)
    show ?thesis
    proof (cases "ret \<le> 0")
      case True
      then show ?thesis using less.prems eq con inv1 False len by auto
    next
      case False2: False
      have "cbs_len (cbs_drop (nat ret) c) < cbs_len c" using False False2 by (simp add: cbs_len_drop)
      from less.hyps [OF this cbs_ok_drop [OF less.prems(1)] inv1] show ?thesis
        using less.prems(3) eq con False2 by (simp add: cbs_view_drop)
    qed
  qed
qed

end

section \<open>A handshake message from its bytes\<close>

lemma append_split: "length xs = length ys \<Longrightarrow> xs @ us = ys @ vs \<Longrightarrow> xs = ys \<and> us = vs"
  by simp

definition hs_bytes :: "u8 \<Rightarrow> bytes \<Rightarrow> bytes" where
  "hs_bytes t body = t # be_bytes 3 (length body) @ body"

lemma msg_header_parse:
  assumes "cbs_ok c" and "cbs_view c = t # be_bytes 3 n" and "n < 2 ^ 24"
  shows "\<exists>c1 c2 l. CBS_get_u8 c = (Some t, c1) \<and> CBS_get_u24 c1 = (Some l, c2) \<and> unat l = n"
proof -
  obtain c1 where g1: "CBS_get_u8 c = (Some t, c1)" and c1: "c1 = cbs_drop 1 c"
    using u8.get_append [OF assms(1), of "[t]" "be_bytes 3 n"] assms(2) by auto
  have ok1: "cbs_ok c1" and v1: "cbs_view c1 = be_bytes 3 n @ []"
    using assms(1,2) c1 by (simp_all add: cbs_ok_drop cbs_view_drop)
  obtain c2 where g2: "CBS_get_u24 c1 = (Some (shift_in 0 (be_bytes 3 n)), c2)"
    using u24.get_append [OF ok1 v1] by (auto simp: length_be_bytes)
  have "unat (shift_in (0 :: u32) (be_bytes 3 n)) = n"
    using assms(3) by (simp add: unat_shift_in_u32 be_val_be_bytes)
  then show ?thesis using g1 g2 by blast
qed

text \<open>A message object as \<open>tls13_handshake_msg_new\<close> makes it.\<close>

definition msg_fresh :: "tls13_handshake_msg \<Rightarrow> bool" where
  "msg_fresh m \<longleftrightarrow> msg_data m = None \<and> msg_type m = 0 \<and> tb_ok (msg_buf m) \<and> tb_len (msg_buf m) = 0 \<and>
     tb_offset (msg_buf m) = 0 \<and> tb_capacity_limit (msg_buf m) = TLS_BUFFER_CAPACITY_LIMIT"

lemma tls13_handshake_msg_new_fresh: "tls13_handshake_msg_new alloc ms bs = Some m \<Longrightarrow> msg_fresh m"
  using tls_buffer_new_ok by (fastforce simp: tls13_handshake_msg_new_def msg_fresh_def split: if_splits option.splits)

context ready_source
begin

lemma msg_recv_ready:
  assumes "msg_fresh m" and "invar w" and "content w = hs_bytes t body @ rest"
    and "length body \<le> TLS13_HANDSHAKE_MSG_MAX_LEN" and "\<And>n. alloc n"
  shows "\<exists>m' w' d. tls13_handshake_msg_recv alloc read m w = (TLS13_IO_SUCCESS, m', w') \<and> msg_type m' = t \<and>
    msg_data m' = Some d \<and> take (msg_data_len m') d = hs_bytes t body \<and> msg_data_len m' \<le> length d \<and>
    content w' = rest \<and> invar w'"
proof -
  have m: "msg_data m = None" "msg_type m = 0" "tb_ok (msg_buf m)" "tb_len (msg_buf m) = 0" "tb_offset (msg_buf m) = 0"
    "tb_capacity_limit (msg_buf m) = 1048576" "tb_content (msg_buf m) = []"
    using assms(1) by (auto simp: msg_fresh_def TLS_BUFFER_CAPACITY_LIMIT_def tb_content_def)
  have lb: "length body \<le> 262144" using assms(4) by (simp add: TLS13_HANDSHAKE_MSG_MAX_LEN_def)
  obtain r1 b1 w1 where e1: "tls_buffer_extend alloc 4 read (msg_buf m) w = (r1, b1, w1)" by (metis prod_cases3)
  have "0 < fst (tls_buffer_extend alloc 4 read (msg_buf m) w)"
    by (rule extend_ready [OF m(3) assms(2)]) (use m assms(3,5) in \<open>simp_all add: hs_bytes_def\<close>)
  then have p1: "0 < r1" using e1 by simp
  note s1 = extend_spec [OF m(3) assms(2) e1]
  have l1: "length (tb_content b1) = 4" using s1 p1 m tb_content_len [of b1] by simp
  have c1: "tb_content b1 @ content w1 = (t # be_bytes 3 (length body)) @ (body @ rest)"
    using s1 m assms(3) by (simp add: hs_bytes_def)
  moreover have "length (tb_content b1) = length (t # be_bytes 3 (length body))" by (simp add: l1)
  ultimately have c1h: "tb_content b1 = t # be_bytes 3 (length body)" and c1r: "content w1 = body @ rest"
    using append_split by blast+
  have okb1: "tb_ok b1" using s1 by simp
  obtain c where c: "tls_buffer_data b1 = Some c" "cbs_ok c" "cbs_view c = t # be_bytes 3 (length body)"
    using tls_buffer_data_spec [OF okb1] c1h by metis
  obtain d1 d2 l where g: "CBS_get_u8 c = (Some t, d1)" "CBS_get_u24 d1 = (Some l, d2)" "unat l = length body"
    using msg_header_parse [OF c(2,3)] lb by auto
  obtain r2 b2 w2 where e2: "tls_buffer_extend alloc (4 + length body) read b1 w1 = (r2, b2, w2)" by (metis prod_cases3)
  have inv1: "invar w1" using s1 by simp
  have len1: "tb_len b1 = 4" using s1 p1 by simp
  have "0 < fst (tls_buffer_extend alloc (4 + length body) read b1 w1)"
    by (rule extend_ready [OF okb1 inv1]) (use s1 m p1 lb c1r len1 assms(5) in simp_all)
  then have p2: "0 < r2" using e2 by simp
  note s2 = extend_spec [OF okb1 inv1 e2]
  have "length (tb_content b2) = length (hs_bytes t body)"
    using s2 p2 m s1 tb_content_len [of b2] by (simp add: hs_bytes_def)
  moreover have "tb_content b2 @ content w2 = hs_bytes t body @ rest"
    using s2 c1h c1r by (simp add: hs_bytes_def)
  ultimately have c2: "tb_content b2 = hs_bytes t body" "content w2 = rest"
    using append_split by blast+
  have tb: "tb_content b2 = take (tb_len b2) (tb_bytes b2)" using s1 s2 m by (simp add: tb_content_def)
  have "tb_len b2 \<le> length (tb_bytes b2)" "0 < tb_len b2" using s2 p2 by (auto simp: tb_ok_def)
  then obtain d where d: "tb_data b2 = Some d" by (cases "tb_data b2") (auto simp: tb_bytes_def)
  have "tls13_handshake_msg_recv alloc read m w = (TLS13_IO_SUCCESS,
      m\<lparr>msg_buf := tls_buffer_clear b2, msg_type := t, msg_len := length body, msg_data := Some d, msg_data_len := tb_len b2\<rparr>, w2)"
    using m(1,2) e1 p1 c(1) g e2 p2 d assms(4)
    by (simp add: tls13_handshake_msg_recv_def msg_recv_body_def TLS13_HANDSHAKE_MSG_HEADER_LEN_def
        tls_buffer_finish_def Let_def)
  then show ?thesis using c2 tb d s2 \<open>tb_len b2 \<le> length (tb_bytes b2)\<close> by (simp add: tb_bytes_def)
qed

end

section \<open>Properties\<close>

text \<open>C29: a record is received whole however the transport fragments it.  Calling
  \<open>tls13_record_recv\<close> again and again on a new record, over any source that delivers its bytes in
  order, either loses no byte (what is not yet delivered follows what the record keeps) or ends
  with a record that is the front of the stream: the five octets of the header and exactly the
  bytes its length field announces, of SSL major version 3 and within the maximal size.  And it does
  end so when a whole record is on its way, memory can be had, and the source makes its reader wait less often
  than it is called.\<close>

theorem record_recv_fragments:
  assumes "byte_source invar content read" and "tls13_record_new alloc rec_size buf_size = Some r" and "invar w"
    and "recv_retry (tls13_record_recv alloc read) k r w = (ret, r', w')"
  shows "(if 0 < ret
     then (\<exists>d. rec_data r' = Some d \<and> content w = take (rec_data_len r') d @ content w' \<and>
             ret = int (rec_data_len r') \<and> rec_data_len r' \<le> TLS13_RECORD_MAX_LEN \<and>
             rec_content_type r' = d ! 0 \<and> drop_bit 8 (rec_version r') = SSL3_VERSION_MAJOR \<and>
             rec_data_len r' = 5 + be_val (take 2 (drop 3 d)))
     else rec_data r' = None \<and> content w = tb_content (rec_buf r') @ content w') \<and>
    (patient_source invar content read delay \<and> (\<forall>n. alloc n) \<and> delay w < k \<and> whole_record rc \<and> content w = rc @ rest \<longrightarrow>
       ret = int (length rc) \<and> (\<exists>d. rec_data r' = Some d \<and> take (rec_data_len r') d = rc) \<and> content w' = rest)"
proof -
  note n = tls13_record_new_waiting [OF assms(2)]
  note s = byte_source.record_recv_retry_spec [OF assms(1) conjunct1 [OF n] assms(3,4)]
  have sound: "\<exists>d. rec_data r' = Some d \<and> content w = take (rec_data_len r') d @ content w' \<and>
      ret = int (rec_data_len r') \<and> rec_data_len r' \<le> TLS13_RECORD_MAX_LEN \<and> rec_data_len r' \<le> length d \<and>
      rec_content_type r' = d ! 0 \<and> drop_bit 8 (rec_version r') = SSL3_VERSION_MAJOR \<and>
      rec_data_len r' = 5 + be_val (take 2 (drop 3 d))" if pos: "0 < ret"
  proof -
    obtain d where d: "rec_data r' = Some d" "rec_data_len r' \<le> length d" "take (rec_data_len r') d @ content w' = content w"
      "rec_data_len r' = 5 + rec_len r'" "ret = int (rec_data_len r')" "rec_fields r' = record_hdr (take 5 d)"
      "record_hdr_ok (rec_fields r')" using s n pos by (auto simp: recv_outcome_def)
    have "take 5 d ! 0 = d ! 0" "take 2 (drop 3 (take 5 d)) = take 2 (drop 3 d)"
      by (simp_all add: drop_take)
    then show ?thesis using d
      by (auto simp: rec_fields_def record_hdr_def record_hdr_ok_def TLS13_RECORD_MAX_LEN_def TLS13_RECORD_HEADER_LEN_def)
  qed
  have arrives: "ret = int (length rc) \<and> (\<exists>d. rec_data r' = Some d \<and> take (rec_data_len r') d = rc) \<and> content w' = rest"
    if h: "patient_source invar content read delay" "\<forall>n. alloc n" "delay w < k" "whole_record rc" "content w = rc @ rest"
  proof -
    have "rec_receiving rc r" using n tls13_record_new_type [OF assms(2)] tb_content_len [of "rec_buf r"]
      by (auto simp: rec_receiving_def rec_waiting_def)
    then have "0 < ret"
      using patient_source.record_recv_retry_arrives [OF h(1,4) _ assms(3), of r rest alloc k] n h(2,3,5) assms(4) by simp
    from sound [OF this] obtain d where d: "rec_data r' = Some d" "content w = take (rec_data_len r') d @ content w'"
      "ret = int (rec_data_len r')" "rec_data_len r' \<le> length d" "rec_data_len r' = 5 + be_val (take 2 (drop 3 d))" by blast
    have l5: "5 \<le> length rc" using h(4) by (simp add: whole_record_def)
    have st: "take (rec_data_len r') d @ content w' = rc @ rest" using d(2) h(5) by simp
    then have "take 5 (take (rec_data_len r') d @ content w') = take 5 (rc @ rest)" by (simp only:)
    then have "take 5 d = take 5 rc" using d(4,5) l5 by simp
    then have "take 2 (drop 3 (take 5 d)) = take 2 (drop 3 (take 5 rc))" by simp
    then have "take 2 (drop 3 d) = take 2 (drop 3 rc)" by (simp add: drop_take)
    then have len: "rec_data_len r' = length rc" using d(5) whole_record_len [OF h(4)] by (simp only:)
    then show ?thesis using st d(1,3,4) append_eq_append_conv [of "take (rec_data_len r') d" rc] by simp
  qed
  show ?thesis
  proof (intro conjI impI)
    show "if 0 < ret
      then (\<exists>d. rec_data r' = Some d \<and> content w = take (rec_data_len r') d @ content w' \<and>
             ret = int (rec_data_len r') \<and> rec_data_len r' \<le> TLS13_RECORD_MAX_LEN \<and>
             rec_content_type r' = d ! 0 \<and> drop_bit 8 (rec_version r') = SSL3_VERSION_MAJOR \<and>
             rec_data_len r' = 5 + be_val (take 2 (drop 3 d)))
      else rec_data r' = None \<and> content w = tb_content (rec_buf r') @ content w'"
    proof (cases "0 < ret")
      case True
      then show ?thesis using sound by auto
    next
      case False
      then show ?thesis using s n by (simp add: recv_outcome_def rec_waiting_def)
    qed
  qed (use arrives in blast)+
qed

text \<open>A record in three fragments, with a wait after each of the first two, and the first byte of the next one.\<close>

theorem record_recv_fragments_witness:
  "\<exists>r r' w' d. tls13_record_new (\<lambda>n. True) 0 0 = Some r \<and>
     recv_retry (tls13_record_recv (\<lambda>n. True) fragment_read) 3 r [Some [22, 3], None, Some [3, 0], None, Some [1, 9, 23]]
       = (6, r', w') \<and> rec_data r' = Some d \<and> take (rec_data_len r') d = [22, 3, 3, 0, 1, 9] \<and> fragment_bytes w' = [23]"
proof -
  let ?w = "[Some [22, 3], None, Some [3, 0], None, Some [1, 9, 23]]" and ?rc = "[22, 3, 3, 0, 1, 9]"
  obtain r where r: "tls13_record_new (\<lambda>n. True) 0 0 = Some r"
    by (simp add: tls13_record_new_def tls_buffer_new_def tls_buffer_resize_def TLS_BUFFER_CAPACITY_LIMIT_def
        TLS13_RECORD_MAX_LEN_def TLS13_RECORD_HEADER_LEN_def TLS13_RECORD_MAX_CIPHERTEXT_LEN_def Let_def)
  obtain ret r' w' where e: "recv_retry (tls13_record_recv (\<lambda>n. True) fragment_read) 3 r ?w = (ret, r', w')"
    by (metis prod_cases3)
  have "whole_record ?rc"
    by (simp add: whole_record_def record_hdr_def record_hdr_ok_def TLS13_RECORD_MAX_CIPHERTEXT_LEN_def
        SSL3_VERSION_MAJOR_def)
  moreover have "fragment_delay ?w = 2" "fragment_bytes ?w = ?rc @ [23]"
    by (simp_all add: fragment_delay_def fragment_bytes_def data_bytes_def)
  ultimately have "ret = 6 \<and> (\<exists>d. rec_data r' = Some d \<and> take (rec_data_len r') d = ?rc) \<and> fragment_bytes w' = [23]"
    using record_recv_fragments [OF fragments.byte_source_axioms r _ e, of fragment_delay ?rc "[23]"] fragments.patient_source_axioms
    by simp
  then show ?thesis using r e by blast
qed

text \<open>C30: a record is sent whole however little the transport takes at a time.  A call that
  succeeds has handed over all of it; a call that stops keeps exactly the bytes that are left
  for the next call.\<close>

theorem record_send_partial_writes:
  assumes "byte_sink invar content put" and "invar w" and "cbs_ok (rec_cbs r)" and "0 < rec_data_len r"
    and "rec_data r \<noteq> None" and "tls13_record_send put r w = (ret, r', w')"
  shows "content w @ cbs_view (rec_cbs r) = content w' @ cbs_view (rec_cbs r') \<and>
    (0 < ret \<longleftrightarrow> cbs_view (rec_cbs r') = [])"
proof -
  obtain res c w1 where e: "send_loop put (rec_cbs r) w = (res, c, w1)" by (metis prod_cases3)
  show ?thesis using byte_sink.send_loop_spec [OF assms(1,3,2) e] assms(4-6) e
    by (cases res) (auto simp: tls13_record_send_def)
qed

theorem record_send_partial_writes_witness:
  "\<exists>ret r' w'. tls13_record_send (tls_buffer_write (\<lambda>n. True))
     \<lparr>rec_version = 0, rec_content_type = 0, rec_len = 0, rec_data = Some [1, 2], rec_data_len = 2, rec_cbs = CBS_init [1, 2] 2,
      rec_buf = \<lparr>tb_capacity = 0, tb_capacity_limit = 9, tb_data = None, tb_len = 0, tb_offset = 0\<rparr>\<rparr>
     \<lparr>tb_capacity = 0, tb_capacity_limit = 9, tb_data = None, tb_len = 0, tb_offset = 0\<rparr> = (ret, r', w') \<and>
     [1, 2] = tb_content w' @ cbs_view (rec_cbs r')"
proof -
  let ?b = "\<lparr>tb_capacity = 0, tb_capacity_limit = 9, tb_data = None, tb_len = 0, tb_offset = 0\<rparr>"
  let ?r = "\<lparr>rec_version = 0, rec_content_type = 0, rec_len = 0, rec_data = Some [1, 2], rec_data_len = 2,
    rec_cbs = CBS_init [1, 2] 2, rec_buf = ?b\<rparr>"
  obtain ret r' w' where e: "tls13_record_send (tls_buffer_write (\<lambda>n. True)) ?r ?b = (ret, r', w')" by (metis prod_cases3)
  have "tb_ok ?b" "tb_content ?b = []" "cbs_ok (rec_cbs ?r)" "cbs_view (rec_cbs ?r) = [1, 2]"
    by (simp_all add: tb_ok_def tb_bytes_def tb_content_def CBS_init_def cbs_ok_def cbs_view_def)
  with record_send_partial_writes [OF tbq.sink.byte_sink_axioms _ _ _ _ e] e show ?thesis by simp
qed

lemma msg_start_build:
  "tls13_handshake_msg_start alloc base_size t m = (True, m1) \<Longrightarrow>
   CBB_add_bytes alloc 1 body (length body) (msg_cbb m1) = (True, s) \<Longrightarrow>
   CBB_finish alloc 0 (Some None) True s = (Some (d, n), s') \<Longrightarrow>
   cbb_run alloc base_size 256 [Uint_item W8 (unat t), Prefixed_item W24 [Bytes_item body]] = Some (d, n)"
  by (auto simp: tls13_handshake_msg_start_def cbb_run_def and_then_def TLS13_HANDSHAKE_MSG_INITIAL_LEN_def
      split: prod.splits if_splits)

text \<open>C31: handshake messages round trip.  A message built with \<open>tls13_handshake_msg_start\<close>, filled
  through its body, finished and sent is received with the same type and the same content, and
  the stream is left at the byte after it.\<close>

theorem handshake_msg_round_trip:
  assumes "tls13_handshake_msg_new alloc msg_size buf_size = Some m"
    and "tls13_handshake_msg_start alloc base_size t m = (True, m1)"
    and "CBB_add_bytes alloc 1 body (length body) (msg_cbb m1) = (True, s)"
    and "tls13_handshake_msg_finish alloc (m1\<lparr>msg_cbb := s\<rparr>) = (True, m2)"
    and "tls13_handshake_msg_send (tls_buffer_write alloc) m2 b = (ret, m3, b')" and "0 < ret"
    and "tb_ok b" and "tb_content b = []" and "length body \<le> TLS13_HANDSHAKE_MSG_MAX_LEN"
    and "tls13_handshake_msg_new alloc' msg_size buf_size = Some r"
  shows "\<exists>r' b'' c. tls13_handshake_msg_recv (\<lambda>n. True) tls_buffer_read r b' = (TLS13_IO_SUCCESS, r', b'') \<and>
    msg_type r' = t \<and> tls13_handshake_msg_content r' = (Some (), c) \<and> cbs_view c = body \<and> tb_content b'' = []"
proof -
  have "msg_data m = None" using tls13_handshake_msg_new_fresh [OF assms(1)] by (simp add: msg_fresh_def)
  then have m1: "msg_data m1 = None" using assms(2) by (auto simp: tls13_handshake_msg_start_def split: prod.splits)
  obtain d n s' where f: "CBB_finish alloc 0 (Some None) True s = (Some (d, n), s')"
    and m2: "msg_data m2 = Some d" "msg_data_len m2 = n" "msg_cbs m2 = CBS_init d n"
    using assms(4) m1 by (auto simp: tls13_handshake_msg_finish_def split: prod.splits option.splits)
  have small: "length body \<le> SIZE_MAX" "(256 :: nat) \<le> SIZE_MAX"
    using assms(9) by (simp_all add: SIZE_MAX_def TLS13_HANDSHAKE_MSG_MAX_LEN_def)
  have "items_bytes [Uint_item W8 (unat t), Prefixed_item W24 [Bytes_item body]] = Some (take n d) \<and> n \<le> length d"
    using cbb_run_sound [OF msg_start_build [OF assms(2,3) f]] small by simp
  then have d: "take n d = hs_bytes t body" and n: "n \<le> length d"
    by (auto simp: hs_bytes_def Option.bind_eq_Some_conv split: if_splits)
  have okc: "cbs_ok (CBS_init d n)" "cbs_view (CBS_init d n) = hs_bytes t body"
    using n d by (simp_all add: CBS_init_def cbs_ok_def cbs_view_def)
  obtain res c w1 where e: "send_loop (tls_buffer_write alloc) (CBS_init d n) b = (res, c, w1)" by (metis prod_cases3)
  note sp = tbq.sink.send_loop_spec [OF okc(1) assms(7) e]
  have "res = None" "w1 = b'" using assms(5,6) e m2 sp
    by (auto simp: tls13_handshake_msg_send_def TLS13_IO_FAILURE_def split: option.splits if_splits)
  then have b': "tb_ok b'" "tb_content b' = hs_bytes t body @ []" using sp okc(2) assms(8) by simp_all
  obtain r' b'' d' where r: "tls13_handshake_msg_recv (\<lambda>n. True) tls_buffer_read r b' = (TLS13_IO_SUCCESS, r', b'')"
    "msg_type r' = t" "msg_data r' = Some d'" "take (msg_data_len r') d' = hs_bytes t body"
    "msg_data_len r' \<le> length d'" "tb_content b'' = []"
    using tbq.msg_recv_ready [OF tls13_handshake_msg_new_fresh [OF assms(10)] b' assms(9) TrueI] by blast
  let ?c = "CBS_init d' (msg_data_len r')"
  have v: "cbs_view ?c = hs_bytes t body" and okc': "cbs_ok ?c"
    using r(4,5) by (simp_all add: CBS_init_def cbs_ok_def cbs_view_def)
  have l: "4 \<le> cbs_len ?c" using length_cbs_view [OF okc'] v by (simp add: hs_bytes_def)
  have "cbs_view (cbs_drop 4 ?c) = body" unfolding cbs_view_drop v by (simp add: hs_bytes_def)
  moreover have "tls13_handshake_msg_content r' = (Some (), cbs_drop 4 ?c)"
    using l r(3) by (simp add: tls13_handshake_msg_content_def tls13_handshake_msg_data_def data_bytes_def
        TLS13_HANDSHAKE_MSG_HEADER_LEN_def cbs_skip_eq)
  ultimately show ?thesis using r by blast
qed

theorem handshake_msg_round_trip_witness:
  "\<exists>r r' b' b'' c. tls13_handshake_msg_new (\<lambda>n. True) 0 0 = Some r \<and>
     tls13_handshake_msg_recv (\<lambda>n. True) tls_buffer_read r b' = (TLS13_IO_SUCCESS, r', b'') \<and>
     msg_type r' = 20 \<and> tls13_handshake_msg_content r' = (Some (), c) \<and> cbs_view c = [7, 8]"
proof -
  let ?al = "\<lambda>n :: nat. True"
  let ?b = "\<lparr>tb_capacity = 0, tb_capacity_limit = 100, tb_data = None, tb_len = 0, tb_offset = 0\<rparr>"
  let ?m = "the (tls13_handshake_msg_new ?al 0 0)"
  let ?m1 = "snd (tls13_handshake_msg_start ?al 0 20 ?m)"
  let ?s = "snd (CBB_add_bytes ?al 1 [7, 8] (length [7, 8 :: u8]) (msg_cbb ?m1))"
  let ?m2 = "snd (tls13_handshake_msg_finish ?al (?m1\<lparr>msg_cbb := ?s\<rparr>))"
  have m: "tls13_handshake_msg_new ?al 0 0 = Some ?m"
    by (simp add: tls13_handshake_msg_new_def tls_buffer_new_def tls_buffer_resize_def)
  have "fst (tls13_handshake_msg_start ?al 0 20 ?m)" by code_simp
  then have m1: "tls13_handshake_msg_start ?al 0 20 ?m = (True, ?m1)" by (simp add: prod_eq_iff)
  have "fst (CBB_add_bytes ?al 1 [7, 8] (length [7, 8 :: u8]) (msg_cbb ?m1))" by code_simp
  then have s: "CBB_add_bytes ?al 1 [7, 8] (length [7, 8 :: u8]) (msg_cbb ?m1) = (True, ?s)" by (simp add: prod_eq_iff)
  have "fst (tls13_handshake_msg_finish ?al (?m1\<lparr>msg_cbb := ?s\<rparr>))" by code_simp
  then have m2: "tls13_handshake_msg_finish ?al (?m1\<lparr>msg_cbb := ?s\<rparr>) = (True, ?m2)" by (simp add: prod_eq_iff)
  obtain ret m3 b' where e: "tls13_handshake_msg_send (tls_buffer_write ?al) ?m2 ?b = (ret, m3, b')" by (metis prod_cases3)
  have "0 < fst (tls13_handshake_msg_send (tls_buffer_write ?al) ?m2 ?b)" by code_simp
  then have pos: "0 < ret" using e by simp
  have "tb_ok ?b" "tb_content ?b = []" "length [7, 8 :: u8] \<le> TLS13_HANDSHAKE_MSG_MAX_LEN"
    by (simp_all add: tb_ok_def tb_bytes_def tb_content_def TLS13_HANDSHAKE_MSG_MAX_LEN_def)
  from handshake_msg_round_trip [OF m m1 s m2 e pos this m] m show ?thesis by blast
qed

end
