(* ===== verification/Tls13_handshake.thy ===== *)
theory Tls13_handshake
  imports Tls13_record
begin

unbundle bit_operations_syntax

text \<open>
  \<^verbatim>\<open>ssl/tls13_handshake.c\<close>: the TLSv1.3 handshake as a table-driven state machine.  The kind of
  handshake (\<open>hs_type\<close>, a set of flags) selects a row of \<open>handshakes\<close>, the message number selects
  the message in it, and \<open>state_machine\<close> says who sends that message and what happens around it.

  The handlers of the single messages (\<^verbatim>\<open>tls13_client.c\<close>, \<^verbatim>\<open>tls13_server.c\<close>), the record layer,
  the transcript and the callbacks of the application are the operations \<open>ops\<close>, a parameter.  They
  work on \<open>hx_env\<close>, the part of the context that this file does not look at; the handlers get the
  whole context, since they may change the kind of handshake or raise an alert.
\<close>

section \<open>Messages and the two tables\<close>

definition INITIAL :: u8 where "INITIAL = 0x00"
definition NEGOTIATED :: u8 where "NEGOTIATED = 0x01"
definition WITHOUT_HRR :: u8 where "WITHOUT_HRR = 0x02"
definition WITHOUT_CR :: u8 where "WITHOUT_CR = 0x04"
definition WITH_PSK :: u8 where "WITH_PSK = 0x08"
definition WITH_CCV :: u8 where "WITH_CCV = 0x10"
definition WITH_0RTT :: u8 where "WITH_0RTT = 0x20"

datatype tls13_message_type =
    INVALID | CLIENT_HELLO | SERVER_HELLO_RETRY_REQUEST | CLIENT_HELLO_RETRY | SERVER_HELLO
  | SERVER_ENCRYPTED_EXTENSIONS | SERVER_CERTIFICATE_REQUEST | SERVER_CERTIFICATE
  | SERVER_CERTIFICATE_VERIFY | SERVER_FINISHED | CLIENT_END_OF_EARLY_DATA | CLIENT_CERTIFICATE
  | CLIENT_CERTIFICATE_VERIFY | CLIENT_FINISHED | APPLICATION_DATA

text \<open>The value of the enumerator.\<close>

fun mt_index :: "tls13_message_type \<Rightarrow> nat" where
  "mt_index INVALID = 0" | "mt_index CLIENT_HELLO = 1" | "mt_index SERVER_HELLO_RETRY_REQUEST = 2"
| "mt_index CLIENT_HELLO_RETRY = 3" | "mt_index SERVER_HELLO = 4" | "mt_index SERVER_ENCRYPTED_EXTENSIONS = 5"
| "mt_index SERVER_CERTIFICATE_REQUEST = 6" | "mt_index SERVER_CERTIFICATE = 7"
| "mt_index SERVER_CERTIFICATE_VERIFY = 8" | "mt_index SERVER_FINISHED = 9"
| "mt_index CLIENT_END_OF_EARLY_DATA = 10" | "mt_index CLIENT_CERTIFICATE = 11"
| "mt_index CLIENT_CERTIFICATE_VERIFY = 12" | "mt_index CLIENT_FINISHED = 13" | "mt_index APPLICATION_DATA = 14"

definition TLS13_NUM_MESSAGE_TYPES :: nat where "TLS13_NUM_MESSAGE_TYPES = 15"

definition TLS13_HS_CLIENT :: u8 where "TLS13_HS_CLIENT = 1"
definition TLS13_HS_SERVER :: u8 where "TLS13_HS_SERVER = 2"

definition TLS13_MT_CLIENT_HELLO :: u8 where "TLS13_MT_CLIENT_HELLO = 1"
definition TLS13_MT_SERVER_HELLO :: u8 where "TLS13_MT_SERVER_HELLO = 2"
definition TLS13_MT_END_OF_EARLY_DATA :: u8 where "TLS13_MT_END_OF_EARLY_DATA = 5"
definition TLS13_MT_ENCRYPTED_EXTENSIONS :: u8 where "TLS13_MT_ENCRYPTED_EXTENSIONS = 8"
definition TLS13_MT_CERTIFICATE :: u8 where "TLS13_MT_CERTIFICATE = 11"
definition TLS13_MT_CERTIFICATE_REQUEST :: u8 where "TLS13_MT_CERTIFICATE_REQUEST = 13"
definition TLS13_MT_CERTIFICATE_VERIFY :: u8 where "TLS13_MT_CERTIFICATE_VERIFY = 15"
definition TLS13_MT_FINISHED :: u8 where "TLS13_MT_FINISHED = 20"

text \<open>The handlers of an entry are named by the message they belong to; \<open>act_has_sent\<close> says
  whether the entry has a \<^verbatim>\<open>sent\<close> handler.\<close>

record tls13_handshake_action =
  act_handshake_type :: u8
  act_sender :: u8
  act_handshake_complete :: bool
  act_send_preserve_transcript_hash :: bool
  act_recv_preserve_transcript_hash :: bool
  act_handlers :: tls13_message_type
  act_has_sent :: bool

definition message_action :: "u8 \<Rightarrow> u8 \<Rightarrow> bool \<Rightarrow> bool \<Rightarrow> bool \<Rightarrow> tls13_message_type \<Rightarrow> tls13_handshake_action" where
  "message_action type sender send_hash recv_hash has_sent mt =
     \<lparr>act_handshake_type = type, act_sender = sender, act_handshake_complete = False,
      act_send_preserve_transcript_hash = send_hash, act_recv_preserve_transcript_hash = recv_hash,
      act_handlers = mt, act_has_sent = has_sent\<rparr>"

fun state_machine :: "tls13_message_type \<Rightarrow> tls13_handshake_action" where
  "state_machine CLIENT_HELLO =
     message_action TLS13_MT_CLIENT_HELLO TLS13_HS_CLIENT False False True CLIENT_HELLO"
| "state_machine CLIENT_HELLO_RETRY =
     message_action TLS13_MT_CLIENT_HELLO TLS13_HS_CLIENT False False False CLIENT_HELLO_RETRY"
| "state_machine CLIENT_END_OF_EARLY_DATA =
     message_action TLS13_MT_END_OF_EARLY_DATA TLS13_HS_CLIENT False False False CLIENT_END_OF_EARLY_DATA"
| "state_machine CLIENT_CERTIFICATE =
     message_action TLS13_MT_CERTIFICATE TLS13_HS_CLIENT True False False CLIENT_CERTIFICATE"
| "state_machine CLIENT_CERTIFICATE_VERIFY =
     message_action TLS13_MT_CERTIFICATE_VERIFY TLS13_HS_CLIENT False True False CLIENT_CERTIFICATE_VERIFY"
| "state_machine CLIENT_FINISHED =
     message_action TLS13_MT_FINISHED TLS13_HS_CLIENT False True True CLIENT_FINISHED"
| "state_machine SERVER_HELLO =
     message_action TLS13_MT_SERVER_HELLO TLS13_HS_SERVER False False True SERVER_HELLO"
| "state_machine SERVER_HELLO_RETRY_REQUEST =
     message_action TLS13_MT_SERVER_HELLO TLS13_HS_SERVER False False True SERVER_HELLO_RETRY_REQUEST"
| "state_machine SERVER_ENCRYPTED_EXTENSIONS =
     message_action TLS13_MT_ENCRYPTED_EXTENSIONS TLS13_HS_SERVER False False False SERVER_ENCRYPTED_EXTENSIONS"
| "state_machine SERVER_CERTIFICATE =
     message_action TLS13_MT_CERTIFICATE TLS13_HS_SERVER True False False SERVER_CERTIFICATE"
| "state_machine SERVER_CERTIFICATE_REQUEST =
     message_action TLS13_MT_CERTIFICATE_REQUEST TLS13_HS_SERVER False False False SERVER_CERTIFICATE_REQUEST"
| "state_machine SERVER_CERTIFICATE_VERIFY =
     message_action TLS13_MT_CERTIFICATE_VERIFY TLS13_HS_SERVER False True False SERVER_CERTIFICATE_VERIFY"
| "state_machine SERVER_FINISHED =
     message_action TLS13_MT_FINISHED TLS13_HS_SERVER True True True SERVER_FINISHED"
| "state_machine APPLICATION_DATA =
     (message_action 0 0 False False False APPLICATION_DATA)\<lparr>act_handshake_complete := True\<rparr>"
| "state_machine INVALID = message_action 0 0 False False False INVALID"

text \<open>The rows of \<^verbatim>\<open>handshakes\<close>; the entries that the initialiser leaves out are 0, which is
  \<open>INVALID\<close>.\<close>

definition handshakes :: "u8 \<Rightarrow> tls13_message_type list" where
  "handshakes hs =
     (if hs = INITIAL then
        [CLIENT_HELLO, SERVER_HELLO_RETRY_REQUEST, CLIENT_HELLO_RETRY, SERVER_HELLO]
      else if hs = NEGOTIATED then
        [CLIENT_HELLO, SERVER_HELLO_RETRY_REQUEST, CLIENT_HELLO_RETRY, SERVER_HELLO, SERVER_ENCRYPTED_EXTENSIONS,
         SERVER_CERTIFICATE_REQUEST, SERVER_CERTIFICATE, SERVER_CERTIFICATE_VERIFY, SERVER_FINISHED,
         CLIENT_CERTIFICATE, CLIENT_FINISHED, APPLICATION_DATA]
      else if hs = NEGOTIATED OR WITHOUT_HRR then
        [CLIENT_HELLO, SERVER_HELLO, SERVER_ENCRYPTED_EXTENSIONS, SERVER_CERTIFICATE_REQUEST, SERVER_CERTIFICATE,
         SERVER_CERTIFICATE_VERIFY, SERVER_FINISHED, CLIENT_CERTIFICATE, CLIENT_FINISHED, APPLICATION_DATA]
      else if hs = NEGOTIATED OR WITHOUT_CR then
        [CLIENT_HELLO, SERVER_HELLO_RETRY_REQUEST, CLIENT_HELLO_RETRY, SERVER_HELLO, SERVER_ENCRYPTED_EXTENSIONS,
         SERVER_CERTIFICATE, SERVER_CERTIFICATE_VERIFY, SERVER_FINISHED, CLIENT_FINISHED, APPLICATION_DATA]
      else if hs = NEGOTIATED OR WITHOUT_HRR OR WITHOUT_CR then
        [CLIENT_HELLO, SERVER_HELLO, SERVER_ENCRYPTED_EXTENSIONS, SERVER_CERTIFICATE, SERVER_CERTIFICATE_VERIFY,
         SERVER_FINISHED, CLIENT_FINISHED, APPLICATION_DATA]
      else if hs = NEGOTIATED OR WITH_PSK then
        [CLIENT_HELLO, SERVER_HELLO_RETRY_REQUEST, CLIENT_HELLO_RETRY, SERVER_HELLO, SERVER_ENCRYPTED_EXTENSIONS,
         SERVER_FINISHED, CLIENT_FINISHED, APPLICATION_DATA]
      else if hs = NEGOTIATED OR WITHOUT_HRR OR WITH_PSK then
        [CLIENT_HELLO, SERVER_HELLO, SERVER_ENCRYPTED_EXTENSIONS, SERVER_FINISHED, CLIENT_FINISHED, APPLICATION_DATA]
      else if hs = NEGOTIATED OR WITH_CCV then
        [CLIENT_HELLO, SERVER_HELLO_RETRY_REQUEST, CLIENT_HELLO_RETRY, SERVER_HELLO, SERVER_ENCRYPTED_EXTENSIONS,
         SERVER_CERTIFICATE_REQUEST, SERVER_CERTIFICATE, SERVER_CERTIFICATE_VERIFY, SERVER_FINISHED,
         CLIENT_CERTIFICATE, CLIENT_CERTIFICATE_VERIFY, CLIENT_FINISHED, APPLICATION_DATA]
      else if hs = NEGOTIATED OR WITHOUT_HRR OR WITH_CCV then
        [CLIENT_HELLO, SERVER_HELLO, SERVER_ENCRYPTED_EXTENSIONS, SERVER_CERTIFICATE_REQUEST, SERVER_CERTIFICATE,
         SERVER_CERTIFICATE_VERIFY, SERVER_FINISHED, CLIENT_CERTIFICATE, CLIENT_CERTIFICATE_VERIFY,
         CLIENT_FINISHED, APPLICATION_DATA]
      else [])"

text \<open>The length of the table: the largest index, \<open>NEGOTIATED OR WITHOUT_HRR OR WITH_CCV\<close>, plus one.\<close>

definition handshake_count :: nat where "handshake_count = 20"

section \<open>The context\<close>

record 'e tls13_ctx =
  hx_mode :: u8
  hx_hs_type :: u8
  hx_message_number :: u8
  hx_handshake_started :: bool
  hx_handshake_completed :: bool
  hx_need_flush :: bool
  hx_send_dummy_ccs :: bool
  hx_send_dummy_ccs_after :: bool
  hx_hs_msg :: "tls13_handshake_msg option"
  hx_alert :: u8
  hx_legacy_state :: nat
  hx_env :: 'e

text \<open>\<open>op_msg_size\<close>, \<open>op_buf_size\<close> and \<open>op_cbb_size\<close> are the sizes of the structures allocated.\<close>

record 'e hs_ops =
  op_alloc :: "nat \<Rightarrow> bool"
  op_msg_size :: nat
  op_buf_size :: nat
  op_cbb_size :: nat
  op_flush :: "'e \<Rightarrow> int \<times> 'e"
  op_handshake_completed :: "'e \<Rightarrow> 'e"
  op_send_alert :: "u8 \<Rightarrow> 'e \<Rightarrow> int \<times> 'e"
  op_send_dummy_ccs :: "'e \<Rightarrow> int \<times> 'e"
  op_read_hs :: "'e read_cb"
  op_write_hs :: "'e write_cb"
  op_transcript_record :: "bytes \<Rightarrow> 'e \<Rightarrow> bool \<times> 'e"
  op_transcript_hash_value :: "'e \<Rightarrow> bool \<times> 'e"
  op_message_sent_cb :: "'e \<Rightarrow> 'e"
  op_message_recv_cb :: "'e \<Rightarrow> 'e"
  op_info_cb :: "nat \<Rightarrow> 'e \<Rightarrow> 'e"
  op_method_version :: "'e \<Rightarrow> u16"
  op_set_error_trailing :: "'e \<Rightarrow> 'e"
  op_send :: "tls13_message_type \<Rightarrow> 'e tls13_ctx \<Rightarrow> bool \<times> 'e tls13_ctx"
  op_sent :: "tls13_message_type \<Rightarrow> 'e tls13_ctx \<Rightarrow> bool \<times> 'e tls13_ctx"
  op_recv :: "tls13_message_type \<Rightarrow> cbs \<Rightarrow> 'e tls13_ctx \<Rightarrow> bool \<times> cbs \<times> 'e tls13_ctx"

definition on_env :: "('e \<Rightarrow> 'a \<times> 'e) \<Rightarrow> 'e tls13_ctx \<Rightarrow> 'a \<times> 'e tls13_ctx" where
  "on_env f ctx = (case f (hx_env ctx) of (r, e) \<Rightarrow> (r, ctx\<lparr>hx_env := e\<rparr>))"

section \<open>The position in the tables\<close>

definition tls13_handshake_active_state :: "'e tls13_ctx \<Rightarrow> tls13_message_type" where
  "tls13_handshake_active_state ctx =
     (if handshake_count \<le> unat (hx_hs_type ctx) then INVALID
      else if TLS13_NUM_MESSAGE_TYPES \<le> unat (hx_message_number ctx) then INVALID
      else (let row = handshakes (hx_hs_type ctx); n = unat (hx_message_number ctx) in
            if n < length row then row ! n else INVALID))"

definition tls13_handshake_active_action :: "'e tls13_ctx \<Rightarrow> tls13_handshake_action option" where
  "tls13_handshake_active_action ctx =
     (let mt = tls13_handshake_active_state ctx in if mt = INVALID then None else Some (state_machine mt))"

definition tls13_handshake_advance_state_machine :: "'e tls13_ctx \<Rightarrow> bool \<times> 'e tls13_ctx" where
  "tls13_handshake_advance_state_machine ctx =
     (let ctx = ctx\<lparr>hx_message_number := hx_message_number ctx + 1\<rparr> in
      (unat (hx_message_number ctx) < TLS13_NUM_MESSAGE_TYPES, ctx))"

definition tls13_handshake_end_of_flight :: "'e tls13_ctx \<Rightarrow> tls13_handshake_action \<Rightarrow> bool" where
  "tls13_handshake_end_of_flight ctx previous =
     (case tls13_handshake_active_action ctx of
        None \<Rightarrow> True
      | Some current \<Rightarrow> act_sender current \<noteq> act_sender previous)"

section \<open>The state shown to legacy callers\<close>

definition SSL_ST_CONNECT :: nat where "SSL_ST_CONNECT = 0x1000"
definition SSL_ST_ACCEPT :: nat where "SSL_ST_ACCEPT = 0x2000"
definition SSL_ST_OK :: nat where "SSL_ST_OK = 0x03"
definition TLS13_INFO_HANDSHAKE_STARTED :: nat where "TLS13_INFO_HANDSHAKE_STARTED = 0x10"
definition TLS13_INFO_HANDSHAKE_COMPLETED :: nat where "TLS13_INFO_HANDSHAKE_COMPLETED = 0x20"
definition TLS13_INFO_ACCEPT_LOOP :: nat where "TLS13_INFO_ACCEPT_LOOP = 0x2001"
definition TLS13_INFO_CONNECT_LOOP :: nat where "TLS13_INFO_CONNECT_LOOP = 0x1001"

text \<open>The pair of the state shown when receiving and when sending.\<close>

fun legacy_states :: "tls13_message_type \<Rightarrow> nat \<times> nat" where
  "legacy_states CLIENT_HELLO = (0x2110, 0x1110)"
| "legacy_states SERVER_HELLO_RETRY_REQUEST = (0x1120, 0x2130)"
| "legacy_states CLIENT_HELLO_RETRY = (0x2110, 0x1110)"
| "legacy_states SERVER_HELLO = (0x1120, 0x2130)"
| "legacy_states SERVER_CERTIFICATE_REQUEST = (0x1150, 0x2160)"
| "legacy_states SERVER_CERTIFICATE = (0x1130, 0x2140)"
| "legacy_states SERVER_FINISHED = (0x11D0, 0x21E0)"
| "legacy_states CLIENT_CERTIFICATE = (0x21A0, 0x1191)"
| "legacy_states CLIENT_FINISHED = (0x21C0, 0x11B0)"
| "legacy_states mt = (0, 0)"

definition tls13_handshake_legacy_state :: "'e tls13_ctx \<Rightarrow> nat option" where
  "tls13_handshake_legacy_state ctx =
     (if \<not> hx_handshake_started ctx then
        Some (if hx_mode ctx = TLS13_HS_CLIENT then SSL_ST_CONNECT else SSL_ST_ACCEPT)
      else if hx_handshake_completed ctx then Some SSL_ST_OK
      else (let mt = tls13_handshake_active_state ctx in
            if mt = INVALID then None
            else (case tls13_handshake_active_action ctx of
                    None \<Rightarrow> None
                  | Some action \<Rightarrow>
                      Some (if act_sender action = hx_mode ctx then snd (legacy_states mt)
                            else fst (legacy_states mt)))))"

definition tls13_handshake_info_position :: "'e tls13_ctx \<Rightarrow> nat" where
  "tls13_handshake_info_position ctx =
     (if \<not> hx_handshake_started ctx then TLS13_INFO_HANDSHAKE_STARTED
      else if hx_handshake_completed ctx then TLS13_INFO_HANDSHAKE_COMPLETED
      else if hx_mode ctx = TLS13_HS_CLIENT then TLS13_INFO_CONNECT_LOOP
      else TLS13_INFO_ACCEPT_LOOP)"

definition tls13_handshake_legacy_info_callback :: "'e hs_ops \<Rightarrow> 'e tls13_ctx \<Rightarrow> bool \<times> 'e tls13_ctx" where
  "tls13_handshake_legacy_info_callback ops ctx =
     (case tls13_handshake_legacy_state ctx of
        None \<Rightarrow> (False, ctx)
      | Some state \<Rightarrow>
          if state = 0 then (True, ctx)
          else (True, ctx\<lparr>hx_env := op_info_cb ops (tls13_handshake_info_position ctx) (hx_env ctx)\<rparr>))"

definition tls13_handshake_set_legacy_state :: "'e tls13_ctx \<Rightarrow> bool \<times> 'e tls13_ctx" where
  "tls13_handshake_set_legacy_state ctx =
     (case tls13_handshake_legacy_state ctx of
        None \<Rightarrow> (False, ctx)
      | Some state \<Rightarrow> if state = 0 then (True, ctx) else (True, ctx\<lparr>hx_legacy_state := state\<rparr>))"

section \<open>Sending a message\<close>

definition tls13_handshake_msg_record :: "'e hs_ops \<Rightarrow> tls13_handshake_msg \<Rightarrow> 'e tls13_ctx \<Rightarrow> bool \<times> 'e tls13_ctx" where
  "tls13_handshake_msg_record ops m ctx =
     (let cbs = tls13_handshake_msg_data m in
      on_env (op_transcript_record ops (take (CBS_len cbs) (CBS_data cbs))) ctx)"

text \<open>The message is built by the handler, in the \<open>cbb\<close> of \<^verbatim>\<open>ctx->hs_msg\<close>.\<close>

definition build_message :: "'e hs_ops \<Rightarrow> tls13_handshake_action \<Rightarrow> 'e tls13_ctx \<Rightarrow> bool \<times> 'e tls13_ctx" where
  "build_message ops action ctx =
     (case hx_hs_msg ctx of
        Some m \<Rightarrow> (True, ctx)
      | None \<Rightarrow>
          (case tls13_handshake_msg_new (op_alloc ops) (op_msg_size ops) (op_buf_size ops) of
             None \<Rightarrow> (False, ctx)
           | Some m \<Rightarrow>
               (case tls13_handshake_msg_start (op_alloc ops) (op_cbb_size ops) (act_handshake_type action) m of
                  (False, m) \<Rightarrow> (False, ctx\<lparr>hx_hs_msg := Some m\<rparr>)
                | (True, m) \<Rightarrow>
                    (case op_send ops (act_handlers action) (ctx\<lparr>hx_hs_msg := Some m\<rparr>) of
                       (False, ctx) \<Rightarrow> (False, ctx)
                     | (True, ctx) \<Rightarrow>
                         (case hx_hs_msg ctx of
                            None \<Rightarrow> (False, ctx)
                          | Some m \<Rightarrow>
                              (case tls13_handshake_msg_finish (op_alloc ops) m of
                                 (ok, m) \<Rightarrow> (ok, ctx\<lparr>hx_hs_msg := Some m\<rparr>)))))))"

text \<open>The ChangeCipherSpec a previous call could not send.  The result is what to return, or
  \<open>None\<close> to go on.\<close>

definition pending_dummy_ccs :: "'e hs_ops \<Rightarrow> 'e tls13_ctx \<Rightarrow> int option \<times> 'e tls13_ctx" where
  "pending_dummy_ccs ops ctx =
     (if \<not> hx_send_dummy_ccs ctx then (None, ctx)
      else (case on_env (op_send_dummy_ccs ops) ctx of
              (ret, ctx) \<Rightarrow>
                if ret \<noteq> TLS13_IO_SUCCESS then (Some ret, ctx)
                else (let ctx = ctx\<lparr>hx_send_dummy_ccs := False\<rparr> in
                      if hx_send_dummy_ccs_after ctx
                      then (Some TLS13_IO_SUCCESS, ctx\<lparr>hx_send_dummy_ccs_after := False\<rparr>)
                      else (None, ctx))))"

text \<open>What follows once the message has been written.\<close>

definition message_sent :: "'e hs_ops \<Rightarrow> tls13_handshake_action \<Rightarrow> tls13_handshake_msg \<Rightarrow> 'e tls13_ctx \<Rightarrow> int \<times> 'e tls13_ctx" where
  "message_sent ops action m ctx =
     (case tls13_handshake_msg_record ops m ctx of
        (False, ctx) \<Rightarrow> (TLS13_IO_FAILURE, ctx)
      | (True, ctx) \<Rightarrow>
     (case (if act_send_preserve_transcript_hash action then on_env (op_transcript_hash_value ops) ctx else (True, ctx)) of
        (False, ctx) \<Rightarrow> (TLS13_IO_FAILURE, ctx)
      | (True, ctx) \<Rightarrow>
          (let ctx = ctx\<lparr>hx_env := op_message_sent_cb ops (hx_env ctx), hx_hs_msg := None\<rparr> in
     (case (if act_has_sent action then op_sent ops (act_handlers action) ctx else (True, ctx)) of
        (False, ctx) \<Rightarrow> (TLS13_IO_FAILURE, ctx)
      | (True, ctx) \<Rightarrow>
          if hx_send_dummy_ccs_after ctx then
            (case on_env (op_send_dummy_ccs ops) (ctx\<lparr>hx_send_dummy_ccs := True\<rparr>) of
               (ret, ctx) \<Rightarrow>
                 if ret \<noteq> TLS13_IO_SUCCESS then (ret, ctx)
                 else (TLS13_IO_SUCCESS, ctx\<lparr>hx_send_dummy_ccs := False, hx_send_dummy_ccs_after := False\<rparr>))
          else (TLS13_IO_SUCCESS, ctx)))))"

definition tls13_handshake_send_action ::
    "'e hs_ops \<Rightarrow> tls13_handshake_action \<Rightarrow> 'e tls13_ctx \<Rightarrow> int \<times> 'e tls13_ctx" where
  "tls13_handshake_send_action ops action ctx =
     (case pending_dummy_ccs ops ctx of
        (Some ret, ctx) \<Rightarrow> (ret, ctx)
      | (None, ctx) \<Rightarrow>
     (case build_message ops action ctx of
        (False, ctx) \<Rightarrow> (TLS13_IO_FAILURE, ctx)
      | (True, ctx) \<Rightarrow>
     (case hx_hs_msg ctx of
        None \<Rightarrow> (TLS13_IO_FAILURE, ctx)
      | Some m \<Rightarrow>
          (case tls13_handshake_msg_send (op_write_hs ops) m (hx_env ctx) of
             (ret, m, e) \<Rightarrow>
               (let ctx = ctx\<lparr>hx_hs_msg := Some m, hx_env := e\<rparr> in
                if ret \<le> 0 then (ret, ctx) else message_sent ops action m ctx)))))"

section \<open>Receiving a message\<close>

definition TLS13_ALERT_UNEXPECTED_MESSAGE :: u8 where "TLS13_ALERT_UNEXPECTED_MESSAGE = 10"
definition TLS13_ALERT_DECODE_ERROR :: u8 where "TLS13_ALERT_DECODE_ERROR = 50"
definition TLS13_ALERT_USER_CANCELED :: u8 where "TLS13_ALERT_USER_CANCELED = 90"
definition TLS1_3_VERSION :: u16 where "TLS1_3_VERSION = 0x0304"

definition expected_message :: "tls13_handshake_action \<Rightarrow> u8 \<Rightarrow> bool" where
  "expected_message action type \<longleftrightarrow>
     \<not> (type \<noteq> act_handshake_type action \<and>
        (type \<noteq> TLS13_MT_CERTIFICATE \<or> act_handshake_type action \<noteq> TLS13_MT_CERTIFICATE_REQUEST))"

text \<open>The message is handed to its handler, which must read all of it.\<close>

definition handle_message :: "'e hs_ops \<Rightarrow> tls13_handshake_action \<Rightarrow> cbs \<Rightarrow> 'e tls13_ctx \<Rightarrow> int \<times> 'e tls13_ctx" where
  "handle_message ops action cbs ctx =
     (case (case op_recv ops (act_handlers action) cbs ctx of
              (False, cbs, ctx) \<Rightarrow> (TLS13_IO_FAILURE, ctx)
            | (True, cbs, ctx) \<Rightarrow>
                if CBS_len cbs \<noteq> 0 then
                  (TLS13_IO_FAILURE,
                   ctx\<lparr>hx_env := op_set_error_trailing ops (hx_env ctx), hx_alert := TLS13_ALERT_DECODE_ERROR\<rparr>)
                else if op_method_version ops (hx_env ctx) < TLS1_3_VERSION then (TLS13_IO_USE_LEGACY, ctx)
                else (TLS13_IO_SUCCESS, ctx)) of
        (ret, ctx) \<Rightarrow> (ret, ctx\<lparr>hx_hs_msg := None\<rparr>))"

definition message_received :: "'e hs_ops \<Rightarrow> tls13_handshake_action \<Rightarrow> tls13_handshake_msg \<Rightarrow> 'e tls13_ctx \<Rightarrow> int \<times> 'e tls13_ctx" where
  "message_received ops action m ctx =
     (case (if act_recv_preserve_transcript_hash action then on_env (op_transcript_hash_value ops) ctx else (True, ctx)) of
        (False, ctx) \<Rightarrow> (TLS13_IO_FAILURE, ctx)
      | (True, ctx) \<Rightarrow>
     (case tls13_handshake_msg_record ops m ctx of
        (False, ctx) \<Rightarrow> (TLS13_IO_FAILURE, ctx)
      | (True, ctx) \<Rightarrow>
          (let ctx = ctx\<lparr>hx_env := op_message_recv_cb ops (hx_env ctx)\<rparr> in
           if \<not> expected_message action (msg_type m)
           then on_env (op_send_alert ops TLS13_ALERT_UNEXPECTED_MESSAGE) ctx
           else (case tls13_handshake_msg_content m of
                   (None, _) \<Rightarrow> (TLS13_IO_FAILURE, ctx)
                 | (Some _, cbs) \<Rightarrow> handle_message ops action cbs ctx))))"

definition tls13_handshake_recv_action ::
    "'e hs_ops \<Rightarrow> tls13_handshake_action \<Rightarrow> 'e tls13_ctx \<Rightarrow> int \<times> 'e tls13_ctx" where
  "tls13_handshake_recv_action ops action ctx =
     (case (case hx_hs_msg ctx of
              None \<Rightarrow> tls13_handshake_msg_new (op_alloc ops) (op_msg_size ops) (op_buf_size ops)
            | Some m \<Rightarrow> Some m) of
        None \<Rightarrow> (TLS13_IO_FAILURE, ctx)
      | Some m \<Rightarrow>
          (case tls13_handshake_msg_recv (op_alloc ops) (op_read_hs ops) m (hx_env ctx) of
             (ret, m, e) \<Rightarrow>
               (let ctx = ctx\<lparr>hx_hs_msg := Some m, hx_env := e\<rparr> in
                if ret \<le> 0 then (ret, ctx) else message_received ops action m ctx)))"

section \<open>Performing the handshake\<close>

text \<open>One turn of the loop: \<open>Inl\<close> the value to return, or \<open>Inr\<close> to go round again.  It sends what was
  held back, and then it either ends the handshake or deals with one message and moves on to the next.\<close>

definition flush_pending :: "'e hs_ops \<Rightarrow> 'e tls13_ctx \<Rightarrow> int option \<times> 'e tls13_ctx" where
  "flush_pending ops ctx =
     (if hx_need_flush ctx then
        (case on_env (op_flush ops) ctx of
           (ret, ctx) \<Rightarrow>
             if ret \<noteq> TLS13_IO_SUCCESS then (Some ret, ctx) else (None, ctx\<lparr>hx_need_flush := False\<rparr>))
      else (None, ctx))"

definition complete_handshake :: "'e hs_ops \<Rightarrow> 'e tls13_ctx \<Rightarrow> int \<times> 'e tls13_ctx" where
  "complete_handshake ops ctx =
     (let ctx = ctx\<lparr>hx_handshake_completed := True, hx_env := op_handshake_completed ops (hx_env ctx)\<rparr> in
      case and_then (tls13_handshake_set_legacy_state ctx) (tls13_handshake_legacy_info_callback ops) of
        (ok, ctx) \<Rightarrow> (if ok then TLS13_IO_SUCCESS else TLS13_IO_FAILURE, ctx))"

definition next_message :: "'e hs_ops \<Rightarrow> tls13_handshake_action \<Rightarrow> bool \<Rightarrow> 'e tls13_ctx \<Rightarrow> bool \<times> 'e tls13_ctx" where
  "next_message ops action sending ctx =
     (case and_then (tls13_handshake_legacy_info_callback ops ctx) tls13_handshake_advance_state_machine of
        (False, ctx) \<Rightarrow> (False, ctx)
      | (True, ctx) \<Rightarrow>
          tls13_handshake_set_legacy_state
            (if sending then ctx\<lparr>hx_need_flush := tls13_handshake_end_of_flight ctx action\<rparr> else ctx))"

definition message_turn ::
    "'e hs_ops \<Rightarrow> tls13_handshake_action \<Rightarrow> 'e tls13_ctx \<Rightarrow> (int, unit) sum \<times> 'e tls13_ctx" where
  "message_turn ops action ctx =
     (let sending = (act_sender action = hx_mode ctx) in
      if hx_alert ctx \<noteq> 0 then (case on_env (op_send_alert ops (hx_alert ctx)) ctx of (ret, ctx) \<Rightarrow> (Inl ret, ctx))
      else
        (case (if sending then tls13_handshake_send_action ops action ctx
               else tls13_handshake_recv_action ops action ctx) of
           (ret, ctx) \<Rightarrow>
             if hx_alert ctx \<noteq> 0 then (case on_env (op_send_alert ops (hx_alert ctx)) ctx of (ret, ctx) \<Rightarrow> (Inl ret, ctx))
             else if ret \<le> 0 then (Inl ret, ctx)
             else (case next_message ops action sending ctx of
                     (ok, ctx) \<Rightarrow> (if ok then Inr () else Inl TLS13_IO_FAILURE, ctx))))"

definition perform_step :: "'e hs_ops \<Rightarrow> 'e tls13_ctx \<Rightarrow> (int, unit) sum \<times> 'e tls13_ctx" where
  "perform_step ops ctx =
     (case tls13_handshake_active_action ctx of
        None \<Rightarrow> (Inl TLS13_IO_FAILURE, ctx)
      | Some action \<Rightarrow>
          (case flush_pending ops ctx of
             (Some ret, ctx) \<Rightarrow> (Inl ret, ctx)
           | (None, ctx) \<Rightarrow>
               if act_handshake_complete action
               then (case complete_handshake ops ctx of (ret, ctx) \<Rightarrow> (Inl ret, ctx))
               else message_turn ops action ctx))"

text \<open>The \<^verbatim>\<open>for (;;)\<close>, with a bound on its turns; \<open>None\<close> is a loop that has used it up.\<close>

fun perform_loop :: "nat \<Rightarrow> 'e hs_ops \<Rightarrow> 'e tls13_ctx \<Rightarrow> (int \<times> 'e tls13_ctx) option" where
  "perform_loop 0 ops ctx = None"
| "perform_loop (Suc n) ops ctx =
     (case perform_step ops ctx of
        (Inl ret, ctx) \<Rightarrow> Some (ret, ctx)
      | (Inr _, ctx) \<Rightarrow> perform_loop n ops ctx)"

definition tls13_handshake_perform :: "nat \<Rightarrow> 'e hs_ops \<Rightarrow> 'e tls13_ctx \<Rightarrow> (int \<times> 'e tls13_ctx) option" where
  "tls13_handshake_perform fuel ops ctx =
     (if hx_handshake_started ctx then perform_loop fuel ops ctx
      else
        (case and_then (tls13_handshake_set_legacy_state ctx) (\<lambda>ctx.
              and_then (tls13_handshake_legacy_info_callback ops ctx) (\<lambda>ctx.
              tls13_handshake_set_legacy_state (ctx\<lparr>hx_handshake_started := True\<rparr>))) of
           (False, ctx) \<Rightarrow> Some (TLS13_IO_FAILURE, ctx)
         | (True, ctx) \<Rightarrow> perform_loop fuel ops ctx))"

section \<open>What the operations may change\<close>

text \<open>The handlers may change the kind of handshake, the alert, the ChangeCipherSpec flags, the
  message under construction and the environment, but not the position in the state machine; and none of them
  raises the alert \<open>user_canceled\<close>, which is no error.\<close>

definition same_position :: "'e tls13_ctx \<Rightarrow> 'e tls13_ctx \<Rightarrow> bool" where
  "same_position a b \<longleftrightarrow> hx_mode b = hx_mode a \<and> hx_message_number b = hx_message_number a \<and>
     hx_handshake_started b = hx_handshake_started a \<and> hx_handshake_completed b = hx_handshake_completed a \<and>
     hx_need_flush b = hx_need_flush a \<and>
     (hx_alert a \<noteq> TLS13_ALERT_USER_CANCELED \<longrightarrow> hx_alert b \<noteq> TLS13_ALERT_USER_CANCELED)"

definition handlers_keep :: "'e hs_ops \<Rightarrow> bool" where
  "handlers_keep ops \<longleftrightarrow>
     (\<forall>mt ctx ok ctx'. op_send ops mt ctx = (ok, ctx') \<longrightarrow> same_position ctx ctx') \<and>
     (\<forall>mt ctx ok ctx'. op_sent ops mt ctx = (ok, ctx') \<longrightarrow> same_position ctx ctx') \<and>
     (\<forall>mt cbs ctx ok cbs' ctx'. op_recv ops mt cbs ctx = (ok, cbs', ctx') \<longrightarrow> same_position ctx ctx')"

text \<open>Sending an alert that reports an error is no success: of the alerts only \<open>close_notify\<close>, whose number 0
  stands for no alert in the context, and \<open>user_canceled\<close> leave the connection open.\<close>

definition alerts_fail :: "'e hs_ops \<Rightarrow> bool" where
  "alerts_fail ops \<longleftrightarrow> (\<forall>al e. al \<noteq> 0 \<longrightarrow> al \<noteq> TLS13_ALERT_USER_CANCELED \<longrightarrow> fst (op_send_alert ops al e) \<le> 0)"

lemma handlers_keepD:
  assumes "handlers_keep ops"
  shows "op_send ops mt ctx = (ok, ctx') \<Longrightarrow> same_position ctx ctx'"
    and "op_sent ops mt ctx = (ok, ctx') \<Longrightarrow> same_position ctx ctx'"
    and "op_recv ops mt cbs ctx = (ok, cbs', ctx') \<Longrightarrow> same_position ctx ctx'"
  using assms unfolding handlers_keep_def by blast+

lemma same_position_refl [simp]: "same_position a a"
  by (simp add: same_position_def)

lemma same_position_trans: "same_position a b \<Longrightarrow> same_position b c \<Longrightarrow> same_position a c"
  by (simp add: same_position_def)

lemma same_position_upd [simp]:
  "same_position a (b\<lparr>hx_env := e\<rparr>) = same_position a b" "same_position a (b\<lparr>hx_hs_msg := m\<rparr>) = same_position a b"
  "same_position a (b\<lparr>hx_legacy_state := st\<rparr>) = same_position a b"
  "same_position a (b\<lparr>hx_send_dummy_ccs := x\<rparr>) = same_position a b"
  "same_position a (b\<lparr>hx_send_dummy_ccs_after := x\<rparr>) = same_position a b"
  "same_position (a\<lparr>hx_env := e\<rparr>) b = same_position a b" "same_position (a\<lparr>hx_hs_msg := m\<rparr>) b = same_position a b"
  "same_position (a\<lparr>hx_send_dummy_ccs := x\<rparr>) b = same_position a b"
  "same_position (a\<lparr>hx_send_dummy_ccs_after := x\<rparr>) b = same_position a b"
  by (simp_all add: same_position_def)

lemma same_position_alert:
  "same_position a b \<Longrightarrow> same_position a (b\<lparr>hx_alert := TLS13_ALERT_DECODE_ERROR\<rparr>)"
  by (simp add: same_position_def TLS13_ALERT_DECODE_ERROR_def TLS13_ALERT_USER_CANCELED_def)

lemma on_env_keep: "on_env f ctx = (r, ctx') \<Longrightarrow> same_position ctx ctx'"
  by (auto simp: on_env_def split: prod.splits)

lemma pending_dummy_ccs_keep: "pending_dummy_ccs ops ctx = (r, ctx') \<Longrightarrow> same_position ctx ctx'"
  by (auto simp: pending_dummy_ccs_def Let_def dest!: on_env_keep split: prod.splits if_splits)

lemma msg_record_keep: "tls13_handshake_msg_record ops m ctx = (r, ctx') \<Longrightarrow> same_position ctx ctx'"
  by (auto simp: tls13_handshake_msg_record_def Let_def dest: on_env_keep)

lemma build_message_keep:
  assumes "handlers_keep ops" and "build_message ops action ctx = (r, ctx')"
  shows "same_position ctx ctx'"
  using assms(2)
  by (auto simp: build_message_def dest!: handlers_keepD(1) [OF assms(1)]
      split: option.splits prod.splits bool.splits)

lemma hash_keep:
  "(if b then on_env f ctx else (True, ctx)) = (r, ctx') \<Longrightarrow> same_position ctx ctx'"
  by (auto dest: on_env_keep split: if_splits)

lemma sent_keep:
  assumes "handlers_keep ops" and "(if b then op_sent ops mt ctx else (True, ctx)) = (r, ctx')"
  shows "same_position ctx ctx'"
  using assms(2) by (auto dest!: handlers_keepD(2) [OF assms(1)] split: if_splits)

lemma message_sent_keep:
  assumes "handlers_keep ops" and "message_sent ops action m ctx = (r, ctx')"
  shows "same_position ctx ctx'"
proof -
  obtain o1 c1 where 1: "tls13_handshake_msg_record ops m ctx = (o1, c1)" by fastforce
  obtain o2 c2 where 2: "(if act_send_preserve_transcript_hash action then on_env (op_transcript_hash_value ops) c1
      else (True, c1)) = (o2, c2)" by fastforce
  let ?c = "c2\<lparr>hx_env := op_message_sent_cb ops (hx_env c2), hx_hs_msg := None\<rparr>"
  obtain o3 c3 where 3: "(if act_has_sent action then op_sent ops (act_handlers action) ?c else (True, ?c)) = (o3, c3)"
    by fastforce
  obtain r4 c4 where 4: "on_env (op_send_dummy_ccs ops) (c3\<lparr>hx_send_dummy_ccs := True\<rparr>) = (r4, c4)" by fastforce
  have k1: "same_position ctx c1" by (rule msg_record_keep [OF 1])
  have k2: "same_position ctx c2" by (rule same_position_trans [OF k1 hash_keep [OF 2]])
  have k3: "same_position ctx c3" using same_position_trans [OF k2, of c3] sent_keep [OF assms(1) 3] by simp
  have k4: "same_position ctx c4" using same_position_trans [OF k3, of c4] on_env_keep [OF 4] by simp
  note k1 k2 k3 k4
  then show ?thesis using assms(2) 4
    by (cases o1; cases o2; cases o3) (auto simp: message_sent_def 1 2 3 Let_def split: if_splits)
qed

lemma send_action_keep:
  assumes "handlers_keep ops" and "tls13_handshake_send_action ops action ctx = (r, ctx')"
  shows "same_position ctx ctx'"
proof -
  obtain x c1 where 1: "pending_dummy_ccs ops ctx = (x, c1)" by fastforce
  obtain o2 c2 where 2: "build_message ops action c1 = (o2, c2)" by fastforce
  have k: "same_position ctx c1" "same_position ctx c2"
    using pending_dummy_ccs_keep [OF 1] build_message_keep [OF assms(1) 2] same_position_trans by auto
  show ?thesis using assms(2) k
    by (auto simp: tls13_handshake_send_action_def 1 2 Let_def dest!: message_sent_keep [OF assms(1)]
        intro: same_position_trans split: option.splits bool.splits prod.splits if_splits)
qed

lemma handle_message_keep:
  assumes "handlers_keep ops" and "handle_message ops action cbs ctx = (r, ctx')"
  shows "same_position ctx ctx'"
proof -
  obtain o1 cbs1 c1 where 1: "op_recv ops (act_handlers action) cbs ctx = (o1, cbs1, c1)" by (metis prod_cases3)
  show ?thesis using assms(2) handlers_keepD(3) [OF assms(1) 1]
    by (cases o1) (auto simp: handle_message_def 1 same_position_alert split: if_splits)
qed

lemma message_received_keep:
  assumes "handlers_keep ops" and "message_received ops action m ctx = (r, ctx')"
  shows "same_position ctx ctx'"
proof -
  obtain o1 c1 where 1: "(if act_recv_preserve_transcript_hash action then on_env (op_transcript_hash_value ops) ctx
      else (True, ctx)) = (o1, c1)" by fastforce
  obtain o2 c2 where 2: "tls13_handshake_msg_record ops m c1 = (o2, c2)" by fastforce
  have k: "same_position ctx c1" "same_position ctx c2"
    using hash_keep [OF 1] msg_record_keep [OF 2] same_position_trans by auto
  show ?thesis using assms(2) k
    by (cases o1; cases o2)
      (auto simp: message_received_def 1 2 Let_def dest!: handle_message_keep [OF assms(1)] on_env_keep
        intro: same_position_trans split: option.splits prod.splits if_splits)
qed

lemma recv_action_keep:
  assumes "handlers_keep ops" and "tls13_handshake_recv_action ops action ctx = (r, ctx')"
  shows "same_position ctx ctx'"
  using assms(2)
  by (auto simp: tls13_handshake_recv_action_def Let_def dest!: message_received_keep [OF assms(1)]
      split: option.splits prod.splits if_splits)

lemma alert_keep:
  assumes "alerts_fail ops" and "al \<noteq> 0" and "al \<noteq> TLS13_ALERT_USER_CANCELED"
    and "on_env (op_send_alert ops al) ctx = (ret, ctx')"
  shows "ret \<le> 0 \<and> same_position ctx ctx'"
  using assms(1-3) on_env_keep [OF assms(4)] assms(4) unfolding alerts_fail_def on_env_def
  by (auto split: prod.splits) (metis fst_conv)

lemma set_legacy_state_keep: "tls13_handshake_set_legacy_state ctx = (r, ctx') \<Longrightarrow>
    same_position ctx ctx' \<and> hx_hs_type ctx' = hx_hs_type ctx \<and> hx_alert ctx' = hx_alert ctx"
  by (auto simp: tls13_handshake_set_legacy_state_def split: option.splits if_splits)

lemma info_callback_keep: "tls13_handshake_legacy_info_callback ops ctx = (r, ctx') \<Longrightarrow>
    same_position ctx ctx' \<and> hx_hs_type ctx' = hx_hs_type ctx \<and> hx_alert ctx' = hx_alert ctx"
  by (auto simp: tls13_handshake_legacy_info_callback_def split: option.splits if_splits)

section \<open>One turn of the loop\<close>

lemma active_state_cong: "hx_hs_type a = hx_hs_type b \<Longrightarrow> hx_message_number a = hx_message_number b \<Longrightarrow>
    tls13_handshake_active_state a = tls13_handshake_active_state b"
  by (simp add: tls13_handshake_active_state_def)

lemma active_action_SomeD: "tls13_handshake_active_action ctx = Some action \<Longrightarrow>
    tls13_handshake_active_state ctx \<noteq> INVALID \<and> action = state_machine (tls13_handshake_active_state ctx) \<and>
    unat (hx_message_number ctx) < TLS13_NUM_MESSAGE_TYPES"
  by (auto simp: tls13_handshake_active_action_def tls13_handshake_active_state_def Let_def split: if_splits)

lemma complete_action: "mt \<noteq> INVALID \<Longrightarrow> act_handshake_complete (state_machine mt) \<longleftrightarrow> mt = APPLICATION_DATA"
  by (cases mt) (simp_all add: message_action_def)

lemma flush_keep:
  assumes "flush_pending ops ctx = (r, ctx')"
  shows "hx_mode ctx' = hx_mode ctx \<and> hx_message_number ctx' = hx_message_number ctx \<and> hx_hs_type ctx' = hx_hs_type ctx \<and>
    hx_handshake_completed ctx' = hx_handshake_completed ctx \<and> hx_handshake_started ctx' = hx_handshake_started ctx \<and>
    hx_alert ctx' = hx_alert ctx \<and> (r = None \<longrightarrow> \<not> hx_need_flush ctx') \<and> r \<noteq> Some TLS13_IO_SUCCESS"
  using assms by (auto simp: flush_pending_def on_env_def split: if_splits prod.splits)

lemma complete_keep:
  assumes "complete_handshake ops ctx = (ret, ctx')"
  shows "ret = TLS13_IO_SUCCESS \<and> hx_handshake_completed ctx' \<and> hx_need_flush ctx' = hx_need_flush ctx \<and>
    tls13_handshake_active_state ctx' = tls13_handshake_active_state ctx"
proof -
  have "ret = TLS13_IO_SUCCESS \<and> hx_handshake_completed ctx' \<and> hx_need_flush ctx' = hx_need_flush ctx \<and>
      hx_hs_type ctx' = hx_hs_type ctx \<and> hx_message_number ctx' = hx_message_number ctx"
    using assms by (auto simp: complete_handshake_def Let_def and_then_def tls13_handshake_set_legacy_state_def
        tls13_handshake_legacy_info_callback_def tls13_handshake_legacy_state_def SSL_ST_OK_def
        SSL_ST_CONNECT_def SSL_ST_ACCEPT_def split: if_splits)
  then show ?thesis by (auto intro: active_state_cong)
qed

lemma unat_succ_u8: "unat (n :: u8) < 15 \<Longrightarrow> unat (n + 1) = unat n + 1"
  by (simp add: unat_word_ariths)

lemma next_message_keep:
  assumes "next_message ops action sending ctx = (ok, ctx')" and "unat (hx_message_number ctx) < TLS13_NUM_MESSAGE_TYPES"
  shows "hx_handshake_completed ctx' = hx_handshake_completed ctx \<and> hx_alert ctx' = hx_alert ctx \<and>
    (ok \<longrightarrow> unat (hx_message_number ctx') = unat (hx_message_number ctx) + 1 \<and>
       unat (hx_message_number ctx') < TLS13_NUM_MESSAGE_TYPES)"
proof -
  obtain o1 c1 where 1: "tls13_handshake_legacy_info_callback ops ctx = (o1, c1)" by fastforce
  obtain o2 c2 where 2: "tls13_handshake_advance_state_machine c1 = (o2, c2)" by fastforce
  let ?c2 = "if sending then c2\<lparr>hx_need_flush := tls13_handshake_end_of_flight c2 action\<rparr> else c2"
  obtain o3 c3 where 3: "tls13_handshake_set_legacy_state ?c2 = (o3, c3)" by fastforce
  have c1: "hx_handshake_completed c1 = hx_handshake_completed ctx" "hx_alert c1 = hx_alert ctx"
      "hx_message_number c1 = hx_message_number ctx"
    using info_callback_keep [OF 1] by (simp_all add: same_position_def)
  have c2: "hx_handshake_completed c2 = hx_handshake_completed ctx" "hx_alert c2 = hx_alert ctx"
      "hx_message_number c2 = hx_message_number ctx + 1" "o2 \<longleftrightarrow> unat (hx_message_number ctx + 1) < TLS13_NUM_MESSAGE_TYPES"
    using 2 c1 by (auto simp: tls13_handshake_advance_state_machine_def Let_def)
  have c3: "hx_handshake_completed c3 = hx_handshake_completed ctx" "hx_alert c3 = hx_alert ctx"
      "hx_message_number c3 = hx_message_number ctx + 1"
    using set_legacy_state_keep [OF 3] c2 by (auto simp: same_position_def split: if_splits)
  have "(ok, ctx') = (if \<not> o1 then (False, c1) else if \<not> o2 then (False, c2) else (o3, c3))"
    using assms(1) 3 by (cases o1; cases o2) (simp_all add: next_message_def 1 2)
  then show ?thesis
    using c1 c2 c3 unat_succ_u8 [of "hx_message_number ctx"] assms(2)
    by (cases o1; cases o2) (simp_all add: TLS13_NUM_MESSAGE_TYPES_def)
qed

text \<open>A turn that completes the handshake returns success; a turn that goes on has moved one
  message further.\<close>

definition turn_ok :: "'e tls13_ctx \<Rightarrow> (int, unit) sum \<Rightarrow> 'e tls13_ctx \<Rightarrow> bool" where
  "turn_ok ctx res ctx' \<longleftrightarrow>
     (case res of
        Inl r \<Rightarrow> (r = TLS13_IO_SUCCESS \<longleftrightarrow> hx_handshake_completed ctx') \<and>
          (hx_handshake_completed ctx' \<longrightarrow>
             tls13_handshake_active_state ctx' = APPLICATION_DATA \<and> \<not> hx_need_flush ctx')
      | Inr _ \<Rightarrow> \<not> hx_handshake_completed ctx' \<and> unat (hx_message_number ctx) < TLS13_NUM_MESSAGE_TYPES \<and>
          unat (hx_message_number ctx') = unat (hx_message_number ctx) + 1 \<and>
          unat (hx_message_number ctx') < TLS13_NUM_MESSAGE_TYPES \<and> hx_alert ctx' \<noteq> TLS13_ALERT_USER_CANCELED)"

lemma message_turn_ok:
  assumes "handlers_keep ops" and "alerts_fail ops" and "\<not> hx_handshake_completed ctx"
    and "hx_alert ctx \<noteq> TLS13_ALERT_USER_CANCELED"
    and "unat (hx_message_number ctx) < TLS13_NUM_MESSAGE_TYPES" and "message_turn ops action ctx = (res, ctx')"
  shows "turn_ok ctx res ctx'"
proof (cases "hx_alert ctx = 0")
  case True
  obtain ret c2 where 2: "(if act_sender action = hx_mode ctx then tls13_handshake_send_action ops action ctx
      else tls13_handshake_recv_action ops action ctx) = (ret, c2)" by fastforce
  have k: "same_position ctx c2"
    using 2 send_action_keep [OF assms(1)] recv_action_keep [OF assms(1)] by (auto split: if_splits)
  obtain ok c3 where 3: "next_message ops action (act_sender action = hx_mode ctx) c2 = (ok, c3)" by fastforce
  obtain al c4 where 4: "on_env (op_send_alert ops (hx_alert c2)) c2 = (al, c4)" by fastforce
  have "(res, ctx') = (if hx_alert c2 \<noteq> 0 then (Inl al, c4) else if ret \<le> 0 then (Inl ret, c2)
      else (if ok then Inr () else Inl TLS13_IO_FAILURE, c3))"
    using assms(6) True by (simp add: message_turn_def Let_def 2 3 4 split: if_splits)
  then show ?thesis
    using k next_message_keep [OF 3] alert_keep [OF assms(2) _ _ 4] assms(3-5)
    by (auto simp: turn_ok_def same_position_def TLS13_IO_FAILURE_def TLS13_IO_SUCCESS_def split: if_splits)
next
  case False
  obtain al c4 where "on_env (op_send_alert ops (hx_alert ctx)) ctx = (al, c4)" by fastforce
  with alert_keep [OF assms(2) False assms(4) this] False assms(3,6) show ?thesis
    by (auto simp: message_turn_def Let_def turn_ok_def same_position_def TLS13_IO_SUCCESS_def)
qed

lemma perform_step_turn:
  assumes "handlers_keep ops" and "alerts_fail ops" and "\<not> hx_handshake_completed ctx"
    and "hx_alert ctx \<noteq> TLS13_ALERT_USER_CANCELED" and "perform_step ops ctx = (res, ctx')"
  shows "turn_ok ctx res ctx'"
proof (cases "tls13_handshake_active_action ctx")
  case None
  then have "res = Inl TLS13_IO_FAILURE \<and> ctx' = ctx" using assms(5) by (simp add: perform_step_def)
  then show ?thesis using assms(3) by (simp add: turn_ok_def TLS13_IO_FAILURE_def TLS13_IO_SUCCESS_def)
next
  case (Some action)
  note ac = active_action_SomeD [OF Some]
  obtain x c1 where 1: "flush_pending ops ctx = (x, c1)" by fastforce
  obtain ret c2 where 2: "complete_handshake ops c1 = (ret, c2)" by fastforce
  note k1 = flush_keep [OF 1]
  have "turn_ok c1 res ctx' \<longleftrightarrow> turn_ok ctx res ctx'" using k1 by (cases res) (simp_all add: turn_ok_def)
  then have turn: "turn_ok ctx res ctx'" if "x = None" "\<not> act_handshake_complete action"
    using message_turn_ok [OF assms(1,2), of c1 action] assms(3-5) k1 ac that by (simp add: perform_step_def Some 1)
  have "tls13_handshake_active_state c1 = tls13_handshake_active_state ctx" using k1 by (intro active_state_cong) simp_all
  then show ?thesis
    using assms(3,5) k1 complete_keep [OF 2] ac complete_action turn
    by (cases x; cases "act_handshake_complete action") (simp_all add: perform_step_def Some 1 2, auto simp: turn_ok_def)
qed

section \<open>The whole handshake\<close>

lemma perform_loop_returns:
  assumes "handlers_keep ops" and "alerts_fail ops" and "\<not> hx_handshake_completed ctx"
    and "hx_alert ctx \<noteq> TLS13_ALERT_USER_CANCELED"
    and "0 < n" and "TLS13_NUM_MESSAGE_TYPES \<le> unat (hx_message_number ctx) + n"
  shows "\<exists>ret ctx'. perform_loop n ops ctx = Some (ret, ctx') \<and>
    (ret = TLS13_IO_SUCCESS \<longleftrightarrow> hx_handshake_completed ctx') \<and>
    (hx_handshake_completed ctx' \<longrightarrow> tls13_handshake_active_state ctx' = APPLICATION_DATA \<and> \<not> hx_need_flush ctx')"
  using assms(3-6)
proof (induction n arbitrary: ctx)
  case (Suc n)
  obtain res ctx' where s: "perform_step ops ctx = (res, ctx')" by fastforce
  have turn: "turn_ok ctx res ctx'" by (rule perform_step_turn [OF assms(1,2) Suc(2,3) s])
  show ?case
  proof (cases res)
    case (Inl ret)
    then show ?thesis using s turn by (auto simp: turn_ok_def)
  next
    case (Inr u)
    then have "\<not> hx_handshake_completed ctx'" "hx_alert ctx' \<noteq> TLS13_ALERT_USER_CANCELED" "0 < n" "TLS13_NUM_MESSAGE_TYPES \<le> unat (hx_message_number ctx') + n"
      using turn Suc(5) by (auto simp: turn_ok_def)
    then show ?thesis using Suc(1) s Inr by simp
  qed
qed simp

lemma and_then_FalseD: "and_then (ok, c) f = (False, c') \<Longrightarrow> \<not> ok \<and> c' = c \<or> ok \<and> f c = (False, c')"
  by (cases ok) (simp_all add: and_then_def)

text \<open>C34: one call of the handshake always returns, after at most as many turns as there are messages; it returns
  success exactly when it has completed the handshake, and then it stands at the application data with
  nothing left to flush.\<close>

theorem handshake_perform_returns:
  assumes "handlers_keep ops" and "alerts_fail ops" and "\<not> hx_handshake_completed ctx"
    and "hx_alert ctx \<noteq> TLS13_ALERT_USER_CANCELED" and "15 \<le> fuel"
  shows "\<exists>ret ctx'. tls13_handshake_perform fuel ops ctx = Some (ret, ctx') \<and>
    (ret = TLS13_IO_SUCCESS \<longleftrightarrow> hx_handshake_completed ctx') \<and>
    (hx_handshake_completed ctx' \<longrightarrow> tls13_handshake_active_state ctx' = APPLICATION_DATA \<and> \<not> hx_need_flush ctx')"
proof (cases "hx_handshake_started ctx")
  case True
  then show ?thesis
    using perform_loop_returns [OF assms(1-4), of fuel] assms(5)
    by (simp add: tls13_handshake_perform_def TLS13_NUM_MESSAGE_TYPES_def)
next
  case False
  obtain o1 c1 where 1: "tls13_handshake_set_legacy_state ctx = (o1, c1)" by fastforce
  obtain o2 c2 where 2: "tls13_handshake_legacy_info_callback ops c1 = (o2, c2)" by fastforce
  obtain o3 c3 where 3: "tls13_handshake_set_legacy_state (c2\<lparr>hx_handshake_started := True\<rparr>) = (o3, c3)" by fastforce
  have c: "\<not> hx_handshake_completed c1" "\<not> hx_handshake_completed c2" "\<not> hx_handshake_completed c3"
    using set_legacy_state_keep [OF 1] info_callback_keep [OF 2] set_legacy_state_keep [OF 3] assms(3)
    by (auto simp: same_position_def)
  have al: "hx_alert c3 \<noteq> TLS13_ALERT_USER_CANCELED"
    using set_legacy_state_keep [OF 1] info_callback_keep [OF 2] set_legacy_state_keep [OF 3] assms(4)
    by (auto simp: same_position_def)
  have "tls13_handshake_perform fuel ops ctx =
    (if \<not> o1 then Some (TLS13_IO_FAILURE, c1) else if \<not> o2 then Some (TLS13_IO_FAILURE, c2)
     else if \<not> o3 then Some (TLS13_IO_FAILURE, c3) else perform_loop fuel ops c3)"
    using False by (simp add: tls13_handshake_perform_def and_then_def 1 2 3)
  then show ?thesis
    using perform_loop_returns [OF assms(1,2) c(3) al, of fuel] c assms(5)
    by (auto simp: TLS13_NUM_MESSAGE_TYPES_def TLS13_IO_FAILURE_def TLS13_IO_SUCCESS_def)
qed

lemma handle_message_success:
  assumes "handle_message ops action cbs ctx = (ret, ctx')" and "0 < ret"
    and "op_recv ops (act_handlers action) cbs ctx = (ok, cbs', c')"
  shows "ok \<and> ret = TLS13_IO_SUCCESS \<and> ctx' = c'\<lparr>hx_hs_msg := None\<rparr> \<and> CBS_len cbs' = 0 \<and>
    TLS1_3_VERSION \<le> op_method_version ops (hx_env c')"
  using assms by (cases ok) (auto simp: handle_message_def TLS13_IO_FAILURE_def TLS13_IO_USE_LEGACY_def split: if_splits)

lemma message_received_success:
  assumes "alerts_fail ops" and "message_received ops action m ctx = (ret, ctx')" and "0 < ret"
    and 1: "(if act_recv_preserve_transcript_hash action then on_env (op_transcript_hash_value ops) ctx
      else (True, ctx)) = (o1, c1)"
    and 2: "tls13_handshake_msg_record ops m c1 = (o2, c2)" and 3: "tls13_handshake_msg_content m = (body, cbs)"
  shows "o1 \<and> o2 \<and> body = Some () \<and> expected_message action (msg_type m) \<and>
    handle_message ops action cbs (c2\<lparr>hx_env := op_message_recv_cb ops (hx_env c2)\<rparr>) = (ret, ctx')"
proof -
  have alert: "on_env (op_send_alert ops TLS13_ALERT_UNEXPECTED_MESSAGE) c \<noteq> (ret, ctx')" for c
    using alert_keep [OF assms(1), of TLS13_ALERT_UNEXPECTED_MESSAGE c ret ctx'] assms(3)
    by (auto simp: TLS13_ALERT_UNEXPECTED_MESSAGE_def TLS13_ALERT_USER_CANCELED_def)
  have "o1 \<and> o2" using assms(2,3) by (cases o1; cases o2) (auto simp: message_received_def 1 2 TLS13_IO_FAILURE_def)
  then show ?thesis using assms(2,3) alert
    by (cases body) (auto simp: message_received_def 1 2 3 Let_def TLS13_IO_FAILURE_def split: if_splits)
qed

text \<open>An environment to run the driver in: the peer's bytes and its own are buffers, and the transcript is a list.  The handler
  of a message writes one octet, or reads all of the body; everything else succeeds without a trace.\<close>

record duplex =
  dx_in :: tls_buffer
  dx_out :: tls_buffer
  dx_log :: "bytes list"

definition duplex_ops :: "duplex hs_ops" where
  "duplex_ops =
     \<lparr>op_alloc = (\<lambda>n. True), op_msg_size = 0, op_buf_size = 0, op_cbb_size = 0,
      op_flush = (\<lambda>e. (TLS13_IO_SUCCESS, e)), op_handshake_completed = (\<lambda>e. e),
      op_send_alert = (\<lambda>al e. (TLS13_IO_ALERT, e)), op_send_dummy_ccs = (\<lambda>e. (TLS13_IO_SUCCESS, e)),
      op_read_hs = (\<lambda>n e. case tls_buffer_read n (dx_in e) of (r, bs, b) \<Rightarrow> (r, bs, e\<lparr>dx_in := b\<rparr>)),
      op_write_hs = (\<lambda>bs e. case tls_buffer_write (\<lambda>n. True) bs (dx_out e) of (r, b) \<Rightarrow> (r, e\<lparr>dx_out := b\<rparr>)),
      op_transcript_record = (\<lambda>bs e. (True, e\<lparr>dx_log := dx_log e @ [bs]\<rparr>)), op_transcript_hash_value = (\<lambda>e. (True, e)),
      op_message_sent_cb = (\<lambda>e. e), op_message_recv_cb = (\<lambda>e. e), op_info_cb = (\<lambda>n e. e),
      op_method_version = (\<lambda>e. TLS1_3_VERSION), op_set_error_trailing = (\<lambda>e. e),
      op_send = (\<lambda>mt ctx. case hx_hs_msg ctx of
          None \<Rightarrow> (False, ctx)
        | Some m \<Rightarrow> (case cbb_build (\<lambda>n. True) 1 [Uint_item W8 (mt_index mt)] (msg_cbb m) of
            (ok, s) \<Rightarrow> (ok, ctx\<lparr>hx_hs_msg := Some (m\<lparr>msg_cbb := s\<rparr>)\<rparr>))),
      op_sent = (\<lambda>mt ctx. (True, ctx)),
      op_recv = (\<lambda>mt cbs ctx. case CBS_skip (CBS_len cbs) cbs of (r, cbs) \<Rightarrow> (r \<noteq> None, cbs, ctx))\<rparr>"

definition filled_buffer :: "bytes \<Rightarrow> tls_buffer" where
  "filled_buffer bs = \<lparr>tb_capacity = length bs, tb_capacity_limit = 1000, tb_data = Some bs, tb_len = length bs, tb_offset = 0\<rparr>"

text \<open>A peer of a resumed handshake, before the message with the given number.\<close>

definition resuming :: "u8 \<Rightarrow> u8 \<Rightarrow> bytes \<Rightarrow> duplex tls13_ctx" where
  "resuming mode n bs =
     \<lparr>hx_mode = mode, hx_hs_type = NEGOTIATED OR WITHOUT_HRR OR WITH_PSK, hx_message_number = n,
      hx_handshake_started = True, hx_handshake_completed = False, hx_need_flush = False, hx_send_dummy_ccs = False,
      hx_send_dummy_ccs_after = False, hx_hs_msg = None, hx_alert = 0, hx_legacy_state = 0,
      hx_env = \<lparr>dx_in = filled_buffer bs, dx_out = filled_buffer [], dx_log = []\<rparr>\<rparr>"

text \<open>A server that has sent its flight and waits for the client's finished message, and the bytes of one.\<close>

definition waiting_server :: "duplex tls13_ctx" where
  "waiting_server = resuming TLS13_HS_SERVER 4 [20, 0, 0, 2, 7, 9]"

lemma duplex_ops_ok: "handlers_keep duplex_ops" "alerts_fail duplex_ops"
  by (auto simp: duplex_ops_def handlers_keep_def alerts_fail_def TLS13_IO_ALERT_def simp del: cbb_build.simps
      split: prod.splits option.splits)

theorem handshake_perform_returns_witness:
  "\<exists>ctx'. tls13_handshake_perform 15 duplex_ops waiting_server = Some (TLS13_IO_SUCCESS, ctx') \<and>
     hx_handshake_completed ctx' \<and> tls13_handshake_active_state ctx' = APPLICATION_DATA \<and> \<not> hx_need_flush ctx'"
proof -
  have "\<not> hx_handshake_completed waiting_server" "hx_alert waiting_server \<noteq> TLS13_ALERT_USER_CANCELED"
    by (simp_all add: waiting_server_def resuming_def TLS13_ALERT_USER_CANCELED_def)
  then obtain ret ctx' where r: "tls13_handshake_perform 15 duplex_ops waiting_server = Some (ret, ctx')"
      "ret = TLS13_IO_SUCCESS \<longleftrightarrow> hx_handshake_completed ctx'"
      "hx_handshake_completed ctx' \<longrightarrow> tls13_handshake_active_state ctx' = APPLICATION_DATA \<and> \<not> hx_need_flush ctx'"
    using handshake_perform_returns [OF duplex_ops_ok, of waiting_server 15] by auto
  have "map_option fst (tls13_handshake_perform 15 duplex_ops waiting_server) = Some TLS13_IO_SUCCESS" by code_simp
  then show ?thesis using r by auto
qed

text \<open>C32: exactly when does a message that is received move the handshake on?  When the message that has just been read, the one
  begun by an earlier call or a new one, is complete, its type is the one that the table asks for (a certificate may take
  the place of a certificate request), it has been recorded in the transcript, its handler has accepted its body and
  read all of it, and the version negotiated is still TLS 1.3.  The message is then forgotten.\<close>

theorem recv_accepts_only_expected:
  assumes "alerts_fail ops" and "tls13_handshake_recv_action ops action ctx = (ret, ctx')"
    and "(case hx_hs_msg ctx of None \<Rightarrow> tls13_handshake_msg_new (op_alloc ops) (op_msg_size ops) (op_buf_size ops)
      | Some m \<Rightarrow> Some m) = Some m0"
    and "tls13_handshake_msg_recv (op_alloc ops) (op_read_hs ops) m0 (hx_env ctx) = (r, m, e)"
  shows "(0 < ret \<longleftrightarrow> 0 < r \<and>
      (msg_type m = act_handshake_type action \<or>
         msg_type m = TLS13_MT_CERTIFICATE \<and> act_handshake_type action = TLS13_MT_CERTIFICATE_REQUEST) \<and>
      (\<exists>c1 c2 body cbs cbs' c'.
         (if act_recv_preserve_transcript_hash action
          then on_env (op_transcript_hash_value ops) (ctx\<lparr>hx_hs_msg := Some m, hx_env := e\<rparr>)
          else (True, ctx\<lparr>hx_hs_msg := Some m, hx_env := e\<rparr>)) = (True, c1) \<and>
         tls13_handshake_msg_record ops m c1 = (True, c2) \<and> tls13_handshake_msg_content m = (Some body, cbs) \<and>
         op_recv ops (act_handlers action) cbs (c2\<lparr>hx_env := op_message_recv_cb ops (hx_env c2)\<rparr>) = (True, cbs', c') \<and>
         CBS_len cbs' = 0 \<and> TLS1_3_VERSION \<le> op_method_version ops (hx_env c') \<and> ctx' = c'\<lparr>hx_hs_msg := None\<rparr>)) \<and>
    (0 < ret \<longrightarrow> ret = TLS13_IO_SUCCESS)"
proof -
  let ?c = "ctx\<lparr>hx_hs_msg := Some m, hx_env := e\<rparr>"
  have turn: "(ret, ctx') = (if r \<le> 0 then (r, ?c) else message_received ops action m ?c)"
    using assms(2) by (simp add: tls13_handshake_recv_action_def assms(3,4) Let_def)
  obtain o1 c1 where 1: "(if act_recv_preserve_transcript_hash action then on_env (op_transcript_hash_value ops) ?c
      else (True, ?c)) = (o1, c1)" by fastforce
  obtain o2 c2 where 2: "tls13_handshake_msg_record ops m c1 = (o2, c2)" by fastforce
  obtain body cbs where 3: "tls13_handshake_msg_content m = (body, cbs)" by fastforce
  let ?d = "c2\<lparr>hx_env := op_message_recv_cb ops (hx_env c2)\<rparr>"
  obtain ok cbs' c' where 4: "op_recv ops (act_handlers action) cbs ?d = (ok, cbs', c')" by (metis prod_cases3)
  have type: "expected_message action (msg_type m) \<longleftrightarrow> msg_type m = act_handshake_type action \<or>
      msg_type m = TLS13_MT_CERTIFICATE \<and> act_handshake_type action = TLS13_MT_CERTIFICATE_REQUEST"
    by (auto simp: expected_message_def)
  have fwd: "0 < r \<and> o1 \<and> o2 \<and> body = Some () \<and> expected_message action (msg_type m) \<and> ok \<and> CBS_len cbs' = 0 \<and>
      TLS1_3_VERSION \<le> op_method_version ops (hx_env c') \<and> ctx' = c'\<lparr>hx_hs_msg := None\<rparr> \<and> ret = TLS13_IO_SUCCESS" if "0 < ret"
  proof -
    have r: "0 < r" "message_received ops action m ?c = (ret, ctx')" using turn that by (auto split: if_splits)
    note s = message_received_success [OF assms(1) r(2) that 1 2 3]
    show ?thesis using s r(1) handle_message_success [OF _ that 4] by blast
  qed
  have bwd: "0 < ret" if "0 < r" "o1" "o2" "body = Some ()" "expected_message action (msg_type m)" "ok" "CBS_len cbs' = 0"
    "TLS1_3_VERSION \<le> op_method_version ops (hx_env c')"
  proof -
    have "message_received ops action m ?c = (TLS13_IO_SUCCESS, c'\<lparr>hx_hs_msg := None\<rparr>)"
      using 1 2 3 4 that leD [OF that(8)] by (simp add: message_received_def handle_message_def Let_def)
    then show ?thesis using turn that(1) by (simp add: TLS13_IO_SUCCESS_def)
  qed
  show ?thesis using fwd bwd by (auto simp: 1 2 3 4 type)
qed

text \<open>The finished message is accepted where it is expected, and not where the table asks for a certificate.\<close>

theorem recv_accepts_only_expected_witness:
  "fst (tls13_handshake_recv_action duplex_ops (state_machine CLIENT_FINISHED) waiting_server) = TLS13_IO_SUCCESS \<and>
   fst (tls13_handshake_recv_action duplex_ops (state_machine CLIENT_CERTIFICATE) waiting_server) \<le> 0"
proof -
  let ?act = "\<lambda>mt. tls13_handshake_recv_action duplex_ops (state_machine mt) waiting_server"
  obtain m0 where m0: "tls13_handshake_msg_new (op_alloc duplex_ops) (op_msg_size duplex_ops) (op_buf_size duplex_ops) = Some m0"
    by (simp add: duplex_ops_def tls13_handshake_msg_new_def tls_buffer_new_def tls_buffer_resize_def
        TLS_BUFFER_CAPACITY_LIMIT_def TLS13_HANDSHAKE_MSG_INITIAL_LEN_def Let_def)
  then have new: "(case hx_hs_msg waiting_server of
      None \<Rightarrow> tls13_handshake_msg_new (op_alloc duplex_ops) (op_msg_size duplex_ops) (op_buf_size duplex_ops)
      | Some m \<Rightarrow> Some m) = Some m0" by (simp add: waiting_server_def resuming_def)
  obtain r m e where recv: "tls13_handshake_msg_recv (op_alloc duplex_ops) (op_read_hs duplex_ops) m0 (hx_env waiting_server) = (r, m, e)"
    by (metis prod_cases3)
  have "map_option (\<lambda>m0. msg_type (fst (snd (tls13_handshake_msg_recv (op_alloc duplex_ops) (op_read_hs duplex_ops) m0
      (hx_env waiting_server))))) (tls13_handshake_msg_new (op_alloc duplex_ops) (op_msg_size duplex_ops) (op_buf_size duplex_ops))
      = Some 20" by code_simp
  then have t: "msg_type m = 20" using m0 recv by simp
  have "0 < fst (?act CLIENT_FINISHED)" by code_simp
  then have "fst (?act CLIENT_FINISHED) = TLS13_IO_SUCCESS"
    using recv_accepts_only_expected [OF duplex_ops_ok(2) _ new recv, of "state_machine CLIENT_FINISHED"]
    by (cases "?act CLIENT_FINISHED") auto
  moreover have "\<not> 0 < fst (?act CLIENT_CERTIFICATE)"
    using recv_accepts_only_expected [OF duplex_ops_ok(2) _ new recv, of "state_machine CLIENT_CERTIFICATE"] t
    by (cases "?act CLIENT_CERTIFICATE")
      (auto simp: message_action_def TLS13_MT_CERTIFICATE_def TLS13_MT_CERTIFICATE_REQUEST_def)
  ultimately show ?thesis by simp
qed

end
