(* ===== verification/Tls13_peers.thy ===== *)
theory Tls13_peers
  imports Tls13_handshake
begin

unbundle bit_operations_syntax

text \<open>
  Two drivers of \<^verbatim>\<open>ssl/tls13_handshake.c\<close> that talk to each other: the turns in which one sends the message
  that the other receives, and what they agree on afterwards.
\<close>

section \<open>Messages on the wire\<close>

text \<open>The message that a handler builds with any program of builder calls.\<close>

lemma msg_start_items:
  assumes "tls13_handshake_msg_start alloc base_size t m = (True, m1)" and "cbb_build alloc 1 items (msg_cbb m1) = (True, s)"
    and "CBB_finish alloc 0 (Some None) True s = (Some (d, n), s')" and "items_sized items"
  shows "\<exists>body. items_bytes items = Some body \<and> take n d = hs_bytes t body \<and> length body < 2 ^ 24 \<and> n \<le> length d"
proof -
  have "cbb_run alloc base_size 256 [Uint_item W8 (unat t), Prefixed_item W24 items] = Some (d, n)"
    using assms(1-3) by (auto simp: tls13_handshake_msg_start_def cbb_run_def and_then_def TLS13_HANDSHAKE_MSG_INITIAL_LEN_def
        split: prod.splits if_splits)
  from cbb_run_sound [OF this] show ?thesis
    using assms(4) by (auto simp: hs_bytes_def SIZE_MAX_def Option.bind_eq_Some_conv split: if_splits)
qed

lemma hs_bytes_inj:
  assumes "hs_bytes t body @ rest = hs_bytes t' body' @ rest'" and "length body < 2 ^ 24" and "length body' < 2 ^ 24"
  shows "t = t' \<and> body = body' \<and> rest = rest'"
proof -
  have e: "be_bytes 3 (length body) @ (body @ rest) = be_bytes 3 (length body') @ (body' @ rest')" "t = t'"
    using assms(1) by (simp_all add: hs_bytes_def)
  have "be_bytes 3 (length body) = be_bytes 3 (length body')" and r: "body @ rest = body' @ rest'"
    using append_split [OF _ e(1)] by simp_all
  then have "be_val (be_bytes 3 (length body)) = be_val (be_bytes 3 (length body'))" by simp
  then have "length body = length body'" using assms(2,3) by (simp add: be_val_be_bytes)
  then show ?thesis using r e(2) append_split by blast
qed

text \<open>What a call that receives a whole message has taken from the stream.\<close>

context byte_source
begin

lemma msg_recv_body_spec:
  assumes "msg_data m = None" and "tb_ok (msg_buf m)" and "tb_offset (msg_buf m) = 0" and "invar w"
    and "tb_content (msg_buf m) = t # be_bytes 3 (msg_len m)" and "msg_type m = t"
    and "msg_recv_body alloc read m w = (ret, m', w')" and "0 < ret"
  shows "invar w' \<and> msg_type m' = t \<and> (\<exists>d body. msg_data m' = Some d \<and> msg_data_len m' \<le> length d \<and>
    take (msg_data_len m') d = hs_bytes t body \<and> length body = msg_len m \<and> content w = body @ content w')"
proof -
  obtain r b w1 where e: "tls_buffer_extend alloc (4 + msg_len m) read (msg_buf m) w = (r, b, w1)" by (metis prod_cases3)
  note s = extend_spec [OF assms(2,4) e]
  have pos: "0 < r" and w': "w' = w1"
    and m': "m' = m\<lparr>msg_buf := tls_buffer_clear b, msg_data := tb_data b, msg_data_len := tb_len b\<rparr>"
    using assms(7,8) e by (auto simp: msg_recv_body_def TLS13_HANDSHAKE_MSG_HEADER_LEN_def tls_buffer_finish_def Let_def split: if_splits)
  have len: "tb_len b = 4 + msg_len m" using s pos by simp
  then obtain d where d: "tb_data b = Some d" using s by (cases "tb_data b") (auto simp: tb_ok_def tb_bytes_def)
  have tb: "tb_content b = take (tb_len b) d" "tb_len b \<le> length d"
    using s assms(3) d by (simp_all add: tb_content_def tb_ok_def tb_bytes_def)
  have st: "tb_content b @ content w' = (t # be_bytes 3 (msg_len m)) @ content w" using s w' assms(5) by simp
  have lb: "length (tb_content b) = 4 + msg_len m" using tb len by simp
  define body where "body = drop 4 (tb_content b)"
  have "take 4 (tb_content b @ content w') = t # be_bytes 3 (msg_len m)" unfolding st by simp
  then have hd: "tb_content b = (t # be_bytes 3 (msg_len m)) @ body"
    using lb append_take_drop_id [of 4 "tb_content b"] by (simp add: body_def)
  then have "content w = body @ content w'" using st by simp
  moreover have "length body = msg_len m" using lb by (simp add: body_def)
  ultimately show ?thesis using hd tb d m' assms(6) s w' by (auto simp: hs_bytes_def)
qed

lemma msg_recv_spec:
  assumes "msg_fresh m" and "invar w" and "tls13_handshake_msg_recv alloc read m w = (ret, m', w')" and "0 < ret"
  shows "invar w' \<and> (\<exists>d body. msg_data m' = Some d \<and> msg_data_len m' \<le> length d \<and>
    take (msg_data_len m') d = hs_bytes (msg_type m') body \<and> length body < 2 ^ 24 \<and>
    content w = hs_bytes (msg_type m') body @ content w')"
proof -
  have m: "msg_data m = None" "msg_type m = 0" "tb_ok (msg_buf m)" "tb_len (msg_buf m) = 0" "tb_offset (msg_buf m) = 0"
    "tb_content (msg_buf m) = []" using assms(1) by (auto simp: msg_fresh_def tb_content_def)
  obtain x b w1 where e: "tls_buffer_extend alloc 4 read (msg_buf m) w = (x, b, w1)" by (metis prod_cases3)
  note s = extend_spec [OF m(3) assms(2) e]
  have pos: "0 < x"
    using assms(3,4) m(1,2) e by (auto simp: tls13_handshake_msg_recv_def TLS13_HANDSHAKE_MSG_HEADER_LEN_def Let_def split: if_splits)
  have okb: "tb_ok b" using s by simp
  have len: "length (tb_content b) = 4" using s m(5) pos tb_content_len [of b] by simp
  define l where "l = be_val (drop 1 (tb_content b))"
  have "be_bytes 3 l = drop 1 (tb_content b)" and l: "l < 2 ^ 24"
    using len be_val_lt [of "drop 1 (tb_content b)"] by (simp_all add: l_def be_bytes_be_val)
  then have hdr: "tb_content b = hd (tb_content b) # be_bytes 3 l" using len by (cases "tb_content b") simp_all
  obtain c where c: "tls_buffer_data b = Some c" "cbs_ok c" "cbs_view c = hd (tb_content b) # be_bytes 3 l"
    using tls_buffer_data_spec [OF okb] hdr by metis
  obtain c1 c2 v where g: "CBS_get_u8 c = (Some (hd (tb_content b)), c1)" "CBS_get_u24 c1 = (Some v, c2)" "unat v = l"
    using msg_header_parse [OF c(2,3) l] by blast
  let ?m = "m\<lparr>msg_buf := b, msg_type := hd (tb_content b), msg_len := l\<rparr>"
  have "msg_recv_body alloc read ?m w1 = (ret, m', w')"
    using assms(3,4) m(1,2) e pos c(1) g
    by (auto simp: tls13_handshake_msg_recv_def TLS13_HANDSHAKE_MSG_HEADER_LEN_def Let_def TLS13_IO_FAILURE_def split: if_splits)
  from msg_recv_body_spec [OF _ _ _ _ _ _ this assms(4), of "hd (tb_content b)"]
  obtain d body where "invar w'" "msg_type m' = hd (tb_content b)" "msg_data m' = Some d" "msg_data_len m' \<le> length d"
      "take (msg_data_len m') d = hs_bytes (hd (tb_content b)) body" "length body = l" "content w1 = body @ content w'"
    using m s okb hdr by auto
  moreover have "content w = tb_content b @ content w1" using s m(6) by simp
  ultimately show ?thesis using hdr l by (auto simp: hs_bytes_def)
qed

end

section \<open>What a peer promises\<close>

text \<open>A view of the environment of a driver: the handshake bytes that have arrived and that have been written, and the
  messages that it has recorded in the transcript.  What has been recorded is a history: a handler that replaces the running
  hash of the transcript, as after a HelloRetryRequest, does not change it.\<close>

record 'e wire =
  wi_ok :: "'e \<Rightarrow> bool"
  wi_in :: "'e \<Rightarrow> bytes"
  wi_out :: "'e \<Rightarrow> bytes"
  wi_log :: "'e \<Rightarrow> bytes list"

definition quiet :: "'e wire \<Rightarrow> 'e \<Rightarrow> 'e \<Rightarrow> bool" where
  "quiet W e e' \<longleftrightarrow> (wi_ok W e \<longrightarrow> wi_ok W e' \<and> wi_in W e' = wi_in W e \<and> wi_out W e' = wi_out W e \<and> wi_log W e' = wi_log W e)"

text \<open>A client asks for its ChangeCipherSpec before its next message, a server for the one after it: neither has
  both requests at once.\<close>

definition ccs_ok :: "'e tls13_ctx \<Rightarrow> bool" where
  "ccs_ok ctx \<longleftrightarrow> (if hx_mode ctx = TLS13_HS_CLIENT then \<not> hx_send_dummy_ccs_after ctx else \<not> hx_send_dummy_ccs ctx)"

definition handler_frame :: "'e wire \<Rightarrow> 'e tls13_ctx \<Rightarrow> 'e tls13_ctx \<Rightarrow> bool" where
  "handler_frame W ctx ctx' \<longleftrightarrow> same_position ctx ctx' \<and> quiet W (hx_env ctx) (hx_env ctx') \<and> (ccs_ok ctx \<longrightarrow> ccs_ok ctx')"

text \<open>The handlers write their messages with the byte string builder, below the handle that they are given; nothing but the
  two transport operations touches the handshake bytes, and nothing but \<open>op_transcript_record\<close> the record.\<close>

locale handshake_peer =
  fixes ops :: "'e hs_ops" and W :: "'e wire"
  assumes handlers: "handlers_keep ops" and alerts: "alerts_fail ops"
    and source: "byte_source (\<lambda>e. wi_ok W e \<and> wi_out W e = x \<and> wi_log W e = y) (wi_in W) (op_read_hs ops)"
    and sink: "byte_sink (\<lambda>e. wi_ok W e \<and> wi_in W e = x \<and> wi_log W e = y) (wi_out W) (op_write_hs ops)"
    and recorded: "wi_ok W e \<Longrightarrow> op_transcript_record ops bs e = (True, e') \<Longrightarrow>
      wi_ok W e' \<and> wi_in W e' = wi_in W e \<and> wi_out W e' = wi_out W e \<and> wi_log W e' = wi_log W e @ [bs]"
    and flush_quiet: "quiet W e (snd (op_flush ops e))"
    and ccs_quiet: "quiet W e (snd (op_send_dummy_ccs ops e))"
    and ccs_result: "fst (op_send_dummy_ccs ops e) = TLS13_IO_SUCCESS \<or> fst (op_send_dummy_ccs ops e) \<le> 0"
    and hash_quiet: "quiet W e (snd (op_transcript_hash_value ops e))"
    and sent_cb_quiet: "quiet W e (op_message_sent_cb ops e)"
    and recv_cb_quiet: "quiet W e (op_message_recv_cb ops e)"
    and info_cb_quiet: "quiet W e (op_info_cb ops n e)"
    and send_frame: "op_send ops mt ctx = (ok, ctx') \<Longrightarrow> handler_frame W ctx ctx'"
    and send_builds: "op_send ops mt ctx = (True, ctx') \<Longrightarrow> hx_hs_msg ctx = Some m \<Longrightarrow>
      \<exists>items s. items_sized items \<and> cbb_build (op_alloc ops) 1 items (msg_cbb m) = (True, s) \<and>
        hx_hs_msg ctx' = Some (m\<lparr>msg_cbb := s\<rparr>)"
    and sent_frame: "op_sent ops mt ctx = (ok, ctx') \<Longrightarrow> handler_frame W ctx ctx' \<and> hx_hs_msg ctx' = hx_hs_msg ctx"
    and recv_frame: "op_recv ops mt cbs ctx = (ok, cbs', ctx') \<Longrightarrow> handler_frame W ctx ctx'"

lemma quiet_refl [simp]: "quiet W e e"
  by (simp add: quiet_def)

lemma quiet_trans: "quiet W a b \<Longrightarrow> quiet W b c \<Longrightarrow> quiet W a c"
  by (auto simp: quiet_def)

lemma handler_frame_refl [simp]: "handler_frame W ctx ctx"
  by (simp add: handler_frame_def)

lemma handler_frame_trans: "handler_frame W a b \<Longrightarrow> handler_frame W b c \<Longrightarrow> handler_frame W a c"
  by (auto simp: handler_frame_def intro: same_position_trans quiet_trans)

lemma ccs_ok_upd [simp]:
  "ccs_ok (ctx\<lparr>hx_env := e\<rparr>) = ccs_ok ctx" "ccs_ok (ctx\<lparr>hx_hs_msg := m\<rparr>) = ccs_ok ctx"
  by (simp_all add: ccs_ok_def)

lemma handler_frame_upd [simp]:
  "handler_frame W a (b\<lparr>hx_hs_msg := m\<rparr>) = handler_frame W a b"
  "handler_frame W (a\<lparr>hx_hs_msg := m\<rparr>) b = handler_frame W a b"
  by (simp_all add: handler_frame_def)

lemma handler_frame_env: "quiet W (hx_env ctx) e \<Longrightarrow> handler_frame W ctx (ctx\<lparr>hx_env := e\<rparr>)"
  by (simp add: handler_frame_def)

lemma handler_frame_on_env:
  assumes "\<And>e. quiet W e (snd (f e))" and "on_env f ctx = (r, ctx')"
  shows "handler_frame W ctx ctx' \<and> hx_hs_msg ctx' = hx_hs_msg ctx"
  using assms(1) [of "hx_env ctx"] assms(2) by (auto simp: on_env_def intro!: handler_frame_env split: prod.splits)

section \<open>Sending a message\<close>

context handshake_peer
begin

lemma pending_ccs:
  assumes "pending_dummy_ccs ops ctx = (x, c)" and "ccs_ok ctx"
  shows "handler_frame W ctx c \<and> hx_hs_msg c = hx_hs_msg ctx \<and> (\<forall>r. x = Some r \<longrightarrow> r \<le> 0)"
proof (cases "hx_send_dummy_ccs ctx")
  case True
  then have m: "hx_mode ctx = TLS13_HS_CLIENT" "\<not> hx_send_dummy_ccs_after ctx"
    using assms(2) by (auto simp: ccs_ok_def split: if_splits)
  obtain r e where e: "op_send_dummy_ccs ops (hx_env ctx) = (r, e)" by fastforce
  have "quiet W (hx_env ctx) e" "r = TLS13_IO_SUCCESS \<or> r \<le> 0"
    using ccs_quiet [of "hx_env ctx"] ccs_result [of "hx_env ctx"] e by simp_all
  then show ?thesis using assms True m e
    by (auto simp: pending_dummy_ccs_def on_env_def handler_frame_def ccs_ok_def split: if_splits)
next
  case False
  then show ?thesis using assms(1) by (auto simp: pending_dummy_ccs_def)
qed

lemma build_message_builds:
  assumes "build_message ops action ctx = (True, c)" and "hx_hs_msg ctx = None"
  shows "handler_frame W ctx c \<and> (\<exists>m d body. hx_hs_msg c = Some m \<and> msg_data m = Some d \<and> msg_data_len m \<le> length d \<and>
    take (msg_data_len m) d = hs_bytes (act_handshake_type action) body \<and> length body < 2 ^ 24 \<and>
    msg_cbs m = CBS_init d (msg_data_len m))"
proof -
  obtain m0 where m0: "tls13_handshake_msg_new (op_alloc ops) (op_msg_size ops) (op_buf_size ops) = Some m0"
    using assms by (auto simp: build_message_def split: option.splits)
  obtain m1 where m1: "tls13_handshake_msg_start (op_alloc ops) (op_cbb_size ops) (act_handshake_type action) m0 = (True, m1)"
    using assms m0 by (auto simp: build_message_def split: prod.splits bool.splits)
  obtain c2 where c2: "op_send ops (act_handlers action) (ctx\<lparr>hx_hs_msg := Some m1\<rparr>) = (True, c2)"
    using assms m0 m1 by (auto simp: build_message_def split: prod.splits bool.splits)
  obtain items s where i: "items_sized items" "cbb_build (op_alloc ops) 1 items (msg_cbb m1) = (True, s)"
    "hx_hs_msg c2 = Some (m1\<lparr>msg_cbb := s\<rparr>)" using send_builds [OF c2] by auto
  obtain m2 where m2: "tls13_handshake_msg_finish (op_alloc ops) (m1\<lparr>msg_cbb := s\<rparr>) = (True, m2)"
    and c: "c = c2\<lparr>hx_hs_msg := Some m2\<rparr>"
    using assms m0 m1 c2 i(3) by (auto simp: build_message_def split: prod.splits)
  have "msg_data m1 = None" using m1 tls13_handshake_msg_new_fresh [OF m0]
    by (auto simp: tls13_handshake_msg_start_def msg_fresh_def split: prod.splits)
  then obtain d n s' where f: "CBB_finish (op_alloc ops) 0 (Some None) True s = (Some (d, n), s')"
    and m: "msg_data m2 = Some d" "msg_data_len m2 = n" "msg_cbs m2 = CBS_init d n"
    using m2 by (auto simp: tls13_handshake_msg_finish_def split: prod.splits option.splits)
  show ?thesis using msg_start_items [OF m1 i(2) f i(1)] m c send_frame [OF c2] by auto
qed

lemma msg_send_writes:
  assumes "tls13_handshake_msg_send (op_write_hs ops) m e = (ret, m', e')" and "0 < ret" and "wi_ok W e"
    and "cbs_ok (msg_cbs m)"
  shows "wi_ok W e' \<and> wi_in W e' = wi_in W e \<and> wi_log W e' = wi_log W e \<and>
    wi_out W e' = wi_out W e @ cbs_view (msg_cbs m) \<and> msg_data m' = msg_data m \<and> msg_data_len m' = msg_data_len m"
proof -
  obtain res c w where l: "send_loop (op_write_hs ops) (msg_cbs m) e = (res, c, w)" by (metis prod_cases3)
  note s = byte_sink.send_loop_spec [OF sink [of "wi_in W e" "wi_log W e"] assms(4) _ l]
  show ?thesis using assms(1-3) l s
    by (auto simp: tls13_handshake_msg_send_def TLS13_IO_FAILURE_def split: option.splits if_splits)
qed

lemma message_sent_records:
  assumes "message_sent ops action m ctx = (ret, c)" and "0 < ret" and "wi_ok W (hx_env ctx)" and "ccs_ok ctx"
    and "msg_data m = Some d" and "msg_data_len m \<le> length d"
  shows "same_position ctx c \<and> hx_hs_msg c = None \<and> ccs_ok c \<and> wi_ok W (hx_env c) \<and>
    wi_in W (hx_env c) = wi_in W (hx_env ctx) \<and> wi_out W (hx_env c) = wi_out W (hx_env ctx) \<and>
    wi_log W (hx_env c) = wi_log W (hx_env ctx) @ [take (msg_data_len m) d]"
proof -
  obtain o1 c1 where 1: "tls13_handshake_msg_record ops m ctx = (o1, c1)" by fastforce
  obtain o2 c2 where 2: "(if act_send_preserve_transcript_hash action then on_env (op_transcript_hash_value ops) c1
      else (True, c1)) = (o2, c2)" by fastforce
  let ?c = "c2\<lparr>hx_env := op_message_sent_cb ops (hx_env c2), hx_hs_msg := None\<rparr>"
  obtain o3 c3 where 3: "(if act_has_sent action then op_sent ops (act_handlers action) ?c else (True, ?c)) = (o3, c3)"
    by fastforce
  obtain r4 c4 where 4: "on_env (op_send_dummy_ccs ops) (c3\<lparr>hx_send_dummy_ccs := True\<rparr>) = (r4, c4)" by fastforce
  have ok: "o1" "o2" "o3" "hx_send_dummy_ccs_after c3 \<Longrightarrow> r4 = TLS13_IO_SUCCESS"
    "c = (if hx_send_dummy_ccs_after c3 then c4\<lparr>hx_send_dummy_ccs := False, hx_send_dummy_ccs_after := False\<rparr> else c3)"
    using assms(1,2) 4 ccs_result [of "hx_env c3"]
    by (auto simp: message_sent_def 1 2 3 Let_def TLS13_IO_FAILURE_def on_env_def split: bool.splits if_splits prod.splits)
  have log: "same_position ctx c1 \<and> ccs_ok c1 \<and> wi_ok W (hx_env c1) \<and> wi_in W (hx_env c1) = wi_in W (hx_env ctx) \<and>
      wi_out W (hx_env c1) = wi_out W (hx_env ctx) \<and>
      wi_log W (hx_env c1) = wi_log W (hx_env ctx) @ [take (msg_data_len m) d]"
    using 1 ok(1) recorded [OF assms(3)] assms(4-6)
    by (auto simp: tls13_handshake_msg_record_def tls13_handshake_msg_data_def data_bytes_def CBS_init_def CBS_len_def CBS_data_def
        on_env_def Let_def split: prod.splits)
  have f2: "handler_frame W c1 c2"
    using 2 handler_frame_on_env [where f = "op_transcript_hash_value ops" and W = W, OF hash_quiet] by (auto split: if_splits)
  have f3: "handler_frame W c2 c3" and none: "hx_hs_msg c3 = None"
    using 3 sent_frame [of "act_handlers action" ?c] sent_cb_quiet [of "hx_env c2"]
      handler_frame_trans [of W c2 ?c c3] handler_frame_env [of W c2] by (auto split: if_splits)
  have f: "handler_frame W c1 c3" by (rule handler_frame_trans [OF f2 f3])
  have f4: "handler_frame W (c3\<lparr>hx_send_dummy_ccs := True\<rparr>) c4" "hx_hs_msg c4 = None"
    using handler_frame_on_env [where f = "op_send_dummy_ccs ops" and W = W, OF ccs_quiet 4] none by simp_all
  have at3: "same_position ctx c3" "ccs_ok c3" "wi_ok W (hx_env c3)" "wi_in W (hx_env c3) = wi_in W (hx_env ctx)"
      "wi_out W (hx_env c3) = wi_out W (hx_env ctx)"
      "wi_log W (hx_env c3) = wi_log W (hx_env ctx) @ [take (msg_data_len m) d]"
    using log f same_position_trans [of ctx c1 c3] by (simp_all add: handler_frame_def quiet_def)
  show ?thesis
  proof (cases "hx_send_dummy_ccs_after c3")
    case True
    have "same_position c3 c4" "quiet W (hx_env c3) (hx_env c4)" using f4(1) by (simp_all add: handler_frame_def)
    then have "same_position ctx c4" "quiet W (hx_env c3) (hx_env c4)" using at3(1) same_position_trans by blast+
    then show ?thesis using True ok(5) at3 f4(2) by (simp add: quiet_def ccs_ok_def)
  next
    case False
    then show ?thesis using ok(5) at3 none by simp
  qed
qed

lemma send_action_sends:
  assumes "tls13_handshake_send_action ops action ctx = (ret, c)" and "0 < ret" and "wi_ok W (hx_env ctx)" and "ccs_ok ctx"
    and "hx_hs_msg ctx = None"
  shows "same_position ctx c \<and> hx_hs_msg c = None \<and> ccs_ok c \<and> wi_ok W (hx_env c) \<and>
    wi_in W (hx_env c) = wi_in W (hx_env ctx) \<and>
    (\<exists>body. length body < 2 ^ 24 \<and>
      wi_out W (hx_env c) = wi_out W (hx_env ctx) @ hs_bytes (act_handshake_type action) body \<and>
      wi_log W (hx_env c) = wi_log W (hx_env ctx) @ [hs_bytes (act_handshake_type action) body])"
proof -
  obtain x c1 where 1: "pending_dummy_ccs ops ctx = (x, c1)" by fastforce
  note p = pending_ccs [OF 1 assms(4)]
  have x: "x = None" using assms(1,2) p by (cases x) (auto simp: tls13_handshake_send_action_def 1)
  obtain ok c2 where 2: "build_message ops action c1 = (ok, c2)" by fastforce
  have ok: ok using assms(1,2) by (cases ok) (auto simp: tls13_handshake_send_action_def 1 2 x TLS13_IO_FAILURE_def)
  obtain m d body where m: "hx_hs_msg c2 = Some m" "msg_data m = Some d" "msg_data_len m \<le> length d"
    "take (msg_data_len m) d = hs_bytes (act_handshake_type action) body" "length body < 2 ^ 24"
    "msg_cbs m = CBS_init d (msg_data_len m)" and f2: "handler_frame W c1 c2"
    using build_message_builds [of action c1 c2] 2 ok p assms(5) by auto
  obtain r m' e where 3: "tls13_handshake_msg_send (op_write_hs ops) m (hx_env c2) = (r, m', e)" by (metis prod_cases3)
  have f: "handler_frame W ctx c2" using handler_frame_trans p f2 by blast
  have ok2: "wi_ok W (hx_env c2)" "wi_in W (hx_env c2) = wi_in W (hx_env ctx)" "wi_out W (hx_env c2) = wi_out W (hx_env ctx)"
    "wi_log W (hx_env c2) = wi_log W (hx_env ctx)" "ccs_ok c2" "same_position ctx c2"
    using f assms(3,4) by (auto simp: handler_frame_def quiet_def)
  let ?c = "c2\<lparr>hx_hs_msg := Some m', hx_env := e\<rparr>"
  have r: "0 < r" and s: "message_sent ops action m' ?c = (ret, c)"
    using assms(1,2) m(1) 3 ok by (auto simp: tls13_handshake_send_action_def 1 2 x Let_def split: if_splits)
  have view: "cbs_ok (msg_cbs m)" "cbs_view (msg_cbs m) = hs_bytes (act_handshake_type action) body"
    using m(3,4,6) by (simp_all add: CBS_init_def cbs_ok_def cbs_view_def)
  note w = msg_send_writes [OF 3 r ok2(1) view(1)]
  have "same_position ?c c \<and> hx_hs_msg c = None \<and> ccs_ok c \<and> wi_ok W (hx_env c) \<and> wi_in W (hx_env c) = wi_in W e \<and>
      wi_out W (hx_env c) = wi_out W e \<and> wi_log W (hx_env c) = wi_log W e @ [take (msg_data_len m') d]"
    using message_sent_records [OF s assms(2)] w ok2(5) m(2,3) by simp
  then show ?thesis using w ok2 view(2) m(4,5) same_position_trans [of ctx c2 c] by auto
qed

end

section \<open>Receiving a message\<close>

context handshake_peer
begin

lemma message_received_reads:
  assumes "message_received ops action m ctx = (ret, c)" and "0 < ret" and "wi_ok W (hx_env ctx)" and "ccs_ok ctx"
    and "msg_data m = Some d" and "msg_data_len m \<le> length d"
  shows "same_position ctx c \<and> hx_hs_msg c = None \<and> ccs_ok c \<and> wi_ok W (hx_env c) \<and>
    wi_in W (hx_env c) = wi_in W (hx_env ctx) \<and> wi_out W (hx_env c) = wi_out W (hx_env ctx) \<and>
    wi_log W (hx_env c) = wi_log W (hx_env ctx) @ [take (msg_data_len m) d] \<and> expected_message action (msg_type m)"
proof -
  obtain o1 c1 where 1: "(if act_recv_preserve_transcript_hash action then on_env (op_transcript_hash_value ops) ctx
      else (True, ctx)) = (o1, c1)" by fastforce
  obtain o2 c2 where 2: "tls13_handshake_msg_record ops m c1 = (o2, c2)" by fastforce
  obtain body cbs where 3: "tls13_handshake_msg_content m = (body, cbs)" by fastforce
  let ?c = "c2\<lparr>hx_env := op_message_recv_cb ops (hx_env c2)\<rparr>"
  obtain ok cbs' c4 where 4: "op_recv ops (act_handlers action) cbs ?c = (ok, cbs', c4)" by (metis prod_cases3)
  have ok: "o1" "o2" using assms(1,2) by (cases o1; cases o2; simp add: message_received_def 1 2 TLS13_IO_FAILURE_def)+
  note s = message_received_success [OF alerts assms(1,2) 1 2 3]
  have h: "c = c4\<lparr>hx_hs_msg := None\<rparr>" using handle_message_success [OF _ assms(2) 4] s by blast
  have f1: "handler_frame W ctx c1"
    using 1 handler_frame_on_env [where f = "op_transcript_hash_value ops" and W = W, OF hash_quiet] by (auto split: if_splits)
  then have at1: "wi_ok W (hx_env c1)" "same_position ctx c1" "ccs_ok c1" using assms(3,4) by (auto simp: handler_frame_def quiet_def)
  obtain e where e: "op_transcript_record ops (take (msg_data_len m) d) (hx_env c1) = (True, e)" and c2: "c2 = c1\<lparr>hx_env := e\<rparr>"
    using 2 s assms(5,6)
    by (auto simp: tls13_handshake_msg_record_def tls13_handshake_msg_data_def data_bytes_def CBS_init_def CBS_len_def CBS_data_def
        on_env_def Let_def split: prod.splits)
  have at2: "wi_ok W e \<and> wi_in W e = wi_in W (hx_env ctx) \<and> wi_out W e = wi_out W (hx_env ctx) \<and>
      wi_log W e = wi_log W (hx_env ctx) @ [take (msg_data_len m) d]"
    using recorded [OF at1(1) e] f1 assms(3) by (simp add: handler_frame_def quiet_def)
  have "handler_frame W c2 c4"
    using handler_frame_trans [OF handler_frame_env [OF recv_cb_quiet] recv_frame [OF 4]] .
  then have "same_position c1 c4" "ccs_ok c4" "quiet W e (hx_env c4)" using at1 c2 by (simp_all add: handler_frame_def)
  then show ?thesis using at1(2) at2 h s same_position_trans [of ctx c1 c4] by (simp add: quiet_def)
qed

end

context handshake_peer
begin

lemma recv_action_reads:
  assumes "tls13_handshake_recv_action ops action ctx = (ret, c)" and "0 < ret" and "wi_ok W (hx_env ctx)" and "ccs_ok ctx"
    and "hx_hs_msg ctx = None"
  shows "same_position ctx c \<and> hx_hs_msg c = None \<and> ccs_ok c \<and> wi_ok W (hx_env c) \<and>
    wi_out W (hx_env c) = wi_out W (hx_env ctx) \<and>
    (\<exists>t body. expected_message action t \<and> length body < 2 ^ 24 \<and>
      wi_in W (hx_env ctx) = hs_bytes t body @ wi_in W (hx_env c) \<and>
      wi_log W (hx_env c) = wi_log W (hx_env ctx) @ [hs_bytes t body])"
proof -
  obtain m0 where m0: "tls13_handshake_msg_new (op_alloc ops) (op_msg_size ops) (op_buf_size ops) = Some m0"
    using assms(1,2,5) by (auto simp: tls13_handshake_recv_action_def TLS13_IO_FAILURE_def split: option.splits)
  obtain r m e where 1: "tls13_handshake_msg_recv (op_alloc ops) (op_read_hs ops) m0 (hx_env ctx) = (r, m, e)" by (metis prod_cases3)
  let ?c = "ctx\<lparr>hx_hs_msg := Some m, hx_env := e\<rparr>"
  have r: "0 < r" and s: "message_received ops action m ?c = (ret, c)"
    using assms(1,2,5) m0 1 by (auto simp: tls13_handshake_recv_action_def Let_def split: if_splits)
  note recv = byte_source.msg_recv_spec [OF source tls13_handshake_msg_new_fresh [OF m0] _ 1 r,
      of "wi_out W (hx_env ctx)" "wi_log W (hx_env ctx)"]
  then obtain d body where d: "msg_data m = Some d" "msg_data_len m \<le> length d"
    "take (msg_data_len m) d = hs_bytes (msg_type m) body" "length body < 2 ^ 24"
    "wi_in W (hx_env ctx) = hs_bytes (msg_type m) body @ wi_in W e"
    and e: "wi_ok W e" "wi_out W e = wi_out W (hx_env ctx)" "wi_log W e = wi_log W (hx_env ctx)" using assms(3) by auto
  have "same_position ?c c \<and> hx_hs_msg c = None \<and> ccs_ok c \<and> wi_ok W (hx_env c) \<and> wi_in W (hx_env c) = wi_in W e \<and>
      wi_out W (hx_env c) = wi_out W e \<and> wi_log W (hx_env c) = wi_log W e @ [take (msg_data_len m) d] \<and>
      expected_message action (msg_type m)"
    using message_received_reads [OF s assms(2) _ _ d(1,2)] e assms(4) by simp
  then show ?thesis using d(3-5) e by auto
qed

end

section \<open>A turn\<close>

lemma set_legacy_state_frame:
  "tls13_handshake_set_legacy_state ctx = (ok, c) \<Longrightarrow>
   hx_env c = hx_env ctx \<and> hx_hs_msg c = hx_hs_msg ctx \<and> ccs_ok c = ccs_ok ctx \<and> hx_mode c = hx_mode ctx"
  by (auto simp: tls13_handshake_set_legacy_state_def ccs_ok_def split: option.splits if_splits)

text \<open>Between two messages: no message is half read or half written.\<close>

definition between_messages :: "'e wire \<Rightarrow> 'e tls13_ctx \<Rightarrow> bool" where
  "between_messages W ctx \<longleftrightarrow> wi_ok W (hx_env ctx) \<and> hx_hs_msg ctx = None \<and> ccs_ok ctx \<and> \<not> hx_handshake_completed ctx"

definition my_turn :: "'e tls13_ctx \<Rightarrow> bool" where
  "my_turn ctx \<longleftrightarrow> (case tls13_handshake_active_action ctx of None \<Rightarrow> False | Some action \<Rightarrow> act_sender action = hx_mode ctx)"

context handshake_peer
begin

lemma next_message_quiet:
  assumes "next_message ops action sending ctx = (True, c)"
  shows "quiet W (hx_env ctx) (hx_env c) \<and> hx_hs_msg c = hx_hs_msg ctx \<and> (ccs_ok c \<longleftrightarrow> ccs_ok ctx) \<and> hx_mode c = hx_mode ctx"
proof -
  obtain o1 c1 where 1: "tls13_handshake_legacy_info_callback ops ctx = (o1, c1)" by fastforce
  obtain o2 c2 where 2: "tls13_handshake_advance_state_machine c1 = (o2, c2)" by fastforce
  let ?c2 = "if sending then c2\<lparr>hx_need_flush := tls13_handshake_end_of_flight c2 action\<rparr> else c2"
  have c1: "quiet W (hx_env ctx) (hx_env c1)" "hx_hs_msg c1 = hx_hs_msg ctx" "ccs_ok c1 = ccs_ok ctx" "hx_mode c1 = hx_mode ctx"
    using 1 info_cb_quiet by (auto simp: tls13_handshake_legacy_info_callback_def split: option.splits if_splits)
  have c2: "hx_env ?c2 = hx_env c1" "hx_hs_msg ?c2 = hx_hs_msg c1" "ccs_ok ?c2 = ccs_ok c1" "hx_mode ?c2 = hx_mode c1"
    using 2 by (auto simp: tls13_handshake_advance_state_machine_def Let_def ccs_ok_def)
  have "tls13_handshake_set_legacy_state ?c2 = (True, c)"
    using assms by (cases o1; cases o2) (simp_all add: next_message_def 1 2)
  from set_legacy_state_frame [OF this] show ?thesis using c1 c2 by simp
qed

text \<open>A turn that goes on: what is held back is sent, then the message, then the state machine moves on.\<close>

lemma turn_parts:
  assumes "perform_step ops ctx = (Inr (), ctx')" and "between_messages W ctx"
  obtains action c1 ret c2 where "tls13_handshake_active_action ctx = Some action" and "between_messages W c1"
    and "quiet W (hx_env ctx) (hx_env c1)" and "hx_message_number c1 = hx_message_number ctx" and "hx_mode c1 = hx_mode ctx"
    and "0 < ret" and "(if act_sender action = hx_mode ctx then tls13_handshake_send_action ops action c1
      else tls13_handshake_recv_action ops action c1) = (ret, c2)"
    and "next_message ops action (act_sender action = hx_mode ctx) c2 = (True, ctx')"
proof -
  obtain action where ac: "tls13_handshake_active_action ctx = Some action"
    using assms(1) by (auto simp: perform_step_def split: option.splits)
  obtain x c1 where 1: "flush_pending ops ctx = (x, c1)" by fastforce
  obtain ret2 d2 where 2: "complete_handshake ops c1 = (ret2, d2)" by fastforce
  have x: "x = None" using assms(1) by (cases x) (auto simp: perform_step_def ac 1)
  have nc: "\<not> act_handshake_complete action" using assms(1) by (auto simp: perform_step_def ac 1 2 x)
  have turn: "message_turn ops action c1 = (Inr (), ctx')" using assms(1) nc by (simp add: perform_step_def ac 1 x)
  have c1: "hx_mode c1 = hx_mode ctx" "hx_message_number c1 = hx_message_number ctx" "quiet W (hx_env ctx) (hx_env c1)"
    "hx_hs_msg c1 = hx_hs_msg ctx" "ccs_ok c1 = ccs_ok ctx" "hx_handshake_completed c1 = hx_handshake_completed ctx"
    using 1 x flush_quiet [of "hx_env ctx"]
    by (auto simp: flush_pending_def on_env_def ccs_ok_def split: if_splits prod.splits)
  obtain ret c2 where 3: "(if act_sender action = hx_mode ctx then tls13_handshake_send_action ops action c1
      else tls13_handshake_recv_action ops action c1) = (ret, c2)" by fastforce
  obtain ok c3 where 4: "next_message ops action (act_sender action = hx_mode ctx) c2 = (ok, c3)" by fastforce
  have "0 < ret" "ok" "c3 = ctx'"
    using turn 3 4 c1(1) by (auto simp: message_turn_def Let_def not_le split: if_splits prod.splits)
  then show thesis using that [OF ac] assms(2) c1 3 4 by (auto simp: between_messages_def quiet_def)
qed

lemma turn_ends:
  assumes "between_messages W ctx" and "between_messages W c1" and "quiet W (hx_env ctx) (hx_env c1)"
    and "hx_message_number c1 = hx_message_number ctx" and "tls13_handshake_active_action ctx = Some action"
    and "same_position c1 c2" and "hx_hs_msg c2 = None" and "ccs_ok c2" and "wi_ok W (hx_env c2)"
    and "next_message ops action sending c2 = (True, ctx')"
  shows "between_messages W ctx' \<and> quiet W (hx_env c2) (hx_env ctx') \<and>
    unat (hx_message_number ctx') = unat (hx_message_number ctx) + 1"
proof -
  have n: "hx_message_number c2 = hx_message_number ctx" "\<not> hx_handshake_completed c2"
    using assms(2,4,6) by (simp_all add: same_position_def between_messages_def)
  have "unat (hx_message_number c2) < TLS13_NUM_MESSAGE_TYPES" using active_action_SomeD [OF assms(5)] n by simp
  note k = next_message_keep [OF assms(10) this] and q = next_message_quiet [OF assms(10)]
  show ?thesis using k q n assms(7-9) by (simp add: between_messages_def quiet_def)
qed

lemma turn_sends:
  assumes "perform_step ops ctx = (Inr (), ctx')" and "between_messages W ctx" and "my_turn ctx"
  shows "between_messages W ctx' \<and> wi_in W (hx_env ctx') = wi_in W (hx_env ctx) \<and>
    unat (hx_message_number ctx') = unat (hx_message_number ctx) + 1 \<and>
    (\<exists>action body. tls13_handshake_active_action ctx = Some action \<and> length body < 2 ^ 24 \<and>
      wi_out W (hx_env ctx') = wi_out W (hx_env ctx) @ hs_bytes (act_handshake_type action) body \<and>
      wi_log W (hx_env ctx') = wi_log W (hx_env ctx) @ [hs_bytes (act_handshake_type action) body])"
proof -
  obtain action c1 ret c2 where ac: "tls13_handshake_active_action ctx = Some action" and c1: "between_messages W c1"
    "quiet W (hx_env ctx) (hx_env c1)" "hx_message_number c1 = hx_message_number ctx" and pos: "0 < ret"
    and act: "(if act_sender action = hx_mode ctx then tls13_handshake_send_action ops action c1
      else tls13_handshake_recv_action ops action c1) = (ret, c2)"
    and nxt: "next_message ops action (act_sender action = hx_mode ctx) c2 = (True, ctx')"
    by (rule turn_parts [OF assms(1,2)])
  have "tls13_handshake_send_action ops action c1 = (ret, c2)" using act assms(3) ac by (simp add: my_turn_def)
  note s = send_action_sends [OF this pos]
  note e = turn_ends [OF assms(2) c1 ac _ _ _ _ nxt]
  show ?thesis using s e c1 assms(2) ac by (auto simp: between_messages_def quiet_def)
qed

lemma turn_receives:
  assumes "perform_step ops ctx = (Inr (), ctx')" and "between_messages W ctx" and "\<not> my_turn ctx"
  shows "between_messages W ctx' \<and> wi_out W (hx_env ctx') = wi_out W (hx_env ctx) \<and>
    unat (hx_message_number ctx') = unat (hx_message_number ctx) + 1 \<and>
    (\<exists>action t body. tls13_handshake_active_action ctx = Some action \<and> expected_message action t \<and> length body < 2 ^ 24 \<and>
      wi_in W (hx_env ctx) = hs_bytes t body @ wi_in W (hx_env ctx') \<and>
      wi_log W (hx_env ctx') = wi_log W (hx_env ctx) @ [hs_bytes t body])"
proof -
  obtain action c1 ret c2 where ac: "tls13_handshake_active_action ctx = Some action" and c1: "between_messages W c1"
    "quiet W (hx_env ctx) (hx_env c1)" "hx_message_number c1 = hx_message_number ctx" and pos: "0 < ret"
    and act: "(if act_sender action = hx_mode ctx then tls13_handshake_send_action ops action c1
      else tls13_handshake_recv_action ops action c1) = (ret, c2)"
    and nxt: "next_message ops action (act_sender action = hx_mode ctx) c2 = (True, ctx')"
    by (rule turn_parts [OF assms(1,2)])
  have "tls13_handshake_recv_action ops action c1 = (ret, c2)" using act assms(3) ac by (simp add: my_turn_def)
  note s = recv_action_reads [OF this pos]
  note e = turn_ends [OF assms(2) c1 ac _ _ _ _ nxt]
  show ?thesis using s e c1 assms(2) ac by (auto simp: between_messages_def quiet_def)
qed

end

section \<open>Two peers\<close>

text \<open>What one peer has written arrives, in whole, where the other reads.\<close>

definition arrives :: "'e wire \<Rightarrow> bytes \<Rightarrow> 'e \<Rightarrow> 'e \<Rightarrow> bool" where
  "arrives W bs e e' \<longleftrightarrow> wi_ok W e' \<and> wi_in W e' = wi_in W e @ bs \<and> wi_out W e' = wi_out W e \<and> wi_log W e' = wi_log W e"

text \<open>The drivers take turns in any order: a flight may be sent in one go and read later.  A turn is one that goes on; the
  two kinds of handshake agree on who sends the message with a given number.\<close>

inductive pair_step ::
    "(nat \<Rightarrow> bool) \<Rightarrow> 'c hs_ops \<Rightarrow> 'c wire \<Rightarrow> 's hs_ops \<Rightarrow> 's wire \<Rightarrow>
     'c tls13_ctx \<times> 's tls13_ctx \<Rightarrow> 'c tls13_ctx \<times> 's tls13_ctx \<Rightarrow> bool"
  for client_sends opsC WC opsS WS where
  client_turn: "my_turn c = client_sends (unat (hx_message_number c)) \<Longrightarrow> perform_step opsC c = (Inr (), c') \<Longrightarrow>
     wi_out WC (hx_env c') = wi_out WC (hx_env c) @ bs \<Longrightarrow> arrives WS bs (hx_env s) e \<Longrightarrow>
     pair_step client_sends opsC WC opsS WS (c, s) (c', s\<lparr>hx_env := e\<rparr>)"
| server_turn: "my_turn s = (\<not> client_sends (unat (hx_message_number s))) \<Longrightarrow> perform_step opsS s = (Inr (), s') \<Longrightarrow>
     wi_out WS (hx_env s') = wi_out WS (hx_env s) @ bs \<Longrightarrow> arrives WC bs (hx_env c) e \<Longrightarrow>
     pair_step client_sends opsC WC opsS WS (c, s) (c\<lparr>hx_env := e\<rparr>, s')"

text \<open>\<open>a\<close> has sent messages that \<open>b\<close> has not read yet.\<close>

definition ahead :: "(nat \<Rightarrow> bool) \<Rightarrow> 'a wire \<Rightarrow> 'b wire \<Rightarrow> 'a tls13_ctx \<Rightarrow> 'b tls13_ctx \<Rightarrow> bytes list \<Rightarrow> bool" where
  "ahead sends WA WB a b fs \<longleftrightarrow>
     unat (hx_message_number a) = unat (hx_message_number b) + length fs \<and>
     (\<forall>k < length fs. sends (unat (hx_message_number b) + k)) \<and>
     (\<forall>f \<in> set fs. \<exists>t body. f = hs_bytes t body \<and> length body < 2 ^ 24) \<and>
     wi_log WA (hx_env a) = wi_log WB (hx_env b) @ fs \<and> wi_in WB (hx_env b) = concat fs \<and> wi_in WA (hx_env a) = []"

definition pair_inv :: "(nat \<Rightarrow> bool) \<Rightarrow> 'a wire \<Rightarrow> 'b wire \<Rightarrow> 'a tls13_ctx \<Rightarrow> 'b tls13_ctx \<Rightarrow> bool" where
  "pair_inv sends WA WB a b \<longleftrightarrow> between_messages WA a \<and> between_messages WB b \<and>
     ((\<exists>fs. ahead sends WA WB a b fs) \<or> (\<exists>fs. ahead (\<lambda>k. \<not> sends k) WB WA b a fs))"

lemma ahead_even: "ahead sends WA WB a b [] \<longleftrightarrow> ahead (\<lambda>k. \<not> sends k) WB WA b a []"
  by (auto simp: ahead_def)

lemma pair_inv_swap: "pair_inv (\<lambda>k. \<not> sends k) WB WA b a \<longleftrightarrow> pair_inv sends WA WB a b"
  by (auto simp: pair_inv_def)

lemma hs_bytes_not_Nil [simp]: "hs_bytes t body \<noteq> []"
  by (simp add: hs_bytes_def)

lemma ahead_send:
  assumes "ahead sends WA WB a b fs" and "sends (unat (hx_message_number a))"
    and "unat (hx_message_number a') = unat (hx_message_number a) + 1" and "wi_in WA (hx_env a') = wi_in WA (hx_env a)"
    and "wi_log WA (hx_env a') = wi_log WA (hx_env a) @ [hs_bytes t body]" and "length body < 2 ^ 24"
    and "arrives WB (hs_bytes t body) (hx_env b) e"
  shows "ahead sends WA WB a' (b\<lparr>hx_env := e\<rparr>) (fs @ [hs_bytes t body])"
  using assms unfolding ahead_def by (auto simp: arrives_def less_Suc_eq)

lemma ahead_receive:
  assumes "ahead sends WB WA b a fs" and "wi_in WA (hx_env a) = hs_bytes t body @ wi_in WA (hx_env a')" and "length body < 2 ^ 24"
    and "unat (hx_message_number a') = unat (hx_message_number a) + 1"
    and "wi_log WA (hx_env a') = wi_log WA (hx_env a) @ [hs_bytes t body]" and "arrives WB [] (hx_env b) e"
  shows "\<exists>fs'. ahead sends WB WA (b\<lparr>hx_env := e\<rparr>) a' fs'"
proof -
  have "wi_in WA (hx_env a) = concat fs" using assms(1) by (simp add: ahead_def)
  then obtain f rest where fs: "fs = f # rest" using assms(2) by (cases fs) simp_all
  have all: "\<forall>f \<in> set fs. \<exists>t body. f = hs_bytes t body \<and> length body < 2 ^ 24"
    using assms(1) unfolding ahead_def by blast
  then obtain t0 b0 where f: "f = hs_bytes t0 b0" "length b0 < 2 ^ 24" using fs by auto
  have "hs_bytes t0 b0 @ concat rest = hs_bytes t body @ wi_in WA (hx_env a')"
    using assms(1,2) fs f by (simp add: ahead_def)
  from hs_bytes_inj [OF this f(2) assms(3)] have "f = hs_bytes t body" "wi_in WA (hx_env a') = concat rest"
    using f(1) by simp_all
  moreover have "sends (unat (hx_message_number a') + k)" if "k < length rest" for k
  proof -
    have "Suc k < length fs" using fs that by simp
    then have "sends (unat (hx_message_number a) + Suc k)" using assms(1) unfolding ahead_def by blast
    then show ?thesis using assms(4) by simp
  qed
  moreover have "unat (hx_message_number b) = unat (hx_message_number a) + Suc (length rest)" "wi_in WB (hx_env b) = []"
    "wi_log WB (hx_env b) = wi_log WA (hx_env a) @ f # rest" using assms(1) fs by (simp_all add: ahead_def)
  ultimately have "ahead sends WB WA (b\<lparr>hx_env := e\<rparr>) a' rest"
    using assms(4-6) all fs by (simp add: ahead_def arrives_def)
  then show ?thesis ..
qed

context handshake_peer
begin

text \<open>A turn of one peer, with what arrives at the other.\<close>

lemma turn_keeps_pair:
  assumes inv: "pair_inv sends W WB a b" and guard: "my_turn a = sends (unat (hx_message_number a))"
    and step: "perform_step ops a = (Inr (), a')" and out: "wi_out W (hx_env a') = wi_out W (hx_env a) @ bs"
    and arr: "arrives WB bs (hx_env b) e"
  shows "pair_inv sends W WB a' (b\<lparr>hx_env := e\<rparr>)"
proof -
  have bm: "between_messages W a" "between_messages WB (b\<lparr>hx_env := e\<rparr>)"
    using inv arr by (auto simp: pair_inv_def between_messages_def arrives_def)
  show ?thesis
  proof (cases "my_turn a")
    case True
    note s = turn_sends [OF step bm(1) True]
    then obtain t body where m: "length body < 2 ^ 24" "bs = hs_bytes t body"
      "wi_log W (hx_env a') = wi_log W (hx_env a) @ [hs_bytes t body]" using out by auto
    have "\<exists>fs. ahead sends W WB a b fs"
    proof (rule ccontr)
      assume no: "\<not> ?thesis"
      then obtain fs where fs: "ahead (\<lambda>k. \<not> sends k) WB W b a fs" using inv by (auto simp: pair_inv_def)
      then have "fs \<noteq> []" using no ahead_even by blast
      then show False using fs guard True by (auto simp: ahead_def)
    qed
    then show ?thesis
      using ahead_send [of sends W WB a b _ a' t body e] s m arr guard True bm by (fastforce simp: pair_inv_def)
  next
    case False
    note r = turn_receives [OF step bm(1) False]
    then obtain t body where m: "length body < 2 ^ 24" "wi_in W (hx_env a) = hs_bytes t body @ wi_in W (hx_env a')"
      "wi_log W (hx_env a') = wi_log W (hx_env a) @ [hs_bytes t body]" by auto
    have "bs = []" using out r by simp
    moreover have "wi_in W (hx_env a) \<noteq> []" using m(2) by simp
    then obtain fs where "ahead (\<lambda>k. \<not> sends k) WB W b a fs" using inv by (auto simp: pair_inv_def ahead_def)
    ultimately show ?thesis using ahead_receive [OF _ m(2,1) _ m(3)] r arr bm by (fastforce simp: pair_inv_def)
  qed
qed

end

lemma pair_step_inv:
  assumes "handshake_peer opsC WC" and "handshake_peer opsS WS" and "pair_step client_sends opsC WC opsS WS (c, s) (c', s')"
    and inv: "pair_inv client_sends WC WS c s"
  shows "pair_inv client_sends WC WS c' s'"
  using assms(3)
proof cases
  case (client_turn bs e)
  show ?thesis unfolding client_turn(1)
    by (rule handshake_peer.turn_keeps_pair [OF assms(1) inv client_turn(2-5)])
next
  case (server_turn bs e)
  have "pair_inv (\<lambda>k. \<not> client_sends k) WS WC s' (c\<lparr>hx_env := e\<rparr>)"
    by (rule handshake_peer.turn_keeps_pair [where sends = "\<lambda>k. \<not> client_sends k", OF assms(2) _ server_turn(2-5)]) (use inv pair_inv_swap in blast)
  then show ?thesis unfolding server_turn(1) pair_inv_swap .
qed

lemma pair_run_inv:
  assumes "handshake_peer opsC WC" and "handshake_peer opsS WS"
    and "(pair_step client_sends opsC WC opsS WS)\<^sup>*\<^sup>* (c0, s0) (c, s)" and "pair_inv client_sends WC WS c0 s0"
  shows "pair_inv client_sends WC WS c s"
  using assms(3,4)
  by (induction "(c, s)" arbitrary: c s rule: rtranclp_induct) (auto dest: pair_step_inv [OF assms(1,2)])

text \<open>No message occurs twice in a row of the table.\<close>

lemma distinct_handshakes: "distinct (handshakes hs)"
  by (simp add: handshakes_def)

lemma same_active_state:
  assumes "tls13_handshake_active_state a = mt" and "tls13_handshake_active_state b = mt" and "mt \<noteq> INVALID"
    and "hx_hs_type a = hx_hs_type b"
  shows "hx_message_number a = hx_message_number b"
proof -
  have "unat (hx_message_number a) = unat (hx_message_number b)"
    using assms distinct_handshakes [of "hx_hs_type b"]
    by (auto simp: tls13_handshake_active_state_def Let_def nth_eq_iff_index_eq split: if_splits)
  then show ?thesis by (simp add: word_unat_eq_iff)
qed

section \<open>Properties\<close>

text \<open>C33: a client and a server that talk to each other record the same transcript.  However their turns are interleaved,
  and however many messages one of them sends before the other reads, what one has recorded is a prefix of what the
  other has, and the difference is exactly what is in flight; as soon as they are at the same message, in particular
  when both have reached the application data of the same kind of handshake, their transcripts are equal and nothing is
  in flight.\<close>

theorem transcripts_agree:
  assumes "handshake_peer opsC WC" and "handshake_peer opsS WS"
    and "between_messages WC c0" and "between_messages WS s0" and "hx_message_number c0 = hx_message_number s0"
    and "wi_log WC (hx_env c0) = wi_log WS (hx_env s0)" and "wi_in WC (hx_env c0) = []" and "wi_in WS (hx_env s0) = []"
    and "(pair_step client_sends opsC WC opsS WS)\<^sup>*\<^sup>* (c0, s0) (c, s)"
  shows "(\<exists>fs. wi_log WC (hx_env c) = wi_log WS (hx_env s) @ fs \<and> wi_in WS (hx_env s) = concat fs \<and> wi_in WC (hx_env c) = [] \<or>
      wi_log WS (hx_env s) = wi_log WC (hx_env c) @ fs \<and> wi_in WC (hx_env c) = concat fs \<and> wi_in WS (hx_env s) = []) \<and>
    (hx_message_number c = hx_message_number s \<or>
       tls13_handshake_active_state c = APPLICATION_DATA \<and> tls13_handshake_active_state s = APPLICATION_DATA \<and>
       hx_hs_type c = hx_hs_type s \<longrightarrow>
     wi_log WC (hx_env c) = wi_log WS (hx_env s) \<and> wi_in WC (hx_env c) = [] \<and> wi_in WS (hx_env s) = [])"
proof -
  have "ahead client_sends WC WS c0 s0 []" using assms(5-8) by (simp add: ahead_def)
  then have "pair_inv client_sends WC WS c0 s0" using assms(3,4) by (auto simp: pair_inv_def)
  then have inv: "pair_inv client_sends WC WS c s" by (rule pair_run_inv [OF assms(1,2,9)])
  have same: "hx_message_number c = hx_message_number s" if "tls13_handshake_active_state c = APPLICATION_DATA"
    "tls13_handshake_active_state s = APPLICATION_DATA" "hx_hs_type c = hx_hs_type s"
    using same_active_state [OF that(1,2) _ that(3)] by simp
  show ?thesis using inv same unfolding pair_inv_def ahead_def by fastforce
qed

section \<open>A handshake of two peers\<close>

definition duplex_wire :: "duplex wire" where
  "duplex_wire = \<lparr>wi_ok = (\<lambda>e. tb_ok (dx_in e) \<and> tb_ok (dx_out e)), wi_in = (\<lambda>e. tb_content (dx_in e)),
     wi_out = (\<lambda>e. tb_content (dx_out e)), wi_log = dx_log\<rparr>"

interpretation duplex: handshake_peer duplex_ops duplex_wire
proof
  show "handlers_keep duplex_ops" "alerts_fail duplex_ops" by (rule duplex_ops_ok)+
next
  fix x :: bytes and y e n r bs e'
  assume e: "wi_ok duplex_wire e \<and> wi_out duplex_wire e = x \<and> wi_log duplex_wire e = y"
    and r: "op_read_hs duplex_ops n e = (r, bs, e')"
  obtain b where b: "tls_buffer_read n (dx_in e) = (r, bs, b)" "e' = e\<lparr>dx_in := b\<rparr>"
    using r by (auto simp: duplex_ops_def split: prod.splits)
  have ok: "tb_ok (dx_in e)" using e by (simp add: duplex_wire_def)
  show "wi_ok duplex_wire e' \<and> wi_out duplex_wire e' = x \<and> wi_log duplex_wire e' = y"
    using e b tbq.read_invar [OF ok b(1)] by (simp add: duplex_wire_def)
  show "wi_in duplex_wire e = bs @ wi_in duplex_wire e'"
    using b tbq.read_content [OF ok b(1)] by (simp add: duplex_wire_def)
  show "length bs \<le> n \<and> length bs = nat r" by (rule tbq.read_count [OF ok b(1)])
next
  fix x :: bytes and y e bs r e'
  assume e: "wi_ok duplex_wire e \<and> wi_in duplex_wire e = x \<and> wi_log duplex_wire e = y"
    and r: "op_write_hs duplex_ops bs e = (r, e')"
  obtain b where b: "tls_buffer_write (\<lambda>n. True) bs (dx_out e) = (r, b)" "e' = e\<lparr>dx_out := b\<rparr>"
    using r by (auto simp: duplex_ops_def split: prod.splits)
  have ok: "tb_ok (dx_out e)" using e by (simp add: duplex_wire_def)
  show "wi_ok duplex_wire e' \<and> wi_in duplex_wire e' = x \<and> wi_log duplex_wire e' = y"
    using e b tbq.sink.sink_invar [OF ok b(1)] by (simp add: duplex_wire_def)
  show "nat r \<le> length bs" by (rule tbq.sink.sink_count [OF ok b(1)])
  show "wi_out duplex_wire e' = wi_out duplex_wire e @ take (nat r) bs"
    using b tbq.sink.sink_content [OF ok b(1)] by (simp add: duplex_wire_def)
next
  fix mt and ctx ctx' :: "duplex tls13_ctx" and m
  assume s: "op_send duplex_ops mt ctx = (True, ctx')" "hx_hs_msg ctx = Some m"
  then show "\<exists>items s. items_sized items \<and> cbb_build (op_alloc duplex_ops) 1 items (msg_cbb m) = (True, s) \<and>
      hx_hs_msg ctx' = Some (m\<lparr>msg_cbb := s\<rparr>)"
    by (intro exI [of _ "[Uint_item W8 (mt_index mt)]"]) (auto simp: duplex_ops_def simp del: cbb_build.simps split: prod.splits)
next
  fix mt and ctx ctx' :: "duplex tls13_ctx" and ok
  assume "op_send duplex_ops mt ctx = (ok, ctx')"
  then show "handler_frame duplex_wire ctx ctx'"
    by (auto simp: duplex_ops_def simp del: cbb_build.simps split: prod.splits option.splits)
qed (auto simp: duplex_ops_def duplex_wire_def quiet_def split: prod.splits)

text \<open>The bytes that a peer has newly written are appended to what the other has still to read.\<close>

definition deliver_bytes :: "bytes \<Rightarrow> duplex \<Rightarrow> duplex" where
  "deliver_bytes bs e = e\<lparr>dx_in := filled_buffer (tb_content (dx_in e) @ bs)\<rparr>"

text \<open>A turn of the first peer, when it goes on.\<close>

definition duplex_turn :: "(nat \<Rightarrow> bool) \<Rightarrow> duplex tls13_ctx \<times> duplex tls13_ctx \<Rightarrow> (duplex tls13_ctx \<times> duplex tls13_ctx) option" where
  "duplex_turn sends p =
     (case p of (a, b) \<Rightarrow>
       (case perform_step duplex_ops a of
          (Inl _, _) \<Rightarrow> None
        | (Inr _, a') \<Rightarrow>
            if my_turn a = sends (unat (hx_message_number a))
            then Some (a', b\<lparr>hx_env := deliver_bytes
              (drop (length (tb_content (dx_out (hx_env a)))) (tb_content (dx_out (hx_env a')))) (hx_env b)\<rparr>)
            else None))"

text \<open>A schedule says whose turn it is; the first peer is the client.\<close>

fun duplex_run :: "(nat \<Rightarrow> bool) \<Rightarrow> bool list \<Rightarrow> duplex tls13_ctx \<times> duplex tls13_ctx \<Rightarrow>
    (duplex tls13_ctx \<times> duplex tls13_ctx) option" where
  "duplex_run sends [] p = Some p"
| "duplex_run sends (t # ts) p =
     (case (if t then duplex_turn sends p else map_option prod.swap (duplex_turn (\<lambda>k. \<not> sends k) (prod.swap p))) of
        None \<Rightarrow> None
      | Some p \<Rightarrow> duplex_run sends ts p)"

lemma tb_filled [simp]: "tb_ok (filled_buffer bs)" "tb_content (filled_buffer bs) = bs"
  by (simp_all add: filled_buffer_def tb_ok_def tb_content_def tb_bytes_def)

lemma deliver_arrives: "wi_ok duplex_wire e \<Longrightarrow> arrives duplex_wire bs e (deliver_bytes bs e)"
  by (simp add: arrives_def deliver_bytes_def duplex_wire_def)

lemma duplex_turn_SomeD:
  assumes "duplex_turn sends (a, b) = Some (a', b')" and "between_messages duplex_wire a" and "between_messages duplex_wire b"
  shows "between_messages duplex_wire a' \<and> between_messages duplex_wire b' \<and> perform_step duplex_ops a = (Inr (), a') \<and>
    my_turn a = sends (unat (hx_message_number a)) \<and>
    (\<exists>bs e. wi_out duplex_wire (hx_env a') = wi_out duplex_wire (hx_env a) @ bs \<and> arrives duplex_wire bs (hx_env b) e \<and>
      b' = b\<lparr>hx_env := e\<rparr>)"
proof -
  let ?bs = "drop (length (tb_content (dx_out (hx_env a)))) (tb_content (dx_out (hx_env a')))"
  have step: "perform_step duplex_ops a = (Inr (), a')" and guard: "my_turn a = sends (unat (hx_message_number a))"
    and b': "b' = b\<lparr>hx_env := deliver_bytes ?bs (hx_env b)\<rparr>"
    using assms(1) by (auto simp: duplex_turn_def split: prod.splits sum.splits if_splits)
  have "between_messages duplex_wire a' \<and> (\<exists>bs. wi_out duplex_wire (hx_env a') = wi_out duplex_wire (hx_env a) @ bs)"
    using duplex.turn_sends [OF step assms(2)] duplex.turn_receives [OF step assms(2)] by (cases "my_turn a") auto
  moreover have "arrives duplex_wire ?bs (hx_env b) (deliver_bytes ?bs (hx_env b))"
    using assms(3) by (intro deliver_arrives) (simp add: between_messages_def)
  ultimately show ?thesis using step guard b' assms(3) by (auto simp: duplex_wire_def between_messages_def arrives_def)
qed

lemma duplex_run_steps:
  "duplex_run sends ts (a, b) = Some (a', b') \<Longrightarrow> between_messages duplex_wire a \<Longrightarrow> between_messages duplex_wire b \<Longrightarrow>
   (pair_step sends duplex_ops duplex_wire duplex_ops duplex_wire)\<^sup>*\<^sup>* (a, b) (a', b')"
proof (induction ts arbitrary: a b)
  case (Cons t ts)
  then obtain a1 b1 where 1: "(if t then duplex_turn sends (a, b)
        else map_option prod.swap (duplex_turn (\<lambda>k. \<not> sends k) (b, a))) = Some (a1, b1)"
    and 2: "duplex_run sends ts (a1, b1) = Some (a', b')" by (cases t) (auto split: option.splits)
  have "between_messages duplex_wire a1 \<and> between_messages duplex_wire b1 \<and>
      pair_step sends duplex_ops duplex_wire duplex_ops duplex_wire (a, b) (a1, b1)"
  proof (cases t)
    case True
    then show ?thesis using 1 duplex_turn_SomeD [of sends a b a1 b1] Cons(3,4) by (auto intro: pair_step.client_turn)
  next
    case False
    then have "duplex_turn (\<lambda>k. \<not> sends k) (b, a) = Some (b1, a1)" using 1 by (cases "duplex_turn (\<lambda>k. \<not> sends k) (b, a)") auto
    then show ?thesis using duplex_turn_SomeD [of "\<lambda>k. \<not> sends k" b a b1 a1] Cons(3,4) by (auto intro: pair_step.server_turn)
  qed
  then show ?case using Cons(1) [OF 2] by (auto intro: converse_rtranclp_into_rtranclp)
qed simp

text \<open>The end of a resumed handshake: the server sends two messages before the client reads any of them.\<close>

theorem transcripts_agree_witness:
  "\<exists>c s. (pair_step (\<lambda>k. k \<in> {0, 4}) duplex_ops duplex_wire duplex_ops duplex_wire)\<^sup>*\<^sup>*
      (resuming TLS13_HS_CLIENT 2 [], resuming TLS13_HS_SERVER 2 []) (c, s) \<and>
    tls13_handshake_active_state c = APPLICATION_DATA \<and> tls13_handshake_active_state s = APPLICATION_DATA \<and>
    length (dx_log (hx_env c)) = 3 \<and> dx_log (hx_env c) = dx_log (hx_env s)"
proof -
  let ?c = "resuming TLS13_HS_CLIENT 2 []" and ?s = "resuming TLS13_HS_SERVER 2 []"
  let ?q = "duplex_run (\<lambda>k. k = 0 \<or> k = 4) [False, False, True, True, True, False] (?c, ?s)"
  have e: "map_option (\<lambda>(c, s). (tls13_handshake_active_state c, tls13_handshake_active_state s,
      hx_hs_type c = hx_hs_type s, length (dx_log (hx_env c)))) ?q = Some (APPLICATION_DATA, APPLICATION_DATA, True, 3)"
    by code_simp
  have b: "between_messages duplex_wire ?c" "between_messages duplex_wire ?s"
    by (simp_all add: between_messages_def duplex_wire_def resuming_def ccs_ok_def)
  obtain c s where q: "?q = Some (c, s)" using e by auto
  note run = duplex_run_steps [OF q b]
  have "wi_log duplex_wire (hx_env c) = wi_log duplex_wire (hx_env s)"
    using transcripts_agree [OF duplex.handshake_peer_axioms duplex.handshake_peer_axioms b _ _ _ _ run] e q
    by (auto simp: duplex_wire_def resuming_def)
  then show ?thesis using run e q by (intro exI [of _ c] exI [of _ s]) (auto simp: duplex_wire_def)
qed

end
