(* ===== verification/Spec2Isabelle.thy ===== *)
theory Spec2Isabelle
  imports Prj_main Echo_server Async_connector Async_connector_co Bs_ber Bs_codec Tls13_peers
begin

text \<open>
  \<^bold>\<open>The repository.\<close>  \<^verbatim>\<open>boost_test\<close> is a small C++ code base around Boost.Asio: a library of helpers
  (\<^verbatim>\<open>src/src/util\<close>), a program that uses them (\<^verbatim>\<open>src/src/prj_exec1\<close>) and three example programs
  (\<^verbatim>\<open>src/example\<close>).  It vendors LibreSSL 4.0.0 (\<^verbatim>\<open>src/third-party\<close>), of which the parts that read and write
  bytes and drive the TLS 1.3 handshake are modelled as well.

  \<^bold>\<open>How the code is modelled.\<close>  Every function is a HOL function over explicit state.  An exception is a value
  (\<open>exn\<close>), a \<^verbatim>\<open>result\<close> a sum with the error on the left, an \<^verbatim>\<open>outcome\<close> a datatype.  What the operating system,
  Boost and spdlog answer is an argument of the definition that asks, or an event; what the code asks of
  them is a list of calls in the order in which the code makes them, or an update of the state that the call
  changes (files, signal dispositions, limits, the logger).  A coroutine is a state machine that is resumed
  with the answer of the operation it awaits.  An asynchronous completion is a step of a relation, or an event
  of a run function, and may happen at any time at which the code waits for it.

  \<^bold>\<open>The theories.\<close>

  \<^item> \<open>Util_base\<close>: exceptions, error codes, log lines, endpoints, decimal numbers and durations.
  \<^item> \<open>Util_error\<close>: \<^verbatim>\<open>util/error.hpp\<close>, \<^verbatim>\<open>error.cpp\<close>, \<^verbatim>\<open>type_def.hpp\<close>, \<^verbatim>\<open>exception.hpp\<close>.  The error category and its codes,
    the text of an outcome, exceptions with a stack trace and the \<^verbatim>\<open>catch\<close> clauses of the programs.
  \<^item> \<open>Util_platform\<close>: \<^verbatim>\<open>util.cpp\<close>, \<^verbatim>\<open>dump_helper.cpp\<close>, \<^verbatim>\<open>stacktrace_dumper.cpp\<close>.  The logger, the location of the
    program, core files and minidumps, and the crash handlers: \<open>deliver\<close> is the delivery of a signal with
    the nested handlers and the blocking of signals that are being handled.  Its termination measure is the
    number of handlers still installed.  The properties say what a crash leaves behind and what the next
    run makes of it.
  \<^item> \<open>Asio_result\<close>: \<^verbatim>\<open>asio_as_result.hpp\<close>.  The completion token \<open>as_result\<close>: its handler, the overloads, the
    signature it announces and the associators.  The locale \<open>handler_adapter\<close> is what an adapter owes the
    operation it is put on, \<open>two_adapters\<close> its composition.
  \<^item> \<open>Asio_timeout\<close>: \<^verbatim>\<open>asio_timeout.hpp\<close>.  The completion token with a time limit: the provider, its
    timer waits and cancellation requests, and the binder; both adapters are interpreted, in both orders.
  \<^item> \<open>Runs\<close>: runs of any transition function or relation, the locales for invariants of states and of histories, and
    \<open>family_run\<close>: machines that are run side by side, each by its own events, are independent.
  \<^item> \<open>Timeout_runs\<close>: the runs of an operation under a limit, \<open>tstep\<close>, \<open>trun\<close> and \<open>timed_run\<close>.  \<open>at_stage\<close> is the
    invariant behind the properties of the escalation, \<open>parent_inv\<close> and \<open>end_inv\<close> those of the caller's slot and
    of the end of the operation, and \<open>timely\<close> adds the times.  They start from any provider without a wait under
    way, so they hold for a provider that is used again; what goes wrong when a wait is under way is stated too.
  \<^item> \<open>Echo_server\<close>: \<^verbatim>\<open>echo_server.cpp\<close>.  One connection (\<open>echo_step\<close>) with its buffer, the listener, and the server as their
    interleaving; \<open>sessions_inv\<close> is the simulation by independent connections.
  \<^item> \<open>Async_connector\<close>: \<^verbatim>\<open>async_connector.cpp\<close>.  The class with its handlers; \<open>connector_step\<close> is the run of its
    context and \<open>connector_inv\<close> accounts for every completion.
  \<^item> \<open>Async_connector_co\<close>: \<^verbatim>\<open>async_connector_co.cpp\<close>, on top of the two completion tokens: \<open>co_step\<close> is one
    attempt, with its provider inside, and the attempts of the program are a family of them.
  \<^item> \<open>Prj_main\<close>: \<^verbatim>\<open>prj_exec1\<close>: \<open>main\<close> and \<open>terminate_handle\<close>, composed with the logger and the crash handlers.
  \<^item> \<open>LS_Prelude\<close>: bytes, machine integers and the proof collections for LibreSSL.
  \<^item> \<open>Bs_cbs\<close>, \<open>Bs_cbb\<close>, \<open>Bs_codec\<close>, \<open>Bs_ber\<close>: \<^verbatim>\<open>crypto/bytestring\<close>.  The reader, the builder (a handle is its depth in the
    chain of open children; allocation is a parameter), their round trips, and the conversion from BER, whose
    recursion is bounded by \<open>kMaxDepth\<close> as in the code.
  \<^item> \<open>Tls_buffer\<close>: \<^verbatim>\<open>ssl/tls_buffer.c\<close>, \<^verbatim>\<open>tls_content.c\<close>; its locales state what a source and a sink of bytes
    promise; a \<open>patient_source\<close> may keep its reader waiting, but not for ever.
  \<^item> \<open>Tls13_record\<close>: \<^verbatim>\<open>ssl/tls13_record.c\<close>, \<^verbatim>\<open>tls13_handshake_msg.c\<close>.  \<open>recv_outcome\<close> says what one call does to
    the stream, \<open>record_recv_progress\<close> that a record that is on its way arrives.
  \<^item> \<open>Tls13_handshake\<close>: \<^verbatim>\<open>ssl/tls13_handshake.c\<close>: the state tables and the driver; the handlers
    of the single messages are parameters.  Its loop runs with fuel, and \<open>turn_ok\<close> says what one turn does: it
    returns or moves one message on, so that 15 turns, the number of messages, are enough.
  \<^item> \<open>Tls13_peers\<close>: two of these drivers, a client and a server, over a channel that keeps the order of bytes.  The locale
    \<open>handshake_peer\<close> is what the parameters of one driver promise, \<open>pair_step\<close> is a turn of either side, whose
    bytes arrive at the other, in any order, and \<open>pair_inv\<close> says how far one side may be ahead of the other.  The contract is interpreted on
    the environment with two buffers with which \<open>Tls13_handshake\<close> runs its examples.
  \<^item> This theory imports them all and holds this overview.

  \<^bold>\<open>What is assumed.\<close>  Hypotheses of the properties that are about code outside the repository: \<^verbatim>\<open>readlink\<close> stores
  the first characters of the target; \<^verbatim>\<open>setrlimit\<close> refuses to raise a hard limit; \<^verbatim>\<open>CreateFileA\<close> needs the directory
  of the file; the \<^verbatim>\<open>async_initiate\<close> of a token starts the operation with the handler of the token; a
  write takes at most what it is given; a timer wait does not succeed before its expiry; a socket is closed even when
  its \<^verbatim>\<open>close()\<close> raises an exception; the handlers of handshake messages
  leave the position of the state machine alone and never raise \<open>user_canceled\<close>, and sending an alert that reports an
  error is no success.  For two peers, besides: handlers write a message with builder calls only, nothing but the
  transport touches the bytes of the handshake, one ChangeCipherSpec is asked for at a time, and the two sides agree, where a
  message is under way, which of them sends the message of that number.  Signals that are
  being handled are blocked, as with glibc's \<^verbatim>\<open>signal\<close>.

  \<^bold>\<open>Not modelled.\<close>  \<^verbatim>\<open>src/src/pch.hpp\<close> and the class declarations of the headers hold no behaviour.  The macros that choose a
  character type are not modelled, strings are lists of characters.  Failures to allocate are modelled where a handler
  catches them and what it leaves behind depends on where they happen; an exception of \<^verbatim>\<open>co_spawn\<close> in the listener is not.  Of LibreSSL, the cryptography, the
  certificates, the handlers of the single handshake messages and the older protocol versions are left out, and so are the deallocators, which only
  return memory.  Build files, tests and the other vendored code are outside the development.
\<close>

end
